(* ===== verification/Prelude.thy ===== *)
theory Prelude
  imports Main "HOL-Library.Word"
begin

text \<open>
  Shared by every component: the machine integer types of \<^verbatim>\<open>src/src/util.h\<close>, the values that
  stand for executions the C code cannot continue (\<open>fault\<close>), the result type of code that may
  reach one, the bitwise views of words that the unions of the code give, and the collections
  of rewrite rules that the component theories extend.
\<close>

unbundle bit_operations_syntax

section \<open>Machine integers\<close>

type_synonym u8 = "8 word"
type_synonym u16 = "16 word"
type_synonym u32 = "32 word"
type_synonym u64 = "64 word"
type_synonym u128 = "128 word"

section \<open>Faults and results\<close>

text \<open>
  A C execution that leaves the defined behaviour of the language, or that a failed
  \<^verbatim>\<open>assert\<close> stops, is a value: the model of an operation returns \<open>Inl f\<close> at the statement
  where the code would do so, and \<open>Inr\<close> of its result otherwise.
\<close>

datatype fault =
    Out_Of_Bounds      \<comment> \<open>an access outside an array or a buffer\<close>
  | Uninitialised      \<comment> \<open>a value read that was never written\<close>
  | Use_After_Free     \<comment> \<open>a pointer to a block that was freed or moved\<close>
  | Double_Free        \<comment> \<open>a block freed twice\<close>
  | Null_Deref         \<comment> \<open>a null pointer dereferenced\<close>
  | Shift_Overflow     \<comment> \<open>a shift by at least the width of the operand\<close>
  | Signed_Overflow    \<comment> \<open>an \<open>int\<close> operation out of range\<close>
  | Assert_Failed      \<comment> \<open>\<open>assert\<close> calls \<open>abort\<close>\<close>
  | Exit_Failure       \<comment> \<open>\<open>exit(EXIT_FAILURE)\<close> in \<open>must_strdup\<close> and \<open>must_asprintf\<close>\<close>
  | Never_Returns      \<comment> \<open>a loop that does not end\<close>

type_synonym 'a res = "fault + 'a"

fun bind_res :: "'a res \<Rightarrow> ('a \<Rightarrow> 'b res) \<Rightarrow> 'b res" where
  "bind_res (Inl f) k = Inl f"
| "bind_res (Inr x) k = k x"

lemma bind_res_Inr_iff [simp]:
  "bind_res r k = Inr y \<longleftrightarrow> (\<exists>x. r = Inr x \<and> k x = Inr y)"
  by (cases r) auto

lemma bind_res_Inl_iff [simp]:
  "bind_res r k = Inl f \<longleftrightarrow> r = Inl f \<or> (\<exists>x. r = Inr x \<and> k x = Inl f)"
  by (cases r) auto

lemma bind_res_cong [fundef_cong]:
  assumes "r = r'" and "\<And>x. r' = Inr x \<Longrightarrow> k x = k' x"
  shows "bind_res r k = bind_res r' k'"
  using assms by (cases r') auto

text \<open>A pointer to a heap block that has one owner: null, live, or left behind by a free or a move.\<close>

datatype 'a ptr = Null | Live 'a | Dangling

fun deref :: "'a ptr \<Rightarrow> 'a res" where
  "deref Null = Inl Null_Deref"
| "deref (Live x) = Inr x"
| "deref Dangling = Inl Use_After_Free"

lemma deref_Inr_iff [simp]: "deref p = Inr x \<longleftrightarrow> p = Live x"
  by (cases p) auto

text \<open>Indexing an array.\<close>

definition at_index :: "'a list \<Rightarrow> nat \<Rightarrow> 'a res" where
  "at_index xs i = (if i < length xs then Inr (xs ! i) else Inl Out_Of_Bounds)"

lemma at_index_Inr_iff [simp]: "at_index xs i = Inr x \<longleftrightarrow> i < length xs \<and> xs ! i = x"
  by (auto simp: at_index_def)

lemma at_index_in_range [simp]: "i < length xs \<Longrightarrow> at_index xs i = Inr (xs ! i)"
  by simp

text \<open>Reading a cell that may be uninitialised.\<close>

definition cell_at :: "'a option list \<Rightarrow> nat \<Rightarrow> 'a res" where
  "cell_at xs i = bind_res (at_index xs i) (\<lambda>c. case c of None \<Rightarrow> Inl Uninitialised | Some x \<Rightarrow> Inr x)"

lemma cell_at_Inr_iff [simp]: "cell_at xs i = Inr x \<longleftrightarrow> i < length xs \<and> xs ! i = Some x"
  by (auto simp: cell_at_def split: option.splits)

lemma list_all_update: "list_all P xs \<Longrightarrow> P x \<Longrightarrow> list_all P (xs[i := x])"
  using set_update_subset_insert [of xs i x] by (auto simp: list_all_iff)

section \<open>Rule collections\<close>

named_theorems bits \<open>bit-level characterisations of the code's word operations\<close>
named_theorems wf_intros \<open>operations preserve their component's invariant\<close>

section \<open>Bytes of a word\<close>

text \<open>Byte \<open>i\<close> of a word stored in little-endian order, the order of the modelled platform.\<close>

definition byte_of :: "nat \<Rightarrow> 'a::len word \<Rightarrow> u8" where
  "byte_of i w = ucast (drop_bit (8 * i) w)"

lemma bit_byte_of [bits]: "bit (byte_of i w) k \<longleftrightarrow> k < 8 \<and> bit w (8 * i + k)"
  by (auto simp: byte_of_def bit_ucast_iff bit_drop_bit_eq)

text \<open>
  The reversal of the \<open>n\<close> bytes of a word: the conversion between host and network order
  (\<^verbatim>\<open>htons\<close>, \<^verbatim>\<open>htobe64\<close>) on a little-endian platform.
\<close>

definition rev_bytes :: "nat \<Rightarrow> 'a::len word \<Rightarrow> 'a word" where
  "rev_bytes n w = foldr (\<lambda>i r. push_bit (8 * (n - 1 - i)) (ucast (byte_of i w)) OR r) [0..<n] 0"

definition htons :: "u16 \<Rightarrow> u16" where
  "htons = rev_bytes 2"

definition htobe64 :: "u64 \<Rightarrow> u64" where
  "htobe64 = rev_bytes 8"

lemma bit_foldr_or:
  "bit (foldr (\<lambda>i r. f i OR r) is (0 :: 'a::len word)) k \<longleftrightarrow> (\<exists>i \<in> set is. bit (f i) k)"
  by (induction "is") (auto simp: bit_or_iff)

lemma bit_rev_bytes:
  fixes w :: "'a::len word"
  assumes "LENGTH('a) = 8 * n"
  shows "bit (rev_bytes n w) k \<longleftrightarrow> k < 8 * n \<and> bit w (8 * (n - 1 - k div 8) + k mod 8)"
proof -
  have "bit (rev_bytes n w) k \<longleftrightarrow>
      (\<exists>i < n. k < 8 * n \<and> 8 * (n - 1 - i) \<le> k \<and> k - 8 * (n - 1 - i) < 8 \<and>
         bit w (8 * i + (k - 8 * (n - 1 - i))))" (is "_ \<longleftrightarrow> (\<exists>i < n. ?P i)")
    using assms
    by (auto simp: rev_bytes_def bit_foldr_or bit_push_bit_iff bit_ucast_iff bit_byte_of
        possible_bit_def)
  also have "\<dots> \<longleftrightarrow> k < 8 * n \<and> bit w (8 * (n - 1 - k div 8) + k mod 8)" (is "_ \<longleftrightarrow> ?Q")
  proof
    assume "\<exists>i < n. ?P i"
    then obtain i where i: "i < n" "?P i" by blast
    then obtain r where r: "k = 8 * (n - 1 - i) + r" "r < 8"
      by (metis le_add_diff_inverse)
    then have "k div 8 = n - 1 - i" and "k mod 8 = r" by simp_all
    with i(1) have i_eq: "n - 1 - k div 8 = i" and mod_eq: "k mod 8 = r" by linarith+
    have "k - 8 * (n - 1 - i) = r" using r(1) by linarith
    with i(2) have "k < 8 * n" and "bit w (8 * i + r)" by metis+
    then show ?Q unfolding i_eq mod_eq by blast
  next
    assume Q: ?Q
    then have "n - 1 - k div 8 < n" and "n - 1 - (n - 1 - k div 8) = k div 8" by linarith+
    with Q have "?P (n - 1 - k div 8)" and "n - 1 - k div 8 < n"
      by (auto simp: minus_mult_div_eq_mod)
    then show "\<exists>i < n. ?P i" by blast
  qed
  finally show ?thesis .
qed

lemma bit_htons [bits]: "bit (htons p) k \<longleftrightarrow> k < 16 \<and> bit p (8 * (1 - k div 8) + k mod 8)"
  by (simp add: htons_def bit_rev_bytes)

lemma bit_htobe64 [bits]: "bit (htobe64 q) k \<longleftrightarrow> k < 64 \<and> bit q (8 * (7 - k div 8) + k mod 8)"
  by (simp add: htobe64_def bit_rev_bytes)

lemma htons_htons [simp]: "htons (htons p) = p"
proof (rule bit_word_eqI)
  fix k :: nat assume "k < LENGTH(16)"
  then have k: "k < 16" by simp
  then have d: "k div 8 \<le> 1" by linarith
  have "8 * (1 - k div 8) + k mod 8 < 16" by (cases "k div 8") auto
  moreover have "(8 * (1 - k div 8) + k mod 8) div 8 = 1 - k div 8"
    and "(8 * (1 - k div 8) + k mod 8) mod 8 = k mod 8" by simp_all
  moreover have "8 * (1 - (1 - k div 8)) + k mod 8 = k" using d by simp
  ultimately show "bit (htons (htons p)) k = bit p k"
    using k by (simp only: bit_htons) simp
qed

lemma htons_eq_0_iff [simp]: "htons p = 0 \<longleftrightarrow> p = 0"
proof -
  have "htons 0 = 0" by (rule bit_word_eqI) (simp add: bit_htons)
  then show ?thesis using htons_htons [of p] by metis
qed

lemma word_nonzero_iff_bit: "(w :: 'a::len word) \<noteq> 0 \<longleftrightarrow> (\<exists>k < LENGTH('a). bit w k)"
  by (auto simp: bit_eq_iff bit_imp_le_length)

lemma ex_less_restrict: "m \<le> n \<Longrightarrow> (\<exists>k < n. P k \<and> k < m) \<longleftrightarrow> (\<exists>k < (m :: nat). P k)"
  by (auto intro: less_le_trans)

lemma take_bit_word_nonzero_iff:
  "m \<le> LENGTH('a) \<Longrightarrow> take_bit m (w :: 'a::len word) \<noteq> 0 \<longleftrightarrow> (\<exists>k < m. bit w k)"
  unfolding word_nonzero_iff_bit
  by (simp add: bit_take_bit_iff conj_commute ex_less_restrict)

section \<open>Table indices\<close>

lemma mask_and_pow2: "(x AND (2 ^ k - Suc 0) :: nat) = take_bit k x"
  by (simp add: take_bit_eq_mask mask_eq_exp_minus_1)

lemma and_le_right_nat: "(x AND y :: nat) \<le> y"
proof -
  have "int (x AND y) \<le> int y"
    by (simp add: of_nat_and_eq)
  then show ?thesis by simp
qed

lemma and_pred_less: "0 < n \<Longrightarrow> (x AND (n - Suc 0) :: nat) < n"
  using and_le_right_nat [of x "n - 1"] by simp

end
