(* ===== verification/C_String.thy ===== *)
theory C_String
  imports Prelude
begin

text \<open>
  The C library's string functions that the program calls, on strings as character lists: the
  contents of a buffer up to its terminating null character. A pointer into a buffer is the
  rest of the list from that position, and \<^verbatim>\<open>*p = '\0'\<close> at position \<open>i\<close> leaves \<open>take i\<close>.
  The lemmas are the round trips and length bounds that the components need.
\<close>

section \<open>Searching and cutting\<close>

text \<open>\<^verbatim>\<open>strchr\<close>: the position of the first \<open>c\<close>, or none.\<close>

fun strchr :: "string \<Rightarrow> char \<Rightarrow> nat option" where
  "strchr [] c = None"
| "strchr (x # xs) c = (if x = c then Some 0 else map_option Suc (strchr xs c))"

text \<open>\<^verbatim>\<open>strstr\<close>: the position of the first occurrence of a string in another.\<close>

fun strstr :: "string \<Rightarrow> string \<Rightarrow> nat option" where
  "strstr [] n = (if n = [] then Some 0 else None)"
| "strstr (x # xs) n =
     (if take (length n) (x # xs) = n then Some 0 else map_option Suc (strstr xs n))"

text \<open>The string that a buffer holds: its characters before the first null.\<close>

definition cstr :: "string \<Rightarrow> string" where
  "cstr = takeWhile (\<lambda>c. c \<noteq> CHR 0x00)"

lemma strchr_None_iff [simp]: "strchr s c = None \<longleftrightarrow> c \<notin> set s"
  by (induction s) auto

lemma strchr_append:
  "c \<notin> set xs \<Longrightarrow> strchr (xs @ ys) c = map_option (\<lambda>i. length xs + i) (strchr ys c)"
proof (induction xs)
  case Nil
  then show ?case by (simp add: option.map_ident)
next
  case (Cons x xs)
  then have "x \<noteq> c" and "strchr (xs @ ys) c = map_option (\<lambda>i. length xs + i) (strchr ys c)"
    by auto
  then show ?case by (simp add: option.map_comp comp_def)
qed

lemma strchr_SomeD:
  "strchr s c = Some i \<Longrightarrow> i < length s \<and> s ! i = c \<and> c \<notin> set (take i s)"
  by (induction s arbitrary: i) (auto split: if_splits)

lemma strchr_NoneI [simp]: "c \<notin> set s \<Longrightarrow> strchr s c = None"
  by simp

lemma take_strchr: "strchr s c = Some i \<Longrightarrow> take i s = takeWhile (\<lambda>x. x \<noteq> c) s"
  by (induction s arbitrary: i) (auto split: if_splits)

lemma takeWhile_notin: "c \<notin> set s \<Longrightarrow> takeWhile (\<lambda>x. x \<noteq> c) s = s"
  by (induction s) auto

lemma takeWhile_through [simp]:
  "c \<notin> set s \<Longrightarrow> takeWhile (\<lambda>x. x \<noteq> c) (s @ t) = s @ takeWhile (\<lambda>x. x \<noteq> c) t"
  by (induction s) auto

lemma cstr_id [simp]: "CHR 0x00 \<notin> set s \<Longrightarrow> cstr s = s"
  by (simp add: cstr_def takeWhile_notin)

lemma strstr_Nil [simp]: "strstr s [] = Some 0"
  by (cases s) auto

lemma strstr_prefix [simp]: "strstr (n @ ys) n = Some 0"
  by (cases n) auto

lemma strstr_append: "\<exists>i \<le> length xs. strstr (xs @ n @ ys) n = Some i"
proof (induction xs)
  case Nil
  then show ?case by simp
next
  case (Cons x xs)
  then show ?case by auto
qed

section \<open>Numbers\<close>

definition is_digit :: "char \<Rightarrow> bool" where
  "is_digit c \<longleftrightarrow> 48 \<le> (of_char c :: nat) \<and> (of_char c :: nat) \<le> 57"

definition digit_val :: "char \<Rightarrow> int" where
  "digit_val c = of_char c - 48"

definition digit_char :: "nat \<Rightarrow> char" where
  "digit_char d = char_of (48 + d)"

text \<open>The white space of \<^verbatim>\<open>isspace\<close> in the C locale, which \<^verbatim>\<open>strtol\<close> skips.\<close>

definition isspace :: "char \<Rightarrow> bool" where
  "isspace c \<longleftrightarrow> c = CHR '' '' \<or> (9 \<le> (of_char c :: nat) \<and> (of_char c :: nat) \<le> 13)"

fun strtol_digits :: "int \<Rightarrow> string \<Rightarrow> int" where
  "strtol_digits acc [] = acc"
| "strtol_digits acc (c # cs) =
     (if is_digit c then strtol_digits (10 * acc + digit_val c) cs else acc)"

definition clamp_long :: "int \<Rightarrow> int" where
  "clamp_long v = max (- (2 ^ 63)) (min (2 ^ 63 - 1) v)"

definition strtol :: "string \<Rightarrow> int" where
  "strtol s = clamp_long
     (case dropWhile isspace s of
        [] \<Rightarrow> 0
      | c # cs \<Rightarrow>
          if c = CHR ''-'' then - strtol_digits 0 cs
          else if c = CHR ''+'' then strtol_digits 0 cs
          else strtol_digits 0 (c # cs))"

text \<open>
  The conversion of an integer to a 32-bit \<open>int\<close>, and glibc's \<open>atoi\<close>: documented as
  \<^verbatim>\<open>(int) strtol(nptr, NULL, 10)\<close>.
\<close>

definition to_int32 :: "int \<Rightarrow> int" where
  "to_int32 v = signed_take_bit 31 v"

definition atoi :: "string \<Rightarrow> int" where
  "atoi s = to_int32 (strtol s)"

lemma to_int32_id [simp]: "- (2 ^ 31) \<le> v \<Longrightarrow> v < 2 ^ 31 \<Longrightarrow> to_int32 v = v"
  by (simp add: to_int32_def signed_take_bit_int_eq_self)

lemma to_int32_range: "- (2 ^ 31) \<le> to_int32 v \<and> to_int32 v < 2 ^ 31"
  unfolding to_int32_def
  using signed_take_bit_int_greater_eq_minus_exp [of 31 v] signed_take_bit_int_less_exp [of 31 v]
  by simp

lemma atoi_range: "- (2 ^ 31) \<le> atoi s \<and> atoi s < 2 ^ 31"
  unfolding atoi_def by (rule to_int32_range)

text \<open>Decimal output of \<^verbatim>\<open>%d\<close>, \<^verbatim>\<open>%ld\<close> and \<^verbatim>\<open>%lu\<close>.\<close>

fun show_nat :: "nat \<Rightarrow> string" where
  "show_nat n = (if n < 10 then [digit_char n] else show_nat (n div 10) @ [digit_char (n mod 10)])"

declare show_nat.simps [simp del]

definition show_int :: "int \<Rightarrow> string" where
  "show_int v = (if v < 0 then CHR ''-'' # show_nat (nat (- v)) else show_nat (nat v))"

lemma of_char_digit_char: "d < 10 \<Longrightarrow> (of_char (digit_char d) :: nat) = 48 + d"
  by (simp add: digit_char_def)

lemma is_digit_digit_char [simp]: "d < 10 \<Longrightarrow> is_digit (digit_char d)"
  by (simp add: is_digit_def of_char_digit_char)

lemma digit_val_digit_char [simp]: "d < 10 \<Longrightarrow> digit_val (digit_char d) = int d"
  using of_char_digit_char [of d] unfolding digit_val_def
  by (metis add_diff_cancel_left' of_nat_add of_nat_numeral of_nat_of_char)

lemma show_nat_digits: "\<forall>c \<in> set (show_nat n). is_digit c"
proof (induction n rule: show_nat.induct)
  case (1 n)
  then show ?case by (cases "n < 10") (auto simp: show_nat.simps [of n])
qed

lemma show_nat_nonempty [simp]: "show_nat n \<noteq> []"
  by (subst show_nat.simps) simp

lemma strtol_digits_append_digits:
  "\<forall>c \<in> set ds. is_digit c \<Longrightarrow>
     strtol_digits acc (ds @ rest) = strtol_digits (strtol_digits acc ds) rest"
  by (induction ds arbitrary: acc) auto

lemma strtol_digits_stop:
  "(rest = [] \<or> \<not> is_digit (hd rest)) \<Longrightarrow> strtol_digits acc rest = acc"
  by (cases rest) auto

lemma strtol_digits_show_nat: "strtol_digits 0 (show_nat n) = int n"
proof (induction n rule: show_nat.induct)
  case (1 n)
  show ?case
  proof (cases "n < 10")
    case True
    then show ?thesis by (simp add: show_nat.simps [of n])
  next
    case False
    with 1 have "strtol_digits 0 (show_nat (n div 10)) = int (n div 10)" by simp
    with False show ?thesis
      by (simp add: show_nat.simps [of n] strtol_digits_append_digits show_nat_digits)
        (metis mult_div_mod_eq of_nat_add of_nat_mult of_nat_numeral)
  qed
qed

lemma is_digitD:
  assumes "is_digit c"
  shows "\<not> isspace c" "c \<noteq> CHR ''-''" "c \<noteq> CHR ''+''"
  using assms by (auto simp: is_digit_def isspace_def)

text \<open>Reading back a printed number: \<open>atoi\<close> undoes \<open>%d\<close>, whatever non-digit follows.\<close>

lemma atoi_show_nat:
  assumes "int n < 2 ^ 31" and "rest = [] \<or> \<not> is_digit (hd rest)"
  shows "atoi (show_nat n @ rest) = int n"
proof -
  obtain c cs where c: "show_nat n = c # cs" "is_digit c"
    using show_nat_digits [of n] show_nat_nonempty [of n]
    by (metis list.set_intros(1) neq_Nil_conv)
  have "strtol_digits 0 (show_nat n @ rest) = int n"
    using assms(2)
    by (simp add: strtol_digits_append_digits show_nat_digits strtol_digits_show_nat
        strtol_digits_stop)
  with c assms(1) show ?thesis
    by (simp add: atoi_def strtol_def is_digitD clamp_long_def)
qed

section \<open>Tokens\<close>

fun split_on :: "char \<Rightarrow> string \<Rightarrow> string list" where
  "split_on d [] = [[]]"
| "split_on d (c # cs) =
     (if c = d then [] # split_on d cs
      else (case split_on d cs of [] \<Rightarrow> [[c]] | t # ts \<Rightarrow> (c # t) # ts))"

text \<open>The tokens that successive calls of \<^verbatim>\<open>strtok(_, ",")\<close> return: empty pieces are skipped.\<close>

definition strtok_tokens :: "char \<Rightarrow> string \<Rightarrow> string list" where
  "strtok_tokens d s = filter (\<lambda>t. t \<noteq> []) (split_on d s)"

lemma split_on_nonempty [simp]: "split_on d s \<noteq> []"
  by (cases s) (auto split: list.splits)

lemma length_split_on: "length (split_on d s) = Suc (count_list s d)"
  by (induction s) (auto split: list.splits)

lemma length_strtok_tokens: "length (strtok_tokens d s) \<le> Suc (count_list s d)"
  unfolding strtok_tokens_def
  by (rule order_trans [OF length_filter_le]) (simp add: length_split_on)

lemma strtok_tokens_clean:
  "t \<in> set (strtok_tokens d s) \<Longrightarrow> t \<noteq> [] \<and> set t \<subseteq> set s"
proof -
  have "set (concat (split_on d s)) \<subseteq> set s"
  proof (induction s)
    case (Cons c cs)
    then show ?case by (cases "split_on d cs") auto
  qed simp
  then show "t \<in> set (strtok_tokens d s) \<Longrightarrow> t \<noteq> [] \<and> set t \<subseteq> set s"
    by (auto simp: strtok_tokens_def)
qed

section \<open>Lines\<close>

text \<open>
  \<^verbatim>\<open>fgets(buf, n + 1, fp)\<close> on the unread rest of a file: at most \<open>n\<close> characters, the last of
  which is the first newline if there is one among them; and the chunks that
  \<^verbatim>\<open>while (fgets(...))\<close> goes through.
\<close>

fun fgets :: "nat \<Rightarrow> string \<Rightarrow> string \<times> string" where
  "fgets 0 s = ([], s)"
| "fgets (Suc n) [] = ([], [])"
| "fgets (Suc n) (c # cs) =
     (if c = CHR 0x0A then ([c], cs)
      else (let (l, r) = fgets n cs in (c # l, r)))"

lemma fgets_append: "fst (fgets n s) @ snd (fgets n s) = s"
  by (induction n s rule: fgets.induct) (auto simp: split_beta)

lemma length_fst_fgets: "length (fst (fgets n s)) \<le> n"
  by (induction n s rule: fgets.induct) (auto simp: split_beta)

lemma length_snd_fgets: "0 < n \<Longrightarrow> s \<noteq> [] \<Longrightarrow> length (snd (fgets n s)) < length s"
proof -
  have le: "length (snd (fgets n s)) \<le> length s" for n s
    using arg_cong [OF fgets_append, of length n s] by simp
  show "0 < n \<Longrightarrow> s \<noteq> [] \<Longrightarrow> length (snd (fgets n s)) < length s"
    by (cases n; cases s) (auto simp: split_beta less_Suc_eq_le le)
qed

function fgets_lines :: "nat \<Rightarrow> string \<Rightarrow> string list" where
  "fgets_lines n s =
     (if n = 0 \<or> s = [] then [] else fst (fgets n s) # fgets_lines n (snd (fgets n s)))"
  by pat_completeness auto
termination
  by (relation "measure (\<lambda>(n, s). length s)") (auto simp: length_snd_fgets)

declare fgets_lines.simps [simp del]

lemma concat_fgets_lines: "0 < n \<Longrightarrow> concat (fgets_lines n s) = s"
proof (induction n s rule: fgets_lines.induct)
  case (1 n s)
  show ?case
  proof (cases "s = []")
    case True
    then show ?thesis by (simp add: fgets_lines.simps [of n "[]"])
  next
    case False
    with 1 show ?thesis by (simp add: fgets_lines.simps [of n s] fgets_append)
  qed
qed

lemma fgets_line:
  "CHR 0x0A \<notin> set l \<Longrightarrow> length l < n \<Longrightarrow>
     fgets n (l @ CHR 0x0A # rest) = (l @ [CHR 0x0A], rest)"
proof (induction l arbitrary: n)
  case Nil
  then show ?case by (cases n) auto
next
  case (Cons c l)
  then show ?case by (cases n) (auto simp: split_beta)
qed

lemma fgets_lines_concat:
  assumes "\<forall>l \<in> set ls. CHR 0x0A \<notin> set l \<and> length l < n"
  shows "fgets_lines n (concat (map (\<lambda>l. l @ [CHR 0x0A]) ls)) = map (\<lambda>l. l @ [CHR 0x0A]) ls"
  using assms
proof (induction ls)
  case Nil
  then show ?case by (simp add: fgets_lines.simps)
next
  case (Cons l ls)
  then have "n \<noteq> 0" by auto
  with Cons show ?case
    by (subst fgets_lines.simps) (simp add: fgets_line)
qed

section \<open>Bounded copies\<close>

text \<open>
  What \<^verbatim>\<open>snprintf(buf, size, ...)\<close> and \<^verbatim>\<open>strlcpy(buf, s, size)\<close> leave in the buffer, and
  \<^verbatim>\<open>strlcat(buf, s, size)\<close> on a buffer that holds \<open>dst\<close>.
\<close>

definition strlcpy :: "nat \<Rightarrow> string \<Rightarrow> string" where
  "strlcpy sz s = take (sz - 1) s"

definition strlcat :: "nat \<Rightarrow> string \<Rightarrow> string \<Rightarrow> string" where
  "strlcat sz dst s =
     (if length dst < sz then dst @ take (sz - 1 - length dst) s else dst)"

lemma strlcpy_fits [simp]: "length s < sz \<Longrightarrow> strlcpy sz s = s"
  by (simp add: strlcpy_def)

lemma strlcat_fits [simp]: "length dst + length s < sz \<Longrightarrow> strlcat sz dst s = dst @ s"
  by (simp add: strlcat_def)

end
