(* ===== verification/Ip_Addr.thy ===== *)
theory Ip_Addr
  imports C_String
begin

text \<open>
  \<^verbatim>\<open>src/src/ip_addr.h\<close> and \<^verbatim>\<open>src/src/ip_addr.c\<close>: addresses, CIDR entries, the list of allowed
  remote hosts, and printing. The union \<^verbatim>\<open>struct ip_addr\<close> is its 128-bit member \<^verbatim>\<open>addr\<close> as a
  little-endian machine loads it from the sixteen bytes in network order; the other members are
  views of that word. \<^verbatim>\<open>inet_pton\<close> and \<^verbatim>\<open>inet_ntop\<close> are parameters.
\<close>

section \<open>The address union\<close>

type_synonym ip_addr = u128

text \<open>The members \<^verbatim>\<open>high_qword\<close> (bytes 0 to 7), \<^verbatim>\<open>low_qword\<close> (bytes 8 to 15) and \<^verbatim>\<open>dwords[i]\<close>.\<close>

definition high_qword :: "ip_addr \<Rightarrow> u64" where
  "high_qword a = ucast a"

definition low_qword :: "ip_addr \<Rightarrow> u64" where
  "low_qword a = ucast (drop_bit 64 a)"

definition dword :: "nat \<Rightarrow> ip_addr \<Rightarrow> u32" where
  "dword i a = ucast (drop_bit (32 * i) a)"

definition of_qwords :: "u64 \<Rightarrow> u64 \<Rightarrow> ip_addr" where
  "of_qwords high low = ucast high OR push_bit 64 (ucast low)"

lemma bit_high_qword [bits]: "bit (high_qword a) k \<longleftrightarrow> k < 64 \<and> bit a k"
  by (auto simp: high_qword_def bit_ucast_iff)

lemma bit_low_qword [bits]: "bit (low_qword a) k \<longleftrightarrow> k < 64 \<and> bit a (64 + k)"
  by (auto simp: low_qword_def bit_ucast_iff bit_drop_bit_eq)

lemma bit_dword [bits]: "bit (dword i a) k \<longleftrightarrow> k < 32 \<and> bit a (32 * i + k)"
  by (auto simp: dword_def bit_ucast_iff bit_drop_bit_eq)

lemma bit_of_qwords [bits]:
  "bit (of_qwords h l) k \<longleftrightarrow> (if k < 64 then bit h k else k < 128 \<and> bit l (k - 64))"
  by (auto simp: of_qwords_def bit_or_iff bit_push_bit_iff bit_ucast_iff possible_bit_def
      dest: bit_imp_le_length)

text \<open>
  The bit of the word at position \<open>k\<close> is sent as bit \<open>wire_pos k\<close> of the address: bytes in
  order, the most significant bit of each byte first.
\<close>

definition wire_pos :: "nat \<Rightarrow> nat" where
  "wire_pos k = 8 * (k div 8) + (7 - k mod 8)"

lemma byte_split:
  obtains q r where "(k :: nat) = 8 * q + r" and "r < 8"
  by (metis mult_div_mod_eq mod_less_divisor zero_less_numeral)

lemma wire_pos_split: "r < 8 \<Longrightarrow> wire_pos (8 * q + r) = 8 * q + (7 - r)"
  by (simp add: wire_pos_def)

lemma wire_pos_less: "k < 128 \<Longrightarrow> wire_pos k < 128"
proof -
  assume "k < 128"
  then have "k div 8 < 16" by (simp add: less_mult_imp_div_less)
  then show ?thesis by (simp add: wire_pos_def)
qed

lemma wire_pos_wire_pos [simp]: "wire_pos (wire_pos k) = k"
proof -
  obtain q r where k: "k = 8 * q + r" "r < 8" by (rule byte_split)
  then have "wire_pos (8 * q + (7 - r)) = 8 * q + (7 - (7 - r))"
    by (intro wire_pos_split) simp
  with k show ?thesis by (simp add: wire_pos_split)
qed

text \<open>At byte boundaries the two orders agree.\<close>

lemma wire_pos_less_bytes: "wire_pos k < 8 * m \<longleftrightarrow> k < 8 * m"
proof -
  obtain q r where k: "k = 8 * q + r" and r: "r < 8" by (rule byte_split)
  moreover have "8 * q + (7 - r) < 8 * m \<longleftrightarrow> q < m" and "8 * q + r < 8 * m \<longleftrightarrow> q < m"
    using r by (cases "q < m"; simp; linarith)+
  ultimately show ?thesis by (simp only: wire_pos_split)
qed

section \<open>Parsing addresses and CIDR entries\<close>

text \<open>
  \<open>pton s\<close> is the address that \<^verbatim>\<open>inet_pton(AF_INET6, s, _)\<close> stores, none where \<open>s\<close> is not an
  IPv6 address. The call returns 1 or 0 accordingly, and \<open>-1\<close> only for an address family other
  than \<^verbatim>\<open>AF_INET\<close> and \<^verbatim>\<open>AF_INET6\<close>.
\<close>

type_synonym pton = "string \<Rightarrow> ip_addr option"

definition inet_pton6 :: "pton \<Rightarrow> string \<Rightarrow> ip_addr \<Rightarrow> int \<times> ip_addr" where
  "inet_pton6 pton s old = (case pton s of None \<Rightarrow> (0, old) | Some a \<Rightarrow> (1, a))"

definition ip_addr_from_str :: "pton \<Rightarrow> string \<Rightarrow> ip_addr \<Rightarrow> bool \<times> ip_addr" where
  "ip_addr_from_str pton str addr =
     (let (rc, addr') = inet_pton6 pton str addr
      in if rc < 0 then (False, addr') else (True, addr'))"

record ip_addr_cidr =
  cidr_mask :: ip_addr
  cidr_addr :: ip_addr

text \<open>\<^verbatim>\<open>INET6_ADDRSTRLEN\<close>, the size of the local buffer \<^verbatim>\<open>tmp\<close>.\<close>

definition INET6_ADDRSTRLEN :: nat where
  "INET6_ADDRSTRLEN = 46"

text \<open>\<^verbatim>\<open>~((u128)0) << (128 - prefix_len)\<close>, undefined for a shift by the width 128.\<close>

definition host_mask :: "int \<Rightarrow> u128 res" where
  "host_mask prefix_len =
     (if 128 - prefix_len \<ge> 128 then Inl Shift_Overflow
      else Inr (push_bit (nat (128 - prefix_len)) (NOT 0)))"

text \<open>The conversion of the mask to network order under \<^verbatim>\<open>__ORDER_LITTLE_ENDIAN__\<close>.\<close>

definition mask_to_network :: "u128 \<Rightarrow> u128" where
  "mask_to_network m =
     (let hi = htobe64 (high_qword m);
          lo = htobe64 (low_qword m);
          temp = hi
      in of_qwords lo temp)"

text \<open>The result \<open>Inr None\<close> is the return of \<open>false\<close>.\<close>

definition ip_addr_cidr_from_str ::
  "pton \<Rightarrow> string \<Rightarrow> ip_addr_cidr \<Rightarrow> ip_addr_cidr option res" where
  "ip_addr_cidr_from_str pton str addr_cidr =
     (if length str \<ge> INET6_ADDRSTRLEN then Inl Out_Of_Bounds
      else
        let finish = (\<lambda>tmp m.
              let (ok, a) = ip_addr_from_str pton tmp (cidr_addr addr_cidr)
              in Inr (if ok then Some \<lparr>cidr_mask = mask_to_network m, cidr_addr = a\<rparr> else None))
        in case strchr str CHR ''/'' of
             Some slash \<Rightarrow>
               (let prefix_len = atoi (drop (slash + 1) str)
                in if prefix_len < 0 \<or> prefix_len > 128 then Inr None
                   else bind_res (host_mask prefix_len) (finish (take slash str)))
           | None \<Rightarrow> finish str (NOT 0))"

section \<open>Matching\<close>

definition ip_addr_cidr_match :: "ip_addr_cidr \<Rightarrow> ip_addr \<Rightarrow> bool" where
  "ip_addr_cidr_match addr_cidr addr = (if addr AND cidr_mask addr_cidr \<noteq> 0 then True else False)"

record ip_addr_cidr_list =
  cidr_num_entries :: nat
  cidr_entries :: "ip_addr_cidr list"

definition zero_cidr :: ip_addr_cidr where
  "zero_cidr = \<lparr>cidr_mask = 0, cidr_addr = 0\<rparr>"

text \<open>
  The loop of \<^verbatim>\<open>ip_addr_cidr_list_create_from_str\<close> over the tokens: \<open>i\<close> is the next entry to
  fill, \<open>Inr None\<close> the return of \<^verbatim>\<open>NULL\<close>.
\<close>

fun cidr_list_fill ::
  "pton \<Rightarrow> string list \<Rightarrow> nat \<Rightarrow> ip_addr_cidr list \<Rightarrow> ip_addr_cidr list option res" where
  "cidr_list_fill pton [] i es = Inr (Some es)"
| "cidr_list_fill pton (token # tokens) i es =
     (if i \<ge> length es then Inl Out_Of_Bounds
      else bind_res (ip_addr_cidr_from_str pton token (es ! i)) (\<lambda>r.
        case r of
          None \<Rightarrow> Inr None
        | Some e \<Rightarrow> cidr_list_fill pton tokens (i + 1) (es[i := e])))"

text \<open>\<open>malloc_ok\<close> and \<open>strdup_ok\<close> say whether the two allocations succeed.\<close>

definition ip_addr_cidr_list_create_from_str ::
  "pton \<Rightarrow> bool \<Rightarrow> bool \<Rightarrow> string \<Rightarrow> ip_addr_cidr_list option res" where
  "ip_addr_cidr_list_create_from_str pton malloc_ok strdup_ok str =
     (let count = 1 + count_list str CHR '','' in
      if \<not> malloc_ok then Inr None
      else if \<not> strdup_ok then Inl Null_Deref
      else bind_res
        (cidr_list_fill pton (strtok_tokens CHR '','' str) 0 (replicate count zero_cidr))
        (\<lambda>r. Inr (map_option (\<lambda>es. \<lparr>cidr_num_entries = count, cidr_entries = es\<rparr>) r)))"

fun cidr_match_from :: "ip_addr_cidr list \<Rightarrow> ip_addr \<Rightarrow> bool" where
  "cidr_match_from [] addr = False"
| "cidr_match_from (e # es) addr =
     (if ip_addr_cidr_match e addr then True else cidr_match_from es addr)"

definition ip_addr_cidr_list_match :: "ip_addr_cidr_list \<Rightarrow> ip_addr \<Rightarrow> bool" where
  "ip_addr_cidr_list_match l addr =
     cidr_match_from (take (cidr_num_entries l) (cidr_entries l)) addr"

section \<open>IPv4-mapped addresses and printing\<close>

text \<open>The constructor \<^verbatim>\<open>ipv4_space_init\<close> fills the static \<^verbatim>\<open>ipv4_space\<close> and asserts success.\<close>

definition ipv4_space_init :: "pton \<Rightarrow> ip_addr_cidr res" where
  "ipv4_space_init pton =
     bind_res (ip_addr_cidr_from_str pton ''0:0:0:0:0:FFFF::/96'' zero_cidr) (\<lambda>r.
       case r of None \<Rightarrow> Inl Assert_Failed | Some c \<Rightarrow> Inr c)"

definition ip_addr_is_ipv4 :: "ip_addr_cidr \<Rightarrow> ip_addr \<Rightarrow> bool" where
  "ip_addr_is_ipv4 ipv4_space addr = ip_addr_cidr_match ipv4_space addr"

text \<open>
  \<open>ntop4\<close> and \<open>ntop6\<close> are \<^verbatim>\<open>inet_ntop\<close> for the two families with the buffer size
  \<^verbatim>\<open>INET6_ADDRSTRLEN\<close>; none is its failure.
\<close>

definition ip_addr_to_str ::
  "ip_addr_cidr \<Rightarrow> (u32 \<Rightarrow> string option) \<Rightarrow> (ip_addr \<Rightarrow> string option) \<Rightarrow> ip_addr \<Rightarrow> string option"
where
  "ip_addr_to_str ipv4_space ntop4 ntop6 addr =
     (if ip_addr_is_ipv4 ipv4_space addr then ntop4 (dword 3 addr) else ntop6 addr)"

text \<open>The IPv4-mapped address \<^verbatim>\<open>::ffff:v4\<close>, as \<^verbatim>\<open>net.c\<close> builds it from the four bytes \<open>v4\<close>.\<close>

definition v4_mapped :: "u32 \<Rightarrow> ip_addr" where
  "v4_mapped v4 = push_bit 80 0xFFFF OR push_bit 96 (ucast v4)"

section \<open>The masks\<close>

lemma bit_mask_to_network [bits]:
  "bit (mask_to_network m) k \<longleftrightarrow> k < 128 \<and> bit m (8 * (15 - k div 8) + k mod 8)"
proof -
  obtain q r where k: "k = 8 * q + r" "r < 8" by (rule byte_split)
  consider "q < 8" | "8 \<le> q" "q < 16" | "16 \<le> q" by linarith
  then show ?thesis
  proof cases
    case 1
    then have "64 + (8 * (7 - q) + r) = 8 * (15 - q) + r" and "8 * (7 - q) + r < 64"
      using k(2) by simp_all
    with 1 k show ?thesis by (simp add: mask_to_network_def Let_def bits add.assoc [symmetric])
  next
    case 2
    then have "(8 * q + r - 64) div 8 = q - 8" and "(8 * q + r - 64) mod 8 = r"
      using k(2) by (simp_all add: div_nat_eqI mod_nat_eqI)
    moreover have "8 * q + r - 64 < 64" and "8 * (15 - q) + r < 64" using 2 k(2) by simp_all
    ultimately show ?thesis using 2 k by (simp add: mask_to_network_def Let_def bits)
  next
    case 3
    with k show ?thesis by (simp add: mask_to_network_def Let_def bits)
  qed
qed

lemma bit_NOT_0_word [simp]: "bit (NOT (0 :: 'a::len word)) k \<longleftrightarrow> k < LENGTH('a)"
  by (simp add: bit_not_iff possible_bit_def)

lemma bit_network_mask:
  assumes "host_mask n = Inr m" and "n \<le> 128"
  shows "bit (mask_to_network m) k \<longleftrightarrow> k < 128 \<and> int (wire_pos k) < n"
proof -
  from assms have n: "0 < n" and m: "m = push_bit (nat (128 - n)) (NOT 0)"
    by (auto simp: host_mask_def split: if_splits)
  obtain q r where k: "k = 8 * q + r" "r < 8" by (rule byte_split)
  show ?thesis
  proof (cases "q < 16")
    case True
    then have "nat (128 - n) \<le> 8 * (15 - q) + r \<longleftrightarrow> int (8 * q + (7 - r)) < n"
      using n assms(2) k(2) by simp linarith
    moreover have "8 * (15 - q) + r < 128" using True k(2) by simp
    ultimately show ?thesis
      using True k by (simp add: bit_mask_to_network m bit_not_iff bit_mask_iff possible_bit_def
          wire_pos_split not_less)
  next
    case False
    with k show ?thesis by (simp add: bit_mask_to_network)
  qed
qed

text \<open>The prefix length that an entry's text asks for: 128 without a slash.\<close>

definition cidr_prefix :: "string \<Rightarrow> int" where
  "cidr_prefix str =
     (case strchr str CHR ''/'' of None \<Rightarrow> 128 | Some i \<Rightarrow> atoi (drop (i + 1) str))"

definition cidr_host :: "string \<Rightarrow> string" where
  "cidr_host str = takeWhile (\<lambda>c. c \<noteq> CHR ''/'') str"

lemma ip_addr_from_str_eq:
  "ip_addr_from_str pton s a = (True, case pton s of None \<Rightarrow> a | Some b \<Rightarrow> b)"
  by (simp add: ip_addr_from_str_def inet_pton6_def split: option.split)

text \<open>Every outcome of \<open>ip_addr_cidr_from_str\<close>, in the order of its tests.\<close>

lemma ip_addr_cidr_from_str_cases:
  "ip_addr_cidr_from_str pton str c =
     (if length str \<ge> 46 then Inl Out_Of_Bounds
      else if cidr_prefix str < 0 \<or> cidr_prefix str > 128 then Inr None
      else if cidr_prefix str = 0 then Inl Shift_Overflow
      else Inr (Some
        \<lparr>cidr_mask = mask_to_network (push_bit (nat (128 - cidr_prefix str)) (NOT 0)),
         cidr_addr = (case pton (cidr_host str) of None \<Rightarrow> cidr_addr c | Some a \<Rightarrow> a)\<rparr>))"
proof (cases "strchr str CHR ''/''")
  case None
  then have "CHR ''/'' \<notin> set str" by simp
  then have "cidr_host str = str" by (simp add: cidr_host_def takeWhile_notin)
  with None show ?thesis
    by (simp add: ip_addr_cidr_from_str_def ip_addr_from_str_eq cidr_prefix_def
        INET6_ADDRSTRLEN_def del: strchr_None_iff)
next
  case (Some i)
  then show ?thesis
    by (auto simp: ip_addr_cidr_from_str_def ip_addr_from_str_eq cidr_prefix_def cidr_host_def
        INET6_ADDRSTRLEN_def host_mask_def take_strchr [OF Some])
qed

lemma cidr_mask_bits:
  assumes "ip_addr_cidr_from_str pton str c = Inr (Some e)"
  shows "0 < cidr_prefix str" and "cidr_prefix str \<le> 128"
    and "bit (cidr_mask e) k \<longleftrightarrow> k < 128 \<and> int (wire_pos k) < cidr_prefix str"
proof -
  from assms show r: "0 < cidr_prefix str" "cidr_prefix str \<le> 128"
    by (auto simp: ip_addr_cidr_from_str_cases split: if_splits)
  from assms r have
    "cidr_mask e = mask_to_network (push_bit (nat (128 - cidr_prefix str)) (NOT 0))"
    by (auto simp: ip_addr_cidr_from_str_cases split: if_splits)
  moreover have "host_mask (cidr_prefix str) =
      Inr (push_bit (nat (128 - cidr_prefix str)) (NOT 0))"
    using r by (simp add: host_mask_def)
  ultimately show "bit (cidr_mask e) k \<longleftrightarrow> k < 128 \<and> int (wire_pos k) < cidr_prefix str"
    using r(2) by (simp add: bit_network_mask)
qed

section \<open>What an entry admits\<close>

lemma ip_addr_cidr_match_iff:
  "ip_addr_cidr_match c a \<longleftrightarrow> (\<exists>k < 128. bit a k \<and> bit (cidr_mask c) k)"
  by (simp add: ip_addr_cidr_match_def word_nonzero_iff_bit bit_and_iff)

lemma ip_addr_cidr_match_parsed:
  assumes "ip_addr_cidr_from_str pton str c = Inr (Some e)"
  shows "ip_addr_cidr_match e a \<longleftrightarrow>
    (\<exists>k < 128. int (wire_pos k) < cidr_prefix str \<and> bit a k)"
  using cidr_mask_bits(3) [OF assms] by (auto simp: ip_addr_cidr_match_iff)

lemma ip_addr_cidr_match_zero [simp]: "\<not> ip_addr_cidr_match zero_cidr a"
  by (simp add: ip_addr_cidr_match_def zero_cidr_def)

text \<open>The meaning of CIDR notation: the first \<open>n\<close> bits are those of the network address.\<close>

definition cidr_contains :: "ip_addr \<Rightarrow> int \<Rightarrow> ip_addr \<Rightarrow> bool" where
  "cidr_contains net n a \<longleftrightarrow>
     (\<forall>k \<in> set [0..<128]. int (wire_pos k) < n \<longrightarrow> bit a k = bit net k)"

section \<open>The allow list\<close>

lemma cidr_list_fill_Some:
  assumes "cidr_list_fill pton ts (length pre) (pre @ replicate m zero_cidr) = Inr (Some es)"
    and "length ts \<le> m"
  shows "\<exists>rs. list_all2 (\<lambda>t r. ip_addr_cidr_from_str pton t zero_cidr = Inr (Some r)) ts rs \<and>
    es = pre @ rs @ replicate (m - length ts) zero_cidr"
  using assms
proof (induction ts arbitrary: pre m)
  case Nil
  then show ?case by simp
next
  case (Cons t ts)
  then obtain m' where m: "m = Suc m'" by (cases m) auto
  with Cons.prems obtain e where e: "ip_addr_cidr_from_str pton t zero_cidr = Inr (Some e)"
    and rec: "cidr_list_fill pton ts (length (pre @ [e]))
        ((pre @ [e]) @ replicate m' zero_cidr) = Inr (Some es)"
    by (auto split: option.splits if_splits simp: nth_append list_update_append)
  from Cons.IH [OF rec] Cons.prems(2) m obtain rs where
    "list_all2 (\<lambda>t r. ip_addr_cidr_from_str pton t zero_cidr = Inr (Some r)) ts rs"
    "es = (pre @ [e]) @ rs @ replicate (m' - length ts) zero_cidr" by auto
  with e m show ?case by (intro exI [of _ "e # rs"]) simp
qed

lemma cidr_list_fill_Inl:
  assumes "cidr_list_fill pton ts (length pre) (pre @ replicate m zero_cidr) = Inl f"
    and "length ts \<le> m"
  shows "\<exists>t \<in> set ts. ip_addr_cidr_from_str pton t zero_cidr = Inl f"
  using assms
proof (induction ts arbitrary: pre m)
  case Nil
  then show ?case by simp
next
  case (Cons t ts)
  then obtain m' where m: "m = Suc m'" by (cases m) auto
  show ?case
  proof (cases "ip_addr_cidr_from_str pton t zero_cidr")
    case (Inl g)
    with Cons.prems m show ?thesis by (simp add: nth_append)
  next
    case (Inr r)
    with Cons.prems m obtain e where "r = Some e"
      and rec: "cidr_list_fill pton ts (length (pre @ [e]))
        ((pre @ [e]) @ replicate m' zero_cidr) = Inl f"
      by (auto split: option.splits if_splits simp: nth_append list_update_append)
    from Cons.IH [OF rec] Cons.prems(2) m show ?thesis by auto
  qed
qed

lemma cidr_match_from_iff: "cidr_match_from es a \<longleftrightarrow> (\<exists>e \<in> set es. ip_addr_cidr_match e a)"
  by (induction es) auto

lemma list_all2_set1: "list_all2 P xs ys \<Longrightarrow> x \<in> set xs \<Longrightarrow> \<exists>y \<in> set ys. P x y"
  by (induction rule: list_all2_induct) auto

lemma list_all2_set2: "list_all2 P xs ys \<Longrightarrow> y \<in> set ys \<Longrightarrow> \<exists>x \<in> set xs. P x y"
  by (induction rule: list_all2_induct) auto

lemma create_from_str_Some:
  assumes "ip_addr_cidr_list_create_from_str pton mok sok str = Inr (Some l)"
  obtains rs where
    "list_all2 (\<lambda>t r. ip_addr_cidr_from_str pton t zero_cidr = Inr (Some r))
       (strtok_tokens CHR '','' str) rs"
    and "cidr_entries l = rs @ replicate (cidr_num_entries l - length rs) zero_cidr"
    and "length rs \<le> cidr_num_entries l"
proof -
  let ?ts = "strtok_tokens CHR '','' str" and ?n = "1 + count_list str CHR '',''"
  from assms have n: "cidr_num_entries l = ?n"
    and fill: "cidr_list_fill pton ?ts (length []) ([] @ replicate ?n zero_cidr)
        = Inr (Some (cidr_entries l))"
    by (auto simp: ip_addr_cidr_list_create_from_str_def Let_def split: if_splits)
  have len: "length ?ts \<le> ?n" using length_strtok_tokens by simp
  from cidr_list_fill_Some [OF fill len] obtain rs where
    rs: "list_all2 (\<lambda>t r. ip_addr_cidr_from_str pton t zero_cidr = Inr (Some r)) ?ts rs"
    and es: "cidr_entries l = rs @ replicate (?n - length ?ts) zero_cidr" by auto
  from rs have "length ?ts = length rs" by (rule list_all2_lengthD)
  with that [OF rs] es len n show thesis by simp
qed

lemma create_from_str_length:
  assumes "ip_addr_cidr_list_create_from_str pton mok sok str = Inr (Some l)"
  shows "length (cidr_entries l) = cidr_num_entries l"
proof -
  from assms obtain rs where
    "cidr_entries l = rs @ replicate (cidr_num_entries l - length rs) zero_cidr"
    "length rs \<le> cidr_num_entries l" by (rule create_from_str_Some)
  then show ?thesis by simp
qed

lemma create_from_str_match:
  assumes "ip_addr_cidr_list_create_from_str pton mok sok str = Inr (Some l)"
  shows "ip_addr_cidr_list_match l a \<longleftrightarrow>
    (\<exists>t \<in> set (strtok_tokens CHR '','' str). \<exists>e.
       ip_addr_cidr_from_str pton t zero_cidr = Inr (Some e) \<and> ip_addr_cidr_match e a)"
proof -
  from assms obtain rs where
    all2: "list_all2 (\<lambda>t r. ip_addr_cidr_from_str pton t zero_cidr = Inr (Some r))
       (strtok_tokens CHR '','' str) rs"
    and es: "cidr_entries l = rs @ replicate (cidr_num_entries l - length rs) zero_cidr"
    and "length rs \<le> cidr_num_entries l" by (rule create_from_str_Some)
  then have "ip_addr_cidr_list_match l a \<longleftrightarrow> (\<exists>e \<in> set rs. ip_addr_cidr_match e a)"
    by (auto simp: ip_addr_cidr_list_match_def cidr_match_from_iff)
  then show ?thesis
    using list_all2_set1 [OF all2] list_all2_set2 [OF all2] by fastforce
qed

lemma create_from_str_prefixes:
  assumes "ip_addr_cidr_list_create_from_str pton mok sok str = Inr (Some l)"
    and "t \<in> set (strtok_tokens CHR '','' str)"
  shows "\<exists>e. ip_addr_cidr_from_str pton t zero_cidr = Inr (Some e)"
proof -
  from assms(1) obtain rs where
    "list_all2 (\<lambda>t r. ip_addr_cidr_from_str pton t zero_cidr = Inr (Some r))
       (strtok_tokens CHR '','' str) rs" by (rule create_from_str_Some)
  from list_all2_set1 [OF this assms(2)] show ?thesis by blast
qed

lemma create_from_str_bits:
  assumes "ip_addr_cidr_list_create_from_str pton mok sok str = Inr (Some l)"
  shows "ip_addr_cidr_list_match l a \<longleftrightarrow>
    (\<exists>t \<in> set (strtok_tokens CHR '','' str).
       \<exists>k < 128. int (wire_pos k) < cidr_prefix t \<and> bit a k)"
  unfolding create_from_str_match [OF assms]
  using create_from_str_prefixes [OF assms] by (meson ip_addr_cidr_match_parsed)

lemma bit_v4_mapped [bits]:
  "bit (v4_mapped w) k \<longleftrightarrow> (80 \<le> k \<and> k < 96) \<or> (96 \<le> k \<and> k < 128 \<and> bit w (k - 96))"
proof -
  have mask: "bit (push_bit 80 (mask 16 :: u128)) k \<longleftrightarrow> 80 \<le> k \<and> k < 96"
    by (simp only: bit_push_bit_iff bit_mask_iff possible_bit_def) auto
  have "v4_mapped w = push_bit 80 (mask 16) OR push_bit 96 (ucast w)"
    by (simp add: v4_mapped_def mask_eq_exp_minus_1)
  moreover have "bit (push_bit 96 (ucast w :: u128)) k \<longleftrightarrow> 96 \<le> k \<and> k < 128 \<and> bit w (k - 96)"
    by (auto simp: bit_push_bit_iff bit_ucast_iff possible_bit_def)
  ultimately show ?thesis by (simp only: bit_or_iff mask)
qed

lemma dword_v4_mapped [simp]: "dword 3 (v4_mapped w) = w"
  by (rule bit_word_eqI) (simp add: bit_dword bit_v4_mapped)

lemma cidr_prefix_ipv4_space: "cidr_prefix ''0:0:0:0:0:FFFF::/96'' = 96"
  by code_simp

lemma ipv4_space_init_bits:
  assumes "ipv4_space_init pton = Inr c"
  shows "bit (cidr_mask c) k \<longleftrightarrow> k < 96"
proof -
  from assms have "ip_addr_cidr_from_str pton ''0:0:0:0:0:FFFF::/96'' zero_cidr = Inr (Some c)"
    by (auto simp: ipv4_space_init_def split: option.splits)
  then have "bit (cidr_mask c) k \<longleftrightarrow> k < 128 \<and> wire_pos k < 96"
    by (simp add: cidr_mask_bits(3) cidr_prefix_ipv4_space)
  moreover have "k < 128 \<and> wire_pos k < 96 \<longleftrightarrow> k < 96"
    using wire_pos_less_bytes [of k 12] by auto
  ultimately show ?thesis by simp
qed

lemma ipv4_space_init_total: "\<exists>c. ipv4_space_init pton = Inr c"
  by (simp add: ipv4_space_init_def ip_addr_cidr_from_str_cases cidr_prefix_ipv4_space)

lemma ip_addr_is_ipv4_iff_bit:
  "ipv4_space_init pton = Inr c \<Longrightarrow> ip_addr_is_ipv4 c a \<longleftrightarrow> (\<exists>k < 96. bit a k)"
  by (simp add: ip_addr_is_ipv4_def ip_addr_cidr_match_iff ipv4_space_init_bits ex_less_restrict)

section \<open>Properties\<close>

text \<open>
  C26. The mask of a parsed entry, in memory, selects exactly the first \<open>n\<close> bits of an address in
  the order they are sent, where \<open>n\<close> is the prefix length of the text (128 without a slash): the
  conversion from the little-endian shift to network order is right.
\<close>

theorem cidr_mask_selects_prefix:
  assumes "ip_addr_cidr_from_str pton str c = Inr (Some e)"
  shows "0 < cidr_prefix str \<and> cidr_prefix str \<le> 128 \<and>
    (\<forall>k. bit (cidr_mask e) k \<longleftrightarrow> k < 128 \<and> int (wire_pos k) < cidr_prefix str)"
  using cidr_mask_bits [OF assms] by blast

theorem cidr_mask_selects_prefix_witness:
  "\<exists>e. ip_addr_cidr_from_str (\<lambda>_. Some 0xFD) ''fd00::/12'' zero_cidr = Inr (Some e) \<and>
     bit (cidr_mask e) 12 \<and> \<not> bit (cidr_mask e) 11"
proof -
  have p: "cidr_prefix ''fd00::/12'' = 12" by code_simp
  then obtain e where e: "ip_addr_cidr_from_str (\<lambda>_. Some 0xFD) ''fd00::/12'' zero_cidr = Inr (Some e)"
    by (simp add: ip_addr_cidr_from_str_cases)
  from cidr_mask_selects_prefix [OF e] e p show ?thesis by (auto simp: wire_pos_def)
qed


text \<open>
  C24. What an allow list admits: the addresses with a bit set among the first \<open>n\<close> of one of its
  tokens, \<open>n\<close> the token's prefix length. The network address of a token has no part in it, and the
  zeroed entries that empty tokens leave at the end admit nothing.
\<close>

theorem allow_list_admits:
  assumes "ip_addr_cidr_list_create_from_str pton malloc_ok strdup_ok str = Inr (Some l)"
  shows "ip_addr_cidr_list_match l a \<longleftrightarrow>
    (\<exists>t \<in> set (strtok_tokens CHR '','' str).
       \<exists>k < 128. int (wire_pos k) < cidr_prefix t \<and> bit a k)"
  by (rule create_from_str_bits [OF assms])

text \<open>The list that \<^verbatim>\<open>allowed_remote_hosts=10.10.10.0/24\<close> gives, as in the README.\<close>

lemma readme_tokens:
  "strtok_tokens CHR '','' ''10.10.10.0/24'' = [''10.10.10.0/24'']"
  "cidr_prefix ''10.10.10.0/24'' = 24"
  by code_simp+

lemma readme_allow_list:
  "\<exists>l. ip_addr_cidr_list_create_from_str (\<lambda>_. None) True True ''10.10.10.0/24'' = Inr (Some l)"
  by (simp add: ip_addr_cidr_list_create_from_str_def readme_tokens ip_addr_cidr_from_str_cases)

theorem allow_list_admits_witness:
  "\<exists>l. ip_addr_cidr_list_create_from_str (\<lambda>_. None) True True ''10.10.10.0/24'' = Inr (Some l) \<and>
     ip_addr_cidr_list_match l 0xB80D0120"
proof -
  obtain l where l:
    "ip_addr_cidr_list_create_from_str (\<lambda>_. None) True True ''10.10.10.0/24'' = Inr (Some l)"
    using readme_allow_list by blast
  have "bit (0xB80D0120 :: u128) 5" by simp
  then have "\<exists>k < 128. int (wire_pos k) < 24 \<and> bit (0xB80D0120 :: u128) k"
    by (intro exI [of _ 5]) (simp add: wire_pos_def)
  with l allow_list_admits [OF l] show ?thesis by (simp add: readme_tokens)
qed

text \<open>
  C25. An allow list whose prefixes are all IPv4-sized (at most 80 bits, so every \<^verbatim>\<open>a.b.c.d/n\<close>)
  admits no IPv4 peer: the socket reports IPv4 peers as \<^verbatim>\<open>::ffff:a.b.c.d\<close>, whose first 80 bits
  are zero.
\<close>

theorem ipv4_prefixes_admit_no_ipv4:
  assumes "ip_addr_cidr_list_create_from_str pton malloc_ok strdup_ok str = Inr (Some l)"
    and "\<forall>t \<in> set (strtok_tokens CHR '','' str). cidr_prefix t \<le> 80"
  shows "\<not> ip_addr_cidr_list_match l (v4_mapped w)"
proof
  assume "ip_addr_cidr_list_match l (v4_mapped w)"
  then obtain t k where "t \<in> set (strtok_tokens CHR '','' str)"
    and "int (wire_pos k) < cidr_prefix t" and "bit (v4_mapped w) k"
    unfolding create_from_str_bits [OF assms(1)] by blast
  with assms(2) have "wire_pos k < 80" and "80 \<le> k"
    by (force simp: bit_v4_mapped)+
  then show False using wire_pos_less_bytes [of k 10] by simp
qed

theorem ipv4_prefixes_admit_no_ipv4_witness:
  "\<exists>l. ip_addr_cidr_list_create_from_str (\<lambda>_. None) True True ''10.10.10.0/24'' = Inr (Some l) \<and>
     \<not> ip_addr_cidr_list_match l (v4_mapped 0x050A0A0A)"
proof -
  obtain l where l:
    "ip_addr_cidr_list_create_from_str (\<lambda>_. None) True True ''10.10.10.0/24'' = Inr (Some l)"
    using readme_allow_list by blast
  from l ipv4_prefixes_admit_no_ipv4 [OF l] show ?thesis by (auto simp: readme_tokens)
qed

text \<open>
  C28. Creating an allow list fills the array of its entries within bounds: it has one entry more
  than the text has commas, every token has one, and the function faults only for the fault of
  one of its tokens (or where \<^verbatim>\<open>strdup\<close> fails).
\<close>

theorem allow_list_create_in_bounds:
  "(case ip_addr_cidr_list_create_from_str pton malloc_ok True str of
      Inl f \<Rightarrow> \<exists>t \<in> set (strtok_tokens CHR '','' str).
                ip_addr_cidr_from_str pton t zero_cidr = Inl f
    | Inr None \<Rightarrow> True
    | Inr (Some l) \<Rightarrow> cidr_num_entries l = 1 + count_list str CHR '','' \<and>
        length (cidr_entries l) = cidr_num_entries l \<and>
        length (strtok_tokens CHR '','' str) \<le> cidr_num_entries l)"
proof (cases "ip_addr_cidr_list_create_from_str pton malloc_ok True str")
  case (Inl f)
  then have "cidr_list_fill pton (strtok_tokens CHR '','' str) (length [])
      ([] @ replicate (1 + count_list str CHR '','') zero_cidr) = Inl f"
    by (auto simp: ip_addr_cidr_list_create_from_str_def Let_def split: if_splits)
  from cidr_list_fill_Inl [OF this] show ?thesis
    using length_strtok_tokens [of "CHR '',''" str] Inl by simp
next
  case (Inr r)
  show ?thesis
  proof (cases r)
    case None
    with Inr show ?thesis by simp
  next
    case (Some l)
    with Inr have c: "ip_addr_cidr_list_create_from_str pton malloc_ok True str = Inr (Some l)"
      by simp
    then have "cidr_num_entries l = 1 + count_list str CHR '',''"
      by (auto simp: ip_addr_cidr_list_create_from_str_def Let_def split: if_splits)
    with c create_from_str_length [OF c] length_strtok_tokens [of "CHR '',''" str]
    show ?thesis by simp
  qed
qed

text \<open>
  C29. \<^verbatim>\<open>ip_addr_is_ipv4\<close> holds of the addresses whose first twelve bytes are not all zero: of
  every IPv4-mapped address, which is printed from its last four bytes, and of every global IPv6
  address as well, which is printed as an IPv4 address, too.
\<close>

theorem ipv4_test_and_printing:
  assumes "ipv4_space_init pton = Inr c"
  shows "(ip_addr_is_ipv4 c a \<longleftrightarrow> take_bit 96 a \<noteq> 0) \<and>
    ip_addr_to_str c ntop4 ntop6 (v4_mapped w) = ntop4 w \<and>
    (take_bit 96 a \<noteq> 0 \<longrightarrow> ip_addr_to_str c ntop4 ntop6 a = ntop4 (dword 3 a))"
proof -
  have "take_bit 96 a \<noteq> 0 \<longleftrightarrow> (\<exists>k < 96. bit a k)"
    by (rule take_bit_word_nonzero_iff) simp
  moreover have "\<exists>k < 96. bit (v4_mapped w) k"
    by (intro exI [of _ 80]) (simp add: bit_v4_mapped)
  ultimately show ?thesis
    by (auto simp: ip_addr_to_str_def ip_addr_is_ipv4_iff_bit [OF assms])
qed

theorem ipv4_test_and_printing_witness:
  "\<exists>c. ipv4_space_init (\<lambda>_. None) = Inr c \<and>
     ip_addr_to_str c (\<lambda>d. Some ''v4'') (\<lambda>a. Some ''v6'') 0xB80D0120 = Some ''v4''"
proof -
  obtain c where c: "ipv4_space_init (\<lambda>_. None) = Inr c"
    using ipv4_space_init_total by blast
  have "take_bit 96 (0xB80D0120 :: u128) \<noteq> 0" by simp
  with c ipv4_test_and_printing [OF c, of "0xB80D0120" "\<lambda>d. Some ''v4''" "\<lambda>a. Some ''v6''" 0]
  show ?thesis by blast
qed

end
