(* ===== verification/Interfaces.thy ===== *)
theory Interfaces
  imports Prelude
begin

text \<open>
  The contracts between components, stated as locales: what the tunnel relies on of the endpoint
  table (\<open>id_table\<close>), what follows for a table whose ids are positions in a list of devices, and
  what the program relies on of a growing array (\<open>append_list\<close>). The component that provides an
  operation interprets the locale on its model.
\<close>

section \<open>A table of ids\<close>

locale id_table =
  fixes inv :: "'m \<Rightarrow> bool"
    and abs :: "'m \<Rightarrow> 'k \<Rightarrow> int option"
    and lookup :: "'m \<Rightarrow> 'k \<Rightarrow> int"
    and stores :: "'m \<Rightarrow> 'k \<Rightarrow> int \<Rightarrow> 'm \<Rightarrow> bool"
    and limit :: int
  assumes lookup_abs: "inv m \<Longrightarrow> lookup m k = (case abs m k of None \<Rightarrow> - 1 | Some v \<Rightarrow> v)"
    and stores_inv: "inv m \<Longrightarrow> stores m k v m' \<Longrightarrow> inv m'"
    and stores_abs: "inv m \<Longrightarrow> stores m k v m' \<Longrightarrow> 0 \<le> v \<Longrightarrow> v < limit \<Longrightarrow>
      abs m' = (abs m)(k \<mapsto> v)"

text \<open>
  The ids of a table name the devices of a list: the id of a key is in range and the device there
  is the key's.
\<close>

definition routes :: "('k \<Rightarrow> int option) \<Rightarrow> 'k list \<Rightarrow> bool" where
  "routes f devs \<longleftrightarrow>
     (\<forall>k v. f k = Some v \<longrightarrow> 0 \<le> v \<and> nat v < length devs \<and> devs ! nat v = k)"

lemma routes_empty [simp]: "routes (\<lambda>k. None) devs"
  by (simp add: routes_def)

lemma routesI:
  "(\<And>k v. f k = Some v \<Longrightarrow> 0 \<le> v \<and> nat v < length devs \<and> devs ! nat v = k) \<Longrightarrow> routes f devs"
  by (auto simp: routes_def)

lemma routesD:
  assumes "routes f devs" "f k = Some v"
  shows "0 \<le> v" "nat v < length devs" "devs ! nat v = k"
  using assms by (auto simp: routes_def)

lemma routes_inj: "routes f devs \<Longrightarrow> f j = Some v \<Longrightarrow> f k = Some v \<Longrightarrow> j = k"
  by (auto simp: routes_def)

lemma routes_append: "routes f devs \<Longrightarrow> routes f (devs @ ds)"
  by (rule routesI) (simp add: nth_append routesD trans_less_add1)

lemma routes_update:
  "routes f devs \<Longrightarrow> routes (f(k \<mapsto> int (length devs))) (devs @ [k])"
  by (rule routesI) (auto simp: nth_append routesD less_SucI split: if_splits)

context id_table
begin

lemma lookup_stored:
  assumes "inv m" "stores m k v m'" "0 \<le> v" "v < limit"
  shows "lookup m' k = v" and "j \<noteq> k \<Longrightarrow> lookup m' j = lookup m j"
  using lookup_abs [OF stores_inv [OF assms(1,2)]] lookup_abs [OF assms(1)] stores_abs [OF assms]
  by simp_all

lemma lookup_neg_iff:
  assumes "inv m" "routes (abs m) devs"
  shows "lookup m k < 0 \<longleftrightarrow> abs m k = None"
  using routesD(1) [OF assms(2)] by (force simp: lookup_abs [OF assms(1)] split: option.splits)

lemma lookup_routes:
  assumes "inv m" "routes (abs m) devs" "\<not> lookup m k < 0"
  shows "nat (lookup m k) < length devs \<and> devs ! nat (lookup m k) = k"
  using assms(2,3) by (auto simp: lookup_abs [OF assms(1)] routes_def split: option.splits)

lemma routes_stored:
  assumes "inv m" "routes (abs m) devs" "stores m k (int (length devs)) m'"
    and "int (length devs) < limit"
  shows "routes (abs m') (devs @ [k])"
  using stores_abs [OF assms(1,3) _ assms(4)] routes_update [OF assms(2)] by simp

end

section \<open>A growing array\<close>

text \<open>
  \<open>view\<close> is the list of the stored elements; \<open>append\<close> may fail for want of memory, and reports it.
\<close>

locale append_list =
  fixes inv :: "'l \<Rightarrow> bool"
    and view :: "'l \<Rightarrow> 'a list"
    and append :: "'l \<Rightarrow> 'a \<Rightarrow> 'l \<Rightarrow> bool"
    and size_of :: "'l \<Rightarrow> nat"
    and get :: "'l \<Rightarrow> int \<Rightarrow> 'a option res"
  assumes append_view: "inv l \<Longrightarrow> append l x l' \<Longrightarrow> inv l' \<and> view l' = view l @ [x]"
    and size_view: "inv l \<Longrightarrow> size_of l = length (view l)"
    and get_view: "inv l \<Longrightarrow>
      get l i = Inr (if 0 \<le> i \<and> nat i < length (view l) then Some (view l ! nat i) else None)"
begin

lemma get_appended:
  assumes "inv l" "append l x l'"
  shows "get l' (int (size_of l)) = Inr (Some x)"
    and "size_of l' = Suc (size_of l)"
    and "i \<noteq> int (size_of l) \<Longrightarrow> get l' i = get l i"
  using append_view [OF assms] size_view [OF assms(1)] size_view [of l'] get_view [OF assms(1)]
    get_view [of l']
  by (auto simp: nth_append)

lemma inv_appended: "inv l \<Longrightarrow> append l x l' \<Longrightarrow> inv l'"
  using append_view by blast

end

end
