(* ===== verification/Endpoint_Map.thy ===== *)
theory Endpoint_Map
  imports Ip_Addr Interfaces
begin

text \<open>
  \<^verbatim>\<open>src/src/endpoint_map.c\<close>: the cuckoo hash table from endpoints (address and port, in network
  order) to TAP ids. The model keeps the table as the array of entries the code has; \<open>em_wf\<close> is
  its invariant, \<open>em_abs\<close> the finite map it stands for. \<^verbatim>\<open>rand()\<close> is a stream of values with a
  position, the allocator a record of its answers.
\<close>

section \<open>Data\<close>

record endpoint_map_entry =
  remote_addr :: ip_addr
  ent_port :: u16
  present :: bool
  ent_tap_id :: "31 word"    \<comment> \<open>a signed 31-bit field\<close>

record endpoint_map =
  num_entries :: nat
  alloc_entries :: nat
  nonce_a :: u32
  nonce_b :: u32
  entries :: "endpoint_map_entry list"

type_synonym endpoint = "ip_addr \<times> u16"

definition entry_key :: "endpoint_map_entry \<Rightarrow> endpoint" where
  "entry_key e = (remote_addr e, ent_port e)"

definition entry_tap :: "endpoint_map_entry \<Rightarrow> int" where
  "entry_tap e = sint (ent_tap_id e)"

definition zero_entry :: endpoint_map_entry where
  "zero_entry = \<lparr>remote_addr = 0, ent_port = 0, present = False, ent_tap_id = 0\<rparr>"

text \<open>The values of \<^verbatim>\<open>rand()\<close>, by the number of calls made before.\<close>

type_synonym rand = "nat \<Rightarrow> u32"

definition endpoint_map_create :: "bool \<Rightarrow> rand \<Rightarrow> nat \<Rightarrow> endpoint_map option" where
  "endpoint_map_create calloc_ok rnd r =
     (if \<not> calloc_ok then None
      else Some \<lparr>num_entries = 0, alloc_entries = 32, nonce_a = rnd r, nonce_b = rnd (r + 1),
                 entries = replicate 32 zero_entry\<rparr>)"

section \<open>Hashing\<close>

definition hash :: "ip_addr \<Rightarrow> u16 \<Rightarrow> u32 \<Rightarrow> u32" where
  "hash addr p nonce = fold (\<lambda>i h. h XOR dword i addr) [0..<4] nonce XOR ucast p"

definition hash_small :: "ip_addr \<Rightarrow> u16 \<Rightarrow> u32 \<Rightarrow> u8" where
  "hash_small addr p nonce =
     fold (\<lambda>i h. h XOR byte_of i addr) [0..<4]
       (byte_of 0 nonce XOR byte_of 1 nonce XOR byte_of 2 nonce XOR byte_of 3 nonce)
     XOR (byte_of 0 p XOR byte_of 1 p)"

text \<open>The table index of a key under a nonce, as all three operations compute it.\<close>

definition table_index :: "nat \<Rightarrow> ip_addr \<Rightarrow> u16 \<Rightarrow> u32 \<Rightarrow> nat" where
  "table_index alloc addr p nonce =
     (if alloc \<le> 256 then unat (hash_small addr p nonce) AND (alloc - 1)
      else unat (hash addr p nonce) AND (alloc - 1))"

definition hash_slots :: "endpoint_map \<Rightarrow> ip_addr \<Rightarrow> u16 \<Rightarrow> nat list" where
  "hash_slots m addr p =
     [table_index (alloc_entries m) addr p (nonce_a m),
      table_index (alloc_entries m) addr p (nonce_b m)]"

section \<open>Insertion\<close>

fun try_slots ::
  "nat list \<Rightarrow> endpoint_map \<Rightarrow> ip_addr \<Rightarrow> u16 \<Rightarrow> int \<Rightarrow> bool \<times> endpoint_map" where
  "try_slots [] m addr p tap_id = (False, m)"
| "try_slots (i # is) m addr p tap_id =
     (let entry = entries m ! i in
      if present entry then
        (if addr = remote_addr entry \<and> ent_port entry = p then
           (True, m\<lparr>entries := (entries m)[i := entry\<lparr>ent_tap_id := word_of_int tap_id\<rparr>]\<rparr>)
         else try_slots is m addr p tap_id)
      else
        (True, m\<lparr>entries := (entries m)[i :=
                   entry\<lparr>remote_addr := addr, ent_port := p, ent_tap_id := word_of_int tap_id,
                         present := True\<rparr>],
                 num_entries := num_entries m + 1\<rparr>))"

definition try_insert :: "endpoint_map \<Rightarrow> ip_addr \<Rightarrow> u16 \<Rightarrow> int \<Rightarrow> bool \<times> endpoint_map" where
  "try_insert m addr p tap_id = try_slots (hash_slots m addr p) m addr p tap_id"

text \<open>The re-insertion of the copied table, up to the first entry that finds no place.\<close>

fun reinsert :: "endpoint_map_entry list \<Rightarrow> endpoint_map \<Rightarrow> bool \<times> endpoint_map" where
  "reinsert [] m = (True, m)"
| "reinsert (e # es) m =
     (if \<not> present e then reinsert es m
      else (case try_insert m (remote_addr e) (ent_port e) (sint (ent_tap_id e)) of
              (ok, m') \<Rightarrow> if ok then reinsert es m' else (False, m')))"

definition reset_table :: "endpoint_map \<Rightarrow> u32 \<Rightarrow> u32 \<Rightarrow> endpoint_map" where
  "reset_table m na nb =
     m\<lparr>entries := replicate (alloc_entries m) zero_entry, num_entries := 0,
       nonce_a := na, nonce_b := nb\<rparr>"

text \<open>One pass of the \<^verbatim>\<open>for(;;)\<close> loop of \<^verbatim>\<open>endpoint_map_add\<close>.\<close>

definition rehash_attempt ::
  "endpoint_map_entry list \<Rightarrow> ip_addr \<Rightarrow> u16 \<Rightarrow> int \<Rightarrow> endpoint_map \<Rightarrow> u32 \<Rightarrow> u32
     \<Rightarrow> bool \<times> endpoint_map" where
  "rehash_attempt table addr p tap_id m na nb =
     (case reinsert table (reset_table m na nb) of
        (ok, m') \<Rightarrow> if \<not> ok then (False, m') else try_insert m' addr p tap_id)"

text \<open>
  The loop itself has no bound in the code, so not returning is a value: \<open>None\<close>. It yields the
  map, the position in the random stream and the number of retries.
\<close>

partial_function (option) rehash_loop ::
  "rand \<Rightarrow> endpoint_map_entry list \<Rightarrow> ip_addr \<Rightarrow> u16 \<Rightarrow> int \<Rightarrow> endpoint_map \<Rightarrow> nat \<Rightarrow> nat
     \<Rightarrow> (endpoint_map \<times> nat \<times> nat) option" where
  "rehash_loop rnd table addr p tap_id m r retries =
     (case rehash_attempt table addr p tap_id m (rnd r) (rnd (r + 1)) of
        (ok, m') \<Rightarrow>
          if ok then Some (m', r + 2, retries)
          else rehash_loop rnd table addr p tap_id m' (r + 2) (retries + 1))"

text \<open>
  What the allocator answers: the contents of the bytes that \<^verbatim>\<open>realloc\<close> appends (none where it
  returns \<^verbatim>\<open>NULL\<close>), whether it moves the block, and whether \<^verbatim>\<open>malloc\<close> succeeds.
\<close>

record alloc_env =
  env_realloc :: "endpoint_map_entry list option"
  env_moves :: bool
  env_malloc_ok :: bool

text \<open>
  The outcome of \<^verbatim>\<open>endpoint_map_add\<close>: whether it returns a pointer or \<^verbatim>\<open>NULL\<close>, the contents of
  the map's block, whether that block is no longer where the argument points, and the position
  in the random stream.
\<close>

record add_result =
  add_nonnull :: bool
  add_map :: endpoint_map
  add_moved :: bool
  add_rand :: nat

definition rebuild ::
  "alloc_env \<Rightarrow> rand \<Rightarrow> nat \<Rightarrow> endpoint_map \<Rightarrow> bool \<Rightarrow> ip_addr \<Rightarrow> u16 \<Rightarrow> int \<Rightarrow> add_result option"
where
  "rebuild env rnd r m moved addr p tap_id =
     (if \<not> env_malloc_ok env then
        Some \<lparr>add_nonnull = False, add_map = m, add_moved = moved, add_rand = r\<rparr>
      else
        (case rehash_loop rnd (take (alloc_entries m) (entries m)) addr p tap_id m r 0 of
           None \<Rightarrow> None
         | Some (m', r', retries) \<Rightarrow>
             Some \<lparr>add_nonnull = True, add_map = m', add_moved = moved, add_rand = r'\<rparr>))"

definition endpoint_map_add ::
  "alloc_env \<Rightarrow> rand \<Rightarrow> nat \<Rightarrow> endpoint_map \<Rightarrow> ip_addr \<Rightarrow> u16 \<Rightarrow> int \<Rightarrow> add_result option"
where
  "endpoint_map_add env rnd r m addr p tap_id =
     (if num_entries m \<ge> alloc_entries m then
        (case env_realloc env of
           None \<Rightarrow>
             Some \<lparr>add_nonnull = False, add_map = m, add_moved = False, add_rand = r\<rparr>
         | Some fresh \<Rightarrow>
             (let new_size = alloc_entries m * 2;
                  m' = m\<lparr>alloc_entries := new_size, entries := entries m @ fresh\<rparr>
              in rebuild env rnd r m' (env_moves env) addr p tap_id))
      else
        (case try_insert m addr p tap_id of
           (ok, m') \<Rightarrow>
             if ok then Some \<lparr>add_nonnull = True, add_map = m', add_moved = False, add_rand = r\<rparr>
             else rebuild env rnd r m' False addr p tap_id))"

section \<open>Lookup and removal\<close>

fun lookup_slots :: "nat list \<Rightarrow> endpoint_map \<Rightarrow> ip_addr \<Rightarrow> u16 \<Rightarrow> int" where
  "lookup_slots [] m addr p = - 1"
| "lookup_slots (i # is) m addr p =
     (let entry = entries m ! i in
      if present entry \<and> (addr = remote_addr entry \<and> ent_port entry = p)
      then sint (ent_tap_id entry)
      else lookup_slots is m addr p)"

definition endpoint_map_lookup :: "endpoint_map \<Rightarrow> ip_addr \<Rightarrow> u16 \<Rightarrow> int" where
  "endpoint_map_lookup m addr p = lookup_slots (hash_slots m addr p) m addr p"

fun remove_slots :: "nat list \<Rightarrow> endpoint_map \<Rightarrow> ip_addr \<Rightarrow> u16 \<Rightarrow> bool \<times> endpoint_map" where
  "remove_slots [] m addr p = (False, m)"
| "remove_slots (i # is) m addr p =
     (let entry = entries m ! i in
      if present entry \<and> (addr = remote_addr entry \<and> ent_port entry = p)
      then (True, m\<lparr>entries := (entries m)[i := entry\<lparr>present := False\<rparr>],
                    num_entries := num_entries m - 1\<rparr>)
      else remove_slots is m addr p)"

definition endpoint_map_remove :: "endpoint_map \<Rightarrow> ip_addr \<Rightarrow> u16 \<Rightarrow> bool \<times> endpoint_map" where
  "endpoint_map_remove m addr p = remove_slots (hash_slots m addr p) m addr p"

section \<open>Invariant and abstraction\<close>

abbreviation slot_a :: "endpoint_map \<Rightarrow> endpoint \<Rightarrow> nat" where
  "slot_a m k \<equiv> table_index (alloc_entries m) (fst k) (snd k) (nonce_a m)"

abbreviation slot_b :: "endpoint_map \<Rightarrow> endpoint \<Rightarrow> nat" where
  "slot_b m k \<equiv> table_index (alloc_entries m) (fst k) (snd k) (nonce_b m)"

text \<open>
  An entry sits in the first slot of its key, or in the second while another key holds the first.
\<close>

definition placed :: "endpoint_map \<Rightarrow> endpoint \<Rightarrow> nat \<Rightarrow> bool" where
  "placed m k i \<longleftrightarrow>
     i = slot_a m k \<or>
     (i = slot_b m k \<and> present (entries m ! slot_a m k) \<and> entry_key (entries m ! slot_a m k) \<noteq> k)"

definition em_wf :: "endpoint_map \<Rightarrow> bool" where
  "em_wf m \<longleftrightarrow>
     (\<exists>k. alloc_entries m = 2 ^ k) \<and>
     length (entries m) = alloc_entries m \<and>
     num_entries m = length (filter present (entries m)) \<and>
     (\<forall>i < alloc_entries m. present (entries m ! i) \<longrightarrow> placed m (entry_key (entries m ! i)) i)"

definition em_abs :: "endpoint_map \<Rightarrow> endpoint \<Rightarrow> int option" where
  "em_abs m k = map_option entry_tap (find (\<lambda>e. present e \<and> entry_key e = k) (entries m))"

section \<open>The index stays in the table and depends on the nonce alone\<close>

lemma table_index_bound: "0 < alloc \<Longrightarrow> table_index alloc addr p nonce < alloc"
  by (simp add: table_index_def and_pred_less)

lemma fold_xor_start:
  "fold (\<lambda>i h. h XOR f i) xs (n :: 'a::len word) = fold (\<lambda>i h. h XOR f i) xs 0 XOR n"
proof (induction xs arbitrary: n)
  case (Cons x xs)
  have "fold (\<lambda>i h. h XOR f i) xs (n XOR f x) = fold (\<lambda>i h. h XOR f i) xs 0 XOR (n XOR f x)"
    by (rule Cons.IH)
  moreover have "fold (\<lambda>i h. h XOR f i) xs (0 XOR f x) = fold (\<lambda>i h. h XOR f i) xs 0 XOR (0 XOR f x)"
    by (rule Cons.IH)
  ultimately show ?case by (simp add: xor.assoc xor.commute)
qed simp

definition nonce_byte :: "u32 \<Rightarrow> u8" where
  "nonce_byte n = byte_of 0 n XOR byte_of 1 n XOR byte_of 2 n XOR byte_of 3 n"

lemma hash_xor: "hash addr p n = hash addr p 0 XOR n"
  unfolding hash_def using fold_xor_start [of "\<lambda>i. dword i addr" "[0..<4]" n]
  by (simp add: xor.assoc xor.commute xor.left_commute)

lemma byte_of_0_word [simp]: "byte_of i 0 = 0"
  by (simp add: byte_of_def)

lemma hash_small_xor: "hash_small addr p n = hash_small addr p 0 XOR nonce_byte n"
  unfolding hash_small_def nonce_byte_def
  using fold_xor_start [of "\<lambda>i. byte_of i addr" "[0..<4]"
      "byte_of 0 n XOR byte_of 1 n XOR byte_of 2 n XOR byte_of 3 n"]
  by (simp add: xor.assoc xor.commute xor.left_commute)

lemma xor_class:
  assumes "unat x AND (2 ^ k - Suc 0) = unat y AND (2 ^ k - Suc 0)"
  shows "unat (x XOR n :: 'a::len word) AND (2 ^ k - Suc 0) = unat (y XOR n) AND (2 ^ k - Suc 0)"
proof -
  from assms have "unat (take_bit k x) = unat (take_bit k y)"
    by (simp add: mask_and_pow2 unsigned_take_bit_eq [symmetric])
  then have "take_bit k x = take_bit k y" by (rule unsigned_word_eqI)
  then have "take_bit k (x XOR n) = take_bit k (y XOR n)"
    by simp
  then show ?thesis by (simp add: mask_and_pow2 unsigned_take_bit_eq [symmetric] del: take_bit_xor)
qed

text \<open>Two keys that share an index under one nonce share it under every nonce.\<close>

definition same_class :: "nat \<Rightarrow> endpoint \<Rightarrow> endpoint \<Rightarrow> bool" where
  "same_class alloc x y \<longleftrightarrow>
     table_index alloc (fst x) (snd x) 0 = table_index alloc (fst y) (snd y) 0"

lemma same_class_index:
  assumes "same_class (2 ^ k) x y"
  shows "table_index (2 ^ k) (fst x) (snd x) n = table_index (2 ^ k) (fst y) (snd y) n"
proof (cases "(2 :: nat) ^ k \<le> 256")
  case True
  then show ?thesis
    using assms xor_class [of "hash_small (fst x) (snd x) 0" k "hash_small (fst y) (snd y) 0"
        "nonce_byte n"]
    by (simp add: same_class_def table_index_def flip: hash_small_xor)
next
  case False
  then show ?thesis
    using assms xor_class [of "hash (fst x) (snd x) 0" k "hash (fst y) (snd y) 0" n]
    by (simp add: same_class_def table_index_def flip: hash_xor)
qed

section \<open>Facts about the invariant\<close>

lemma length_filter_update:
  assumes "i < length xs" and "P x"
  shows "length (filter P (xs[i := x])) = length (filter P xs) + (if P (xs ! i) then 0 else 1)"
  using assms
proof (induction xs arbitrary: i)
  case (Cons y ys)
  then show ?case by (cases i) auto
qed simp

lemma length_filter_remove:
  assumes "i < length xs" and "\<not> P x" and "P (xs ! i)"
  shows "Suc (length (filter P (xs[i := x]))) = length (filter P xs)"
  using assms
proof (induction xs arbitrary: i)
  case (Cons y ys)
  then show ?case by (cases i) auto
qed simp

lemma find_eq_None: "find P xs = None \<longleftrightarrow> (\<forall>x \<in> set xs. \<not> P x)"
  by (induction xs) auto

lemma em_wfD:
  assumes "em_wf m"
  shows "0 < alloc_entries m" and "length (entries m) = alloc_entries m"
    and "num_entries m = length (filter present (entries m))"
    and "i < alloc_entries m \<Longrightarrow> present (entries m ! i) \<Longrightarrow>
      placed m (entry_key (entries m ! i)) i"
  using assms by (auto simp: em_wf_def)

lemma em_wf_pow2: "em_wf m \<Longrightarrow> \<exists>k. alloc_entries m = 2 ^ k"
  by (simp add: em_wf_def)

lemma slot_bounds:
  assumes "em_wf m"
  shows "slot_a m k < alloc_entries m" and "slot_b m k < alloc_entries m"
  using assms by (simp_all add: table_index_bound em_wfD)

lemma em_wf_slots:
  assumes "em_wf m" "i < alloc_entries m" "present (entries m ! i)" "entry_key (entries m ! i) = k"
  shows "i = slot_a m k \<or>
    (i = slot_b m k \<and> present (entries m ! slot_a m k) \<and> entry_key (entries m ! slot_a m k) \<noteq> k)"
  using em_wfD(4) [OF assms(1-3)] assms(4) by (simp add: placed_def)

lemma em_wf_unique:
  assumes "em_wf m" "i < alloc_entries m" "present (entries m ! i)"
    "j < alloc_entries m" "present (entries m ! j)"
    "entry_key (entries m ! i) = entry_key (entries m ! j)"
  shows "i = j"
  using em_wf_slots [OF assms(1-3) assms(6)] em_wf_slots [OF assms(1,4,5) refl] assms(6) by metis

lemma em_abs_SomeI:
  assumes "em_wf m" "i < alloc_entries m" "present (entries m ! i)" "entry_key (entries m ! i) = k"
  shows "em_abs m k = Some (entry_tap (entries m ! i))"
proof (cases "find (\<lambda>e. present e \<and> entry_key e = k) (entries m)")
  case None
  with assms show ?thesis by (auto simp: find_eq_None em_wfD(2) all_set_conv_all_nth)
next
  case (Some e)
  then obtain j where j: "j < length (entries m)" "present (entries m ! j)"
    "entry_key (entries m ! j) = k" "e = entries m ! j" by (auto simp: find_Some_iff)
  with assms have "j = i" by (auto simp: em_wfD(2) intro: em_wf_unique)
  with Some j show ?thesis by (simp add: em_abs_def)
qed

lemma em_abs_SomeD:
  assumes "em_wf m" "em_abs m k = Some v"
  shows "\<exists>i < alloc_entries m. present (entries m ! i) \<and> entry_key (entries m ! i) = k \<and>
    v = entry_tap (entries m ! i)"
  using assms by (auto simp: em_abs_def find_Some_iff em_wfD(2))

lemma em_abs_None_iff:
  assumes "em_wf m"
  shows "em_abs m k = None \<longleftrightarrow>
    (\<forall>i < alloc_entries m. present (entries m ! i) \<longrightarrow> entry_key (entries m ! i) \<noteq> k)"
  using assms by (auto simp: em_abs_def find_eq_None all_set_conv_all_nth em_wfD(2))

text \<open>Storing an entry of key \<open>k\<close> where the code stores one keeps the invariant.\<close>

lemma em_put:
  assumes wf: "em_wf m" and i: "i < alloc_entries m"
    and e: "present e" "entry_key e = k"
    and pl: "placed m k i"
    and old: "present (entries m ! i) \<Longrightarrow> entry_key (entries m ! i) = k"
    and new: "\<not> present (entries m ! i) \<Longrightarrow> em_abs m k = None"
    and m': "m' = m\<lparr>entries := (entries m)[i := e],
      num_entries := num_entries m + (if present (entries m ! i) then 0 else 1)\<rparr>"
  shows "em_wf m'" and "em_abs m' = (em_abs m)(k \<mapsto> entry_tap e)"
proof -
  note D = em_wfD [OF wf]
  have nth: "entries m' ! j = (if j = i then e else entries m ! j)" if "j < alloc_entries m" for j
    using that i by (simp add: m' D(2) nth_list_update)
  have alloc: "alloc_entries m' = alloc_entries m" and slots: "slot_a m' x = slot_a m x"
    "slot_b m' x = slot_b m x" for x by (simp_all add: m')
  have pl': "placed m' x j" if "placed m x j" "j < alloc_entries m" for x j
    using that slot_bounds [OF wf, of x] e old
    by (auto simp: placed_def slots nth)
  show wf': "em_wf m'"
    unfolding em_wf_def
  proof (intro conjI allI impI)
    show "\<exists>k. alloc_entries m' = 2 ^ k" using em_wf_pow2 [OF wf] by (simp add: alloc)
    show "length (entries m') = alloc_entries m'" using D(2) by (simp add: m')
    show "num_entries m' = length (filter present (entries m'))"
      using length_filter_update [of i "entries m" present e] i e D(2,3) by (simp add: m')
    fix j assume j: "j < alloc_entries m'" and p: "present (entries m' ! j)"
    show "placed m' (entry_key (entries m' ! j)) j"
      using j p pl' pl D(4) [of j] e by (cases "j = i") (auto simp: nth alloc)
  qed
  show "em_abs m' = (em_abs m)(k \<mapsto> entry_tap e)"
  proof
    fix x
    show "em_abs m' x = ((em_abs m)(k \<mapsto> entry_tap e)) x"
    proof (cases "x = k")
      case True
      with em_abs_SomeI [OF wf', of i k] i e show ?thesis by (simp add: nth alloc)
    next
      case False
      show ?thesis
      proof (cases "em_abs m x")
        case None
        with False e have "em_abs m' x = None"
          by (simp add: em_abs_None_iff [OF wf] em_abs_None_iff [OF wf'] nth alloc)
        with None False show ?thesis by simp
      next
        case (Some v)
        with em_abs_SomeD [OF wf] obtain j where j: "j < alloc_entries m"
          "present (entries m ! j)" "entry_key (entries m ! j) = x" "v = entry_tap (entries m ! j)"
          by blast
        with False old e have "j \<noteq> i" by auto
        with j em_abs_SomeI [OF wf', of j x] Some False show ?thesis by (simp add: nth alloc)
      qed
    qed
  qed
qed

section \<open>Lookup\<close>

text \<open>A slot holds the key.\<close>

abbreviation holds :: "endpoint_map \<Rightarrow> endpoint \<Rightarrow> nat \<Rightarrow> bool" where
  "holds m k i \<equiv> present (entries m ! i) \<and> entry_key (entries m ! i) = k"

lemma lookup_slots_eq:
  "endpoint_map_lookup m addr p =
     (if holds m (addr, p) (slot_a m (addr, p)) then entry_tap (entries m ! slot_a m (addr, p))
      else if holds m (addr, p) (slot_b m (addr, p)) then entry_tap (entries m ! slot_b m (addr, p))
      else - 1)"
  by (auto simp: endpoint_map_lookup_def hash_slots_def Let_def entry_key_def entry_tap_def)

lemma lookup_correct:
  assumes wf: "em_wf m"
  shows "endpoint_map_lookup m addr p = (case em_abs m (addr, p) of None \<Rightarrow> - 1 | Some v \<Rightarrow> v)"
proof -
  let ?k = "(addr, p)"
  let ?hit = "\<lambda>i. present (entries m ! i) \<and> entry_key (entries m ! i) = ?k"
  note * = lookup_slots_eq [of m addr p]
  show ?thesis
  proof (cases "em_abs m ?k")
    case None
    then have "\<not> ?hit i" if "i < alloc_entries m" for i
      using that by (simp add: em_abs_None_iff [OF wf])
    with None show ?thesis
      using slot_bounds [OF wf, of ?k] unfolding * by auto
  next
    case (Some v)
    then obtain i where i: "i < alloc_entries m" "?hit i" "v = entry_tap (entries m ! i)"
      using em_abs_SomeD [OF wf] by blast
    have same: "j = i" if "?hit j" "j < alloc_entries m" for j
      using em_wf_unique [OF wf that(2) _ i(1)] that i by auto
    from i em_wf_slots [OF wf i(1), of ?k] consider "i = slot_a m ?k" | "i = slot_b m ?k" by blast
    then show ?thesis
    proof cases
      case 1
      with i(2) have "?hit (slot_a m ?k)" by simp
      with 1 i(3) Some show ?thesis unfolding * by simp
    next
      case 2
      with i(2) have b: "?hit (slot_b m ?k)" by simp
      show ?thesis
      proof (cases "?hit (slot_a m ?k)")
        case True
        with same slot_bounds(1) [OF wf] have "slot_a m ?k = i" by blast
        with True i(3) Some show ?thesis unfolding * by simp
      next
        case False
        with b 2 i(3) Some show ?thesis unfolding * by auto
      qed
    qed
  qed
qed

section \<open>Insertion\<close>

lemma try_insert_cases:
  assumes wf: "em_wf m"
  obtains
    (put) i e where "try_insert m addr p v = (True, m\<lparr>entries := (entries m)[i := e],
        num_entries := num_entries m + (if present (entries m ! i) then 0 else 1)\<rparr>)"
      "i < alloc_entries m" "present e" "entry_key e = (addr, p)"
      "entry_tap e = sint (word_of_int v :: 31 word)" "placed m (addr, p) i"
      "present (entries m ! i) \<Longrightarrow> entry_key (entries m ! i) = (addr, p)"
      "\<not> present (entries m ! i) \<Longrightarrow> em_abs m (addr, p) = None"
  | (full) "try_insert m addr p v = (False, m)" "em_abs m (addr, p) = None"
      "present (entries m ! slot_a m (addr, p))" "present (entries m ! slot_b m (addr, p))"
      "entry_key (entries m ! slot_a m (addr, p)) \<noteq> (addr, p)"
      "entry_key (entries m ! slot_b m (addr, p)) \<noteq> (addr, p)"
proof -
  let ?k = "(addr, p)" and ?a = "slot_a m (addr, p)" and ?b = "slot_b m (addr, p)"
  note bounds = slot_bounds [OF wf, of ?k]
  have free: "em_abs m ?k = None"
    if "\<forall>i \<in> {?a, ?b}. present (entries m ! i) \<longrightarrow> entry_key (entries m ! i) \<noteq> ?k"
    using that em_wf_slots [OF wf _ _ refl] by (fastforce simp: em_abs_None_iff [OF wf])
  have free_a: "em_abs m ?k = None" if "\<not> present (entries m ! ?a)"
    using that em_wf_slots [OF wf, of _ ?k] by (fastforce simp: em_abs_None_iff [OF wf])
  consider "\<not> present (entries m ! ?a)"
    | "present (entries m ! ?a)" "entry_key (entries m ! ?a) = ?k"
    | "present (entries m ! ?a)" "entry_key (entries m ! ?a) \<noteq> ?k" "\<not> present (entries m ! ?b)"
    | "present (entries m ! ?a)" "entry_key (entries m ! ?a) \<noteq> ?k"
      "present (entries m ! ?b)" "entry_key (entries m ! ?b) = ?k"
    | "present (entries m ! ?a)" "entry_key (entries m ! ?a) \<noteq> ?k"
      "present (entries m ! ?b)" "entry_key (entries m ! ?b) \<noteq> ?k" by blast
  then show thesis
  proof cases
    case 1
    then show thesis
      using bounds free_a
      by (intro put [of ?a "(entries m ! ?a)\<lparr>remote_addr := addr, ent_port := p,
            ent_tap_id := word_of_int v, present := True\<rparr>"])
        (auto simp: try_insert_def hash_slots_def Let_def entry_key_def entry_tap_def placed_def)
  next
    case 2
    then show thesis
      using bounds
      by (intro put [of ?a "(entries m ! ?a)\<lparr>ent_tap_id := word_of_int v\<rparr>"])
        (auto simp: try_insert_def hash_slots_def Let_def entry_key_def entry_tap_def placed_def)
  next
    case 3
    then show thesis
      using bounds free
      by (intro put [of ?b "(entries m ! ?b)\<lparr>remote_addr := addr, ent_port := p,
            ent_tap_id := word_of_int v, present := True\<rparr>"])
        (auto simp: try_insert_def hash_slots_def Let_def entry_key_def entry_tap_def placed_def)
  next
    case 4
    then show thesis
      using bounds
      by (intro put [of ?b "(entries m ! ?b)\<lparr>ent_tap_id := word_of_int v\<rparr>"])
        (auto simp: try_insert_def hash_slots_def Let_def entry_key_def entry_tap_def placed_def)
  next
    case 5
    then show thesis
      using free
      by (intro full) (auto simp: try_insert_def hash_slots_def Let_def entry_key_def)
  qed
qed

text \<open>What a stored id reads back as: the code stores it in a signed field of 31 bits.\<close>

abbreviation stored_id :: "int \<Rightarrow> int" where
  "stored_id v \<equiv> sint (word_of_int v :: 31 word)"

lemma stored_id_id [simp]: "- (2 ^ 30) \<le> v \<Longrightarrow> v < 2 ^ 30 \<Longrightarrow> stored_id v = v"
  by (simp add: signed_of_int signed_take_bit_int_eq_self)

lemma try_insert_ok:
  assumes wf: "em_wf m" and ok: "try_insert m addr p v = (True, m')"
  shows "em_wf m'" and "em_abs m' = (em_abs m)((addr, p) \<mapsto> stored_id v)"
    and "alloc_entries m' = alloc_entries m" and "nonce_a m' = nonce_a m"
    and "nonce_b m' = nonce_b m"
proof -
  from wf show "em_wf m'"
  proof (cases rule: try_insert_cases [of m addr p v])
    case (put i e)
    with ok show ?thesis by (intro em_put(1) [OF wf put(2-4,6-8)]) auto
  qed (use ok in auto)
  from wf show "em_abs m' = (em_abs m)((addr, p) \<mapsto> stored_id v)"
  proof (cases rule: try_insert_cases [of m addr p v])
    case (put i e)
    with ok em_put(2) [OF wf put(2-4,6-8) refl] show ?thesis by auto
  qed (use ok in auto)
  from wf show "alloc_entries m' = alloc_entries m" "nonce_a m' = nonce_a m" "nonce_b m' = nonce_b m"
    by (cases rule: try_insert_cases [of m addr p v]; use ok in auto)+
qed

lemma try_insert_full:
  assumes wf: "em_wf m" and "try_insert m addr p v = (False, m')"
  shows "m' = m" and "em_abs m (addr, p) = None"
  using wf by (cases rule: try_insert_cases [of m addr p v]; use assms in auto)+

section \<open>Rehashing\<close>

lemma stored_id_entry [simp]: "stored_id (sint (w :: 31 word)) = sint w"
  by simp

lemma reset_table_wf:
  assumes "alloc_entries m = 2 ^ k"
  shows "em_wf (reset_table m na nb)" and "em_abs (reset_table m na nb) = Map.empty"
proof -
  have none: "\<not> present (replicate n zero_entry ! i)" if "i < n" for i n
    using that by (simp add: zero_entry_def)
  show "em_wf (reset_table m na nb)"
    using assms none by (auto simp: em_wf_def reset_table_def zero_entry_def)
  show "em_abs (reset_table m na nb) = Map.empty"
    by (rule ext) (auto simp: em_abs_def reset_table_def find_eq_None zero_entry_def)
qed

lemma reset_table_alloc [simp]: "alloc_entries (reset_table m na nb) = alloc_entries m"
  by (simp add: reset_table_def)

text \<open>The table read as a map, later entries first: what re-inserting it in order gives.\<close>

definition table_map :: "endpoint_map_entry list \<Rightarrow> endpoint \<Rightarrow> int option" where
  "table_map es = map_of (rev (map (\<lambda>e. (entry_key e, entry_tap e)) (filter present es)))"

lemma table_map_Cons:
  "f ++ table_map (e # es) =
     (if present e then f(entry_key e \<mapsto> entry_tap e) else f) ++ table_map es"
  by (rule ext) (auto simp: table_map_def map_add_def split: option.splits)

lemma reinsert_ok:
  assumes "em_wf m" and "reinsert es m = (True, m')"
  shows "em_wf m' \<and> em_abs m' = em_abs m ++ table_map es \<and> alloc_entries m' = alloc_entries m"
  using assms
proof (induction es arbitrary: m)
  case Nil
  then show ?case by (simp add: table_map_def)
next
  case (Cons e es)
  show ?case
  proof (cases "present e")
    case False
    with Cons.prems Cons.IH [of m] show ?thesis by (simp add: table_map_Cons)
  next
    case True
    obtain ok m1 where m1: "try_insert m (remote_addr e) (ent_port e) (sint (ent_tap_id e)) = (ok, m1)"
      by (cases "try_insert m (remote_addr e) (ent_port e) (sint (ent_tap_id e))") auto
    with Cons.prems True have ok and rec: "reinsert es m1 = (True, m')"
      by (auto split: if_splits)
    with m1 have m1: "try_insert m (remote_addr e) (ent_port e) (sint (ent_tap_id e)) = (True, m1)"
      by simp
    note ins = try_insert_ok [OF Cons.prems(1) m1]
    from Cons.IH [OF ins(1) rec] ins(2,3) True show ?thesis
      by (simp add: table_map_Cons entry_key_def entry_tap_def fun_upd_def)
  qed
qed

lemma reinsert_alloc:
  "em_wf m \<Longrightarrow> alloc_entries (snd (reinsert es m)) = alloc_entries m"
proof (induction es arbitrary: m)
  case (Cons e es)
  obtain ok m1 where m1: "try_insert m (remote_addr e) (ent_port e) (sint (ent_tap_id e)) = (ok, m1)"
    by (cases "try_insert m (remote_addr e) (ent_port e) (sint (ent_tap_id e))") auto
  show ?case
  proof (cases ok)
    case True
    with m1 have t: "try_insert m (remote_addr e) (ent_port e) (sint (ent_tap_id e)) = (True, m1)"
      by simp
    from Cons.IH [OF try_insert_ok(1) [OF Cons.prems t]] Cons.IH [OF Cons.prems]
      try_insert_ok(3) [OF Cons.prems t] m1 True
    show ?thesis by simp
  next
    case False
    with m1 try_insert_full(1) [OF Cons.prems, of "remote_addr e" "ent_port e" "sint (ent_tap_id e)" m1]
      Cons.IH [OF Cons.prems] show ?thesis by auto
  qed
qed simp

lemma rehash_attempt_ok:
  assumes "alloc_entries m = 2 ^ k" and "rehash_attempt table addr p v m na nb = (True, m')"
  shows "em_wf m'" and "em_abs m' = (table_map table)((addr, p) \<mapsto> stored_id v)"
    and "alloc_entries m' = alloc_entries m"
proof -
  obtain m1 where re: "reinsert table (reset_table m na nb) = (True, m1)"
    and ins: "try_insert m1 addr p v = (True, m')"
    using assms(2) by (auto simp: rehash_attempt_def split: prod.splits if_splits)
  note reset = reset_table_wf [OF assms(1), of na nb]
  from reinsert_ok [OF reset(1) re] reset(2)
  have m1: "em_wf m1" "em_abs m1 = table_map table" "alloc_entries m1 = alloc_entries m" by auto
  from try_insert_ok [OF m1(1) ins] m1
  show "em_wf m'" "em_abs m' = (table_map table)((addr, p) \<mapsto> stored_id v)"
    "alloc_entries m' = alloc_entries m" by auto
qed

lemma rehash_attempt_alloc:
  assumes "alloc_entries m = 2 ^ k"
  shows "alloc_entries (snd (rehash_attempt table addr p v m na nb)) = alloc_entries m"
proof -
  note wf = reset_table_wf(1) [OF assms, of na nb]
  obtain ok m1 where re: "reinsert table (reset_table m na nb) = (ok, m1)" by fastforce
  from reinsert_alloc [OF wf, of table] re have m1: "alloc_entries m1 = alloc_entries m" by simp
  show ?thesis
  proof (cases ok)
    case True
    with re have "reinsert table (reset_table m na nb) = (True, m1)" by simp
    with reinsert_ok [OF wf] have "em_wf m1" by blast
    obtain ok' m2 where m2: "try_insert m1 addr p v = (ok', m2)" by fastforce
    with try_insert_ok(3) [OF \<open>em_wf m1\<close>, of addr p v m2]
      try_insert_full(1) [OF \<open>em_wf m1\<close>, of addr p v m2]
    have "alloc_entries m2 = alloc_entries m1" by (cases ok') auto
    with re m1 m2 True show ?thesis by (simp add: rehash_attempt_def)
  qed (use re m1 in \<open>simp add: rehash_attempt_def\<close>)
qed

lemma reset_table_cong:
  "alloc_entries m = alloc_entries m' \<Longrightarrow> reset_table m na nb = reset_table m' na nb"
  by (cases m; cases m') (simp add: reset_table_def)

lemma rehash_attempt_cong:
  "alloc_entries m = alloc_entries m' \<Longrightarrow>
     rehash_attempt table addr p v m na nb = rehash_attempt table addr p v m' na nb"
  using reset_table_cong [of m m' na nb] by (simp add: rehash_attempt_def)

text \<open>The loop returns only from a successful pass.\<close>

lemma rehash_loop_returns:
  assumes "rehash_loop rnd table addr p v m r retries = Some (m', r', n)"
    and "alloc_entries m = 2 ^ k"
  shows "\<exists>j. rehash_attempt table addr p v m (rnd (r + 2 * j)) (rnd (r + 2 * j + 1)) = (True, m')"
proof -
  let ?P = "\<lambda>rnd table addr p v m r retries (res :: endpoint_map \<times> nat \<times> nat).
    alloc_entries m = 2 ^ k \<longrightarrow>
    (\<exists>j. rehash_attempt table addr p v m (rnd (r + 2 * j)) (rnd (r + 2 * j + 1)) = (True, fst res))"
  have "?P rnd table addr p v m r retries (m', r', n)"
  proof (rule rehash_loop.raw_induct [of ?P, OF _ assms(1)])
    fix loop :: "rand \<Rightarrow> endpoint_map_entry list \<Rightarrow> ip_addr \<Rightarrow> u16 \<Rightarrow> int \<Rightarrow> endpoint_map
        \<Rightarrow> nat \<Rightarrow> nat \<Rightarrow> (endpoint_map \<times> nat \<times> nat) option"
    fix rnd table addr p v m r retries res
    assume IH: "\<And>rnd table addr p v m r retries res.
        loop rnd table addr p v m r retries = Some res \<Longrightarrow>
        ?P rnd table addr p v m r retries res"
      and step: "(case rehash_attempt table addr p v m (rnd r) (rnd (r + 1)) of
        (ok, m') \<Rightarrow> if ok then Some (m', r + 2, retries)
          else loop rnd table addr p v m' (r + 2) (retries + 1)) = Some res"
    obtain ok m1 where a: "rehash_attempt table addr p v m (rnd r) (rnd (r + 1)) = (ok, m1)"
      by fastforce
    show "?P rnd table addr p v m r retries res"
    proof (intro impI)
      assume pow: "alloc_entries m = 2 ^ k"
      show "\<exists>j. rehash_attempt table addr p v m (rnd (r + 2 * j)) (rnd (r + 2 * j + 1))
        = (True, fst res)"
      proof (cases ok)
        case True
        with a step show ?thesis by (intro exI [of _ 0]) auto
      next
        case False
        from rehash_attempt_alloc [OF pow, of table addr p v "rnd r" "rnd (r + 1)"] a
        have al: "alloc_entries m1 = alloc_entries m" by simp
        from False a step have "loop rnd table addr p v m1 (r + 2) (retries + 1) = Some res" by simp
        from IH [OF this] al pow obtain j where
          "rehash_attempt table addr p v m1 (rnd (r + 2 + 2 * j)) (rnd (r + 2 + 2 * j + 1))
            = (True, fst res)" by auto
        then show ?thesis
          using rehash_attempt_cong [OF al] by (intro exI [of _ "Suc j"]) simp
      qed
    qed
  qed
  with assms(2) show ?thesis by simp
qed

text \<open>And it does return where some later pass succeeds.\<close>

lemma rehash_loop_terminates:
  assumes "alloc_entries m = 2 ^ k"
    and "fst (rehash_attempt table addr p v m (rnd (r + 2 * j)) (rnd (r + 2 * j + 1)))"
  shows "\<exists>res. rehash_loop rnd table addr p v m r retries = Some res"
  using assms
proof (induction j arbitrary: m r retries)
  case 0
  then show ?case
    by (subst rehash_loop.simps) (auto split: prod.splits)
next
  case (Suc j)
  obtain ok m1 where a: "rehash_attempt table addr p v m (rnd r) (rnd (r + 1)) = (ok, m1)"
    by fastforce
  from rehash_attempt_alloc [OF Suc.prems(1), of table addr p v "rnd r" "rnd (r + 1)"] a
  have al: "alloc_entries m1 = alloc_entries m" by simp
  have "fst (rehash_attempt table addr p v m1 (rnd (r + 2 + 2 * j)) (rnd (r + 2 + 2 * j + 1)))"
    using Suc.prems(2) rehash_attempt_cong [OF al] by simp
  from Suc.IH [OF _ this] al Suc.prems(1) a show ?case
    by (subst rehash_loop.simps) auto
qed

section \<open>What \<open>endpoint_map_add\<close> does to the map\<close>

lemma table_map_entries:
  assumes "em_wf m"
  shows "table_map (take (alloc_entries m) (entries m)) = em_abs m"
proof -
  have fn: "x = y" if "x \<in> set (entries m)" "y \<in> set (entries m)" "present x" "present y"
    "entry_key x = entry_key y" for x y
    using that em_wf_unique [OF assms] em_wfD(2) [OF assms] by (metis in_set_conv_nth)
  have "table_map (entries m) k = em_abs m k" for k
  proof (cases "em_abs m k")
    case None
    then have "\<forall>e \<in> set (entries m). present e \<longrightarrow> entry_key e \<noteq> k"
      by (auto simp: em_abs_def find_eq_None)
    then have "table_map (entries m) k = None"
      by (auto simp: table_map_def map_of_eq_None_iff)
    with None show ?thesis by simp
  next
    case (Some v)
    then obtain e where e: "e \<in> set (entries m)" "present e" "entry_key e = k" "v = entry_tap e"
      by (auto simp: em_abs_def find_Some_iff) (metis nth_mem)
    obtain w where w: "table_map (entries m) k = Some w"
      using e by (cases "table_map (entries m) k")
        (auto simp: table_map_def map_of_eq_None_iff image_iff)
    then obtain e' where "e' \<in> set (entries m)" "present e'" "entry_key e' = k" "w = entry_tap e'"
      unfolding table_map_def by (auto dest!: map_of_SomeD)
    with fn [of e e'] e w Some show ?thesis by simp
  qed
  then show ?thesis using em_wfD(2) [OF assms] by (intro ext) simp
qed

text \<open>
  The table that a call re-inserts, if it does: the old entries, and in the growing branch the
  bytes that \<^verbatim>\<open>realloc\<close> appended, too, because \<^verbatim>\<open>old_alloc\<close> is read after the update.
\<close>

definition grown :: "endpoint_map \<Rightarrow> endpoint_map_entry list \<Rightarrow> endpoint_map" where
  "grown m fresh = m\<lparr>alloc_entries := alloc_entries m * 2, entries := entries m @ fresh\<rparr>"

lemma table_map_append: "table_map (es @ fs) = table_map es ++ table_map fs"
  by (simp add: table_map_def)

lemma table_map_none: "\<forall>e \<in> set es. \<not> present e \<Longrightarrow> table_map es = Map.empty"
  by (simp add: table_map_def filter_empty_conv [THEN iffD2])

lemma rebuild_ok:
  assumes "rebuild env rnd r m moved addr p v = Some res" and "add_nonnull res"
    and "alloc_entries m = 2 ^ k"
  shows "em_wf (add_map res)"
    and "em_abs (add_map res) =
      (table_map (take (alloc_entries m) (entries m)))((addr, p) \<mapsto> stored_id v)"
    and "alloc_entries (add_map res) = alloc_entries m" and "add_moved res = moved"
proof -
  from assms(1,2) obtain m' r' n where
    loop: "rehash_loop rnd (take (alloc_entries m) (entries m)) addr p v m r 0 = Some (m', r', n)"
    and res: "res = \<lparr>add_nonnull = True, add_map = m', add_moved = moved, add_rand = r'\<rparr>"
    by (auto simp: rebuild_def split: if_splits option.splits prod.splits)
  from rehash_loop_returns [OF loop assms(3)] obtain j where
    "rehash_attempt (take (alloc_entries m) (entries m)) addr p v m
       (rnd (r + 2 * j)) (rnd (r + 2 * j + 1)) = (True, m')" by blast
  from rehash_attempt_ok [OF assms(3) this] res
  show "em_wf (add_map res)" "em_abs (add_map res) =
      (table_map (take (alloc_entries m) (entries m)))((addr, p) \<mapsto> stored_id v)"
    "alloc_entries (add_map res) = alloc_entries m" "add_moved res = moved" by simp_all
qed

lemma endpoint_map_add_ok:
  assumes wf: "em_wf m" and add: "endpoint_map_add env rnd r m addr p v = Some res"
    and ok: "add_nonnull res"
    and fresh: "\<And>fresh. env_realloc env = Some fresh \<Longrightarrow> length fresh = alloc_entries m"
  shows "em_wf (add_map res)" (is ?wf)
    and "em_abs (add_map res) =
      (if num_entries m < alloc_entries m then em_abs m
       else em_abs m ++ table_map (the (env_realloc env)))((addr, p) \<mapsto> stored_id v)" (is ?abs)
    and "num_entries m < alloc_entries m \<Longrightarrow> \<not> add_moved res" (is "_ \<Longrightarrow> ?same")
proof -
  obtain k where k: "alloc_entries m = 2 ^ k" using em_wf_pow2 [OF wf] by blast
  have "?wf \<and> ?abs \<and> (num_entries m < alloc_entries m \<longrightarrow> ?same)"
  proof (cases "num_entries m < alloc_entries m")
    case True
    obtain t m1 where ins: "try_insert m addr p v = (t, m1)" by fastforce
    show ?thesis
    proof (cases t)
      case t: True
      with True ins add have "res = \<lparr>add_nonnull = True, add_map = m1, add_moved = False, add_rand = r\<rparr>"
        by (simp add: endpoint_map_add_def)
      with try_insert_ok [OF wf] ins t True show ?thesis by auto
    next
      case t: False
      with ins have "try_insert m addr p v = (False, m1)" by simp
      then have "m1 = m" by (rule try_insert_full(1) [OF wf])
      with True ins t add have "rebuild env rnd r m False addr p v = Some res"
        by (simp add: endpoint_map_add_def)
      from rebuild_ok [OF this ok k] True show ?thesis by (simp add: table_map_entries [OF wf])
    qed
  next
    case False
    with add ok obtain f where f: "env_realloc env = Some f"
      and re: "rebuild env rnd r (grown m f) (env_moves env) addr p v = Some res"
      by (auto simp: endpoint_map_add_def grown_def split: option.splits)
    have "alloc_entries (grown m f) = 2 ^ Suc k" by (simp add: grown_def k)
    from rebuild_ok [OF re ok this] False f fresh [OF f] em_wfD(2) [OF wf]
      table_map_entries [OF wf]
    show ?thesis by (simp add: grown_def table_map_append)
  qed
  then show ?wf ?abs "num_entries m < alloc_entries m \<Longrightarrow> ?same" by blast+
qed

section \<open>The map as a table of ids\<close>

text \<open>The bytes that \<^verbatim>\<open>realloc\<close> appends hold no entry: what the code relies on without asking for it.\<close>

definition fresh_clean :: "alloc_env \<Rightarrow> endpoint_map \<Rightarrow> bool" where
  "fresh_clean env m \<longleftrightarrow>
     (case env_realloc env of
        None \<Rightarrow> True
      | Some fresh \<Rightarrow> length fresh = alloc_entries m \<and> list_all (\<lambda>e. \<not> present e) fresh)"

definition em_stores :: "endpoint_map \<Rightarrow> endpoint \<Rightarrow> int \<Rightarrow> endpoint_map \<Rightarrow> bool" where
  "em_stores m k v m' \<longleftrightarrow>
     (\<exists>env rnd r res. fresh_clean env m \<and>
        endpoint_map_add env rnd r m (fst k) (snd k) v = Some res \<and>
        add_nonnull res \<and> add_map res = m')"

lemma endpoint_map_add_clean:
  assumes wf: "em_wf m" and clean: "fresh_clean env m"
    and add: "endpoint_map_add env rnd r m addr p v = Some res" and ok: "add_nonnull res"
  shows "em_wf (add_map res)" and "em_abs (add_map res) = (em_abs m)((addr, p) \<mapsto> stored_id v)"
proof -
  have len: "length fresh = alloc_entries m" if "env_realloc env = Some fresh" for fresh
    using clean that by (simp add: fresh_clean_def)
  note a = endpoint_map_add_ok [OF wf add ok len]
  from a(1) show "em_wf (add_map res)" .
  show "em_abs (add_map res) = (em_abs m)((addr, p) \<mapsto> stored_id v)"
  proof (cases "num_entries m < alloc_entries m")
    case False
    with add ok obtain f where f: "env_realloc env = Some f"
      by (auto simp: endpoint_map_add_def split: option.splits)
    with clean have "table_map f = Map.empty"
      by (intro table_map_none) (simp add: fresh_clean_def list_all_iff)
    with a(2) f False show ?thesis by simp
  qed (use a(2) in simp)
qed

interpretation em: id_table em_wf em_abs "\<lambda>m k. endpoint_map_lookup m (fst k) (snd k)"
  em_stores "2 ^ 30"
proof unfold_locales
  fix m and k :: endpoint assume "em_wf m"
  then show "endpoint_map_lookup m (fst k) (snd k) =
      (case em_abs m k of None \<Rightarrow> - 1 | Some v \<Rightarrow> v)"
    by (simp add: lookup_correct)
next
  fix m m' and k :: endpoint and v assume "em_wf m" "em_stores m k v m'"
  then show "em_wf m'" by (auto simp: em_stores_def dest: endpoint_map_add_clean(1))
next
  fix m m' and k :: endpoint and v :: int
  assume "em_wf m" "em_stores m k v m'" "0 \<le> v" "v < 2 ^ 30"
  then show "em_abs m' = (em_abs m)(k \<mapsto> v)"
    by (auto simp: em_stores_def dest: endpoint_map_add_clean(2))
qed

section \<open>Keys that no nonce separates\<close>

lemma em_abs_slot:
  assumes "em_wf m" "em_abs m k = Some v"
  shows "\<exists>i \<in> {slot_a m k, slot_b m k}. i < alloc_entries m \<and> present (entries m ! i) \<and>
    entry_key (entries m ! i) = k"
  using em_abs_SomeD [OF assms] em_wf_slots [OF assms(1)] by blast

lemma three_in_class:
  assumes wf: "em_wf m"
    and dom: "x \<in> dom (em_abs m)" "y \<in> dom (em_abs m)" "z \<in> dom (em_abs m)"
    and cls: "same_class (alloc_entries m) x y" "same_class (alloc_entries m) x z"
    and ne: "x \<noteq> y" "x \<noteq> z"
  shows "y = z"
proof -
  obtain k where k: "alloc_entries m = 2 ^ k" using em_wf_pow2 [OF wf] by blast
  have ab: "slot_a m y = slot_a m x" "slot_b m y = slot_b m x"
    "slot_a m z = slot_a m x" "slot_b m z = slot_b m x"
    using cls same_class_index unfolding k by metis+
  have slot: "\<exists>i \<in> {slot_a m w, slot_b m w}. entry_key (entries m ! i) = w"
    if "w \<in> dom (em_abs m)" for w
    using that em_abs_slot [OF wf, of w] by blast
  obtain i where i: "i \<in> {slot_a m x, slot_b m x}" "entry_key (entries m ! i) = x"
    using slot [OF dom(1)] by blast
  obtain j where j: "j \<in> {slot_a m x, slot_b m x}" "entry_key (entries m ! j) = y"
    using slot [OF dom(2)] unfolding ab by blast
  obtain l where l: "l \<in> {slot_a m x, slot_b m x}" "entry_key (entries m ! l) = z"
    using slot [OF dom(3)] unfolding ab by blast
  from i j ne have "i \<noteq> j" by auto
  moreover from i l ne have "i \<noteq> l" by auto
  ultimately have "j = l" using i j l by auto
  with j l show ?thesis by simp
qed

lemma add_third_of_class_diverges:
  assumes wf: "em_wf m"
    and dom: "x \<in> dom (em_abs m)" "y \<in> dom (em_abs m)"
    and ne: "x \<noteq> y" "x \<noteq> (addr, p)" "y \<noteq> (addr, p)"
    and env: "env_malloc_ok env" "env_realloc env = Some fresh" "length fresh = alloc_entries m"
    and cls: "\<And>n. n \<in> {alloc_entries m, alloc_entries m * 2} \<Longrightarrow>
      same_class n x y \<and> same_class n x (addr, p)"
  shows "endpoint_map_add env rnd r m addr p v = None"
proof (cases "endpoint_map_add env rnd r m addr p v")
  case (Some res)
  have moved: "add_nonnull res"
  proof -
    have "add_nonnull res" if "rebuild env rnd r m' b addr p v = Some res" for m' b
      using that env(1) by (auto simp: rebuild_def split: option.splits)
    with Some env(2) show ?thesis
      by (auto simp: endpoint_map_add_def Let_def split: if_splits option.splits prod.splits)
  qed
  have len: "length f = alloc_entries m" if "env_realloc env = Some f" for f
    using that env by simp
  note a = endpoint_map_add_ok [OF wf Some moved len]
  have sub: "dom (em_abs m) \<union> {(addr, p)} \<subseteq> dom (em_abs (add_map res))"
    using a(2) by auto
  have al: "alloc_entries (add_map res) \<in> {alloc_entries m, alloc_entries m * 2}"
  proof -
    obtain k where k: "alloc_entries m = 2 ^ k" using em_wf_pow2 [OF wf] by blast
    have re: "alloc_entries (add_map res) = alloc_entries m'"
      if "rebuild env rnd r m' b addr p v = Some res" "alloc_entries m' = 2 ^ j" for m' b j
      using rebuild_ok(3) [OF that(1) moved that(2)] .
    show ?thesis
    proof (cases "num_entries m < alloc_entries m")
      case True
      obtain t m1 where ins: "try_insert m addr p v = (t, m1)" by fastforce
      show ?thesis
      proof (cases t)
        case t: True
        with True ins Some try_insert_ok(3) [OF wf] show ?thesis
          by (auto simp: endpoint_map_add_def)
      next
        case t: False
        with ins have "try_insert m addr p v = (False, m1)" by simp
        then have "m1 = m" by (rule try_insert_full(1) [OF wf])
        with True ins t Some re [of m False k] k show ?thesis
          by (auto simp: endpoint_map_add_def)
      qed
    next
      case False
      with Some env(2) have "rebuild env rnd r (grown m fresh) (env_moves env) addr p v = Some res"
        by (simp add: endpoint_map_add_def grown_def)
      from re [OF this, of "Suc k"] k show ?thesis by (simp add: grown_def)
    qed
  qed
  from three_in_class [OF a(1), of x y "(addr, p)"] dom sub cls [OF al] ne show ?thesis
    by blast
qed

end
