(* ===== verification/Kernel.thy ===== *)
theory Kernel
  imports Ip_Addr
begin

text \<open>
  The operating system as the program sees it: its calls with their arguments, the replies, and a
  kernel that answers a call from the history of all calls before it. The kernel is a parameter of
  every definition that makes a call; what the program relies on of it (\<open>fresh_fds\<close>) is a
  hypothesis. \<open>open_fds\<close> reads off a history which descriptors are open.
\<close>

section \<open>Calls and replies\<close>

text \<open>The \<^verbatim>\<open>ioctl\<close> requests with the fields of \<^verbatim>\<open>struct ifreq\<close> they pass; the first is the name.\<close>

datatype ioctl_req =
    TUNSETIFF string
  | SIOCGIFINDEX string
  | SIOCGIFADDR string
  | SIOCGIFMTU string
  | SIOCSIFMTU string int
  | SIOCGIFFLAGS string
  | SIOCSIFFLAGS string int
  | SIOCBRADDBR string
  | SIOCBRADDIF string int

datatype call =
    Sys_fopen string
  | Sys_open string
  | Sys_socket int
  | Sys_close int
  | Sys_ioctl int ioctl_req
  | Sys_fcntl_getfl int
  | Sys_fcntl_setfl int int
  | Sys_setsockopt_reuseport int
  | Sys_bind int ip_addr u16
  | Sys_getaddrinfo string
  | Sys_epoll_create1
  | Sys_epoll_add int int u64
  | Sys_epoll_mod int int u64
  | Sys_sendto int "u8 list" ip_addr u16
  | Sys_write int "u8 list"
  | Sys_time
  | Sys_nprocessors
  | Sys_alloc
  | Sys_thread_create
  | Sys_thread_cancel int
  | Sys_thread_join int
  | Sys_system string

text \<open>An entry of the list that \<^verbatim>\<open>getaddrinfo\<close> returns, with its address read in either format.\<close>

record addrinfo =
  ai_family :: int
  ai_sin_addr :: u32
  ai_sin6_addr :: ip_addr

text \<open>
  \<open>ret\<close> is the value returned, \<open>errno\<close> the error number of a negative one, \<open>r_out\<close> the integer an
  \<^verbatim>\<open>ioctl\<close> reads, \<open>r_family\<close> and \<open>r_addr4\<close> the address it reads, \<open>r_contents\<close> the file opened.
  For \<open>Sys_alloc\<close> a negative \<open>ret\<close> is a null pointer; for \<open>Sys_thread_create\<close> \<open>r_out\<close> is the thread.
\<close>

record reply =
  ret :: int
  errno :: int
  r_out :: int
  r_family :: int
  r_addr4 :: u32
  r_contents :: string
  r_addrs :: "addrinfo list"

type_synonym history = "(call \<times> reply) list"
type_synonym kernel = "history \<Rightarrow> call \<Rightarrow> reply"

definition AF_INET :: int where "AF_INET = 2"
definition AF_INET6 :: int where "AF_INET6 = 10"
definition ENODEV :: int where "ENODEV = 19"
definition IFNAMSIZ :: nat where "IFNAMSIZ = 16"

definition sys :: "kernel \<Rightarrow> call \<Rightarrow> history \<Rightarrow> reply \<times> history" where
  "sys K c h = (K h c, h @ [(c, K h c)])"

text \<open>A call whose reply the code does not look at.\<close>

definition sys0 :: "kernel \<Rightarrow> call \<Rightarrow> history \<Rightarrow> history" where
  "sys0 K c h = snd (sys K c h)"

section \<open>Open descriptors\<close>

fun opens_fd :: "call \<Rightarrow> bool" where
  "opens_fd (Sys_open p) = True"
| "opens_fd (Sys_socket f) = True"
| "opens_fd Sys_epoll_create1 = True"
| "opens_fd _ = False"

fun closes_fd :: "call \<Rightarrow> int option" where
  "closes_fd (Sys_close fd) = Some fd"
| "closes_fd _ = None"

definition fd_step :: "call \<times> reply \<Rightarrow> int set \<Rightarrow> int set" where
  "fd_step e fds =
     (if opens_fd (fst e) then (if ret (snd e) < 0 then fds else insert (ret (snd e)) fds)
      else (case closes_fd (fst e) of Some fd \<Rightarrow> fds - {fd} | None \<Rightarrow> fds))"

definition open_fds :: "history \<Rightarrow> int set" where
  "open_fds h = fold fd_step h {}"

text \<open>
  POSIX: a call that creates a descriptor returns one that is not open. Descriptors 0, 1 and 2 are
  open in every process that the program's start leaves as it was.
\<close>

definition fresh_fds :: "kernel \<Rightarrow> bool" where
  "fresh_fds K \<longleftrightarrow>
     (\<forall>h c. opens_fd c \<longrightarrow> 0 \<le> ret (K h c) \<longrightarrow> 0 < ret (K h c) \<and> ret (K h c) \<notin> open_fds h)"

named_theorems fds \<open>what calls and operations do to the open descriptors\<close>

lemma open_fds_Nil [fds]: "open_fds [] = {}"
  by (simp add: open_fds_def)

lemma open_fds_append [fds]: "open_fds (h @ es) = fold fd_step es (open_fds h)"
  by (simp add: open_fds_def)

lemma sys_fds [fds]: "open_fds (snd (sys K c h)) = fd_step (c, fst (sys K c h)) (open_fds h)"
  by (simp add: sys_def fds)

lemma sys0_fds [fds]: "open_fds (sys0 K c h) = fd_step (c, K h c) (open_fds h)"
  by (simp add: sys0_def sys_def fds)

lemma fd_step_other [fds]: "\<not> opens_fd c \<Longrightarrow> closes_fd c = None \<Longrightarrow> fd_step (c, r) A = A"
  by (simp add: fd_step_def)

lemma fd_step_close [fds]: "fd_step (Sys_close fd, r) A = A - {fd}"
  by (simp add: fd_step_def)

lemma fd_step_open [fds]: "opens_fd c \<Longrightarrow> 0 \<le> ret r \<Longrightarrow> fd_step (c, r) A = insert (ret r) A"
  by (simp add: fd_step_def)

lemma fd_step_failed [fds]: "opens_fd c \<Longrightarrow> ret r < 0 \<Longrightarrow> fd_step (c, r) A = A"
  by (simp add: fd_step_def)

lemma fresh_fdsD:
  assumes "fresh_fds K" "opens_fd c" "0 \<le> ret (K h c)"
  shows "0 < ret (K h c)" "ret (K h c) \<notin> open_fds h"
  using assms by (auto simp: fresh_fds_def)

lemma open_fds_nonneg: "fd \<in> open_fds h \<Longrightarrow> 0 \<le> fd"
  by (induction h rule: rev_induct) (auto simp: fds fd_step_def split: if_splits option.splits)

text \<open>A call that neither opens nor closes, made and its reply looked at.\<close>

lemma sys_other:
  assumes "sys K c h = (r, h')"
  shows "r = K h c" and "h' = h @ [(c, r)]"
    and "\<not> opens_fd c \<Longrightarrow> closes_fd c = None \<Longrightarrow> open_fds h' = open_fds h"
  using assms by (auto simp: sys_def fds)

section \<open>Threads\<close>

text \<open>
  The threads that were created and not yet joined: \<^verbatim>\<open>pthread_cancel\<close> and \<^verbatim>\<open>pthread_join\<close> are
  undefined for any other. A joined thread leaves nothing that its identifier could lead to.
\<close>

fun thread_step :: "call \<times> reply \<Rightarrow> int set \<Rightarrow> int set" where
  "thread_step (Sys_thread_create, r) ts = (if ret r = 0 then insert (r_out r) ts else ts)"
| "thread_step (Sys_thread_join w, r) ts = ts - {w}"
| "thread_step _ ts = ts"

definition live_threads :: "history \<Rightarrow> int set" where
  "live_threads h = fold thread_step h {}"

lemma live_threads_append: "live_threads (h @ es) = fold thread_step es (live_threads h)"
  by (simp add: live_threads_def)

text \<open>A loop of \<^verbatim>\<open>pthread_cancel\<close> or \<^verbatim>\<open>pthread_join\<close>.\<close>

fun for_threads :: "kernel \<Rightarrow> (int \<Rightarrow> call) \<Rightarrow> int list \<Rightarrow> history \<Rightarrow> history res" where
  "for_threads K mk [] h = Inr h"
| "for_threads K mk (w # ws) h =
     (if w \<notin> live_threads h then Inl Use_After_Free else for_threads K mk ws (sys0 K (mk w) h))"

lemma cancel_threads:
  "set ws \<subseteq> live_threads h \<Longrightarrow>
     \<exists>h'. for_threads K Sys_thread_cancel ws h = Inr h' \<and> live_threads h' = live_threads h \<and>
       open_fds h' = open_fds h"
proof (induction ws arbitrary: h)
  case (Cons w ws)
  have "live_threads (sys0 K (Sys_thread_cancel w) h) = live_threads h"
    by (simp add: sys0_def sys_def live_threads_append)
  with Cons.IH [of "sys0 K (Sys_thread_cancel w) h"] Cons.prems show ?case by (simp add: fds)
qed simp

lemma join_threads:
  "set ws \<subseteq> live_threads h \<Longrightarrow> distinct ws \<Longrightarrow>
     \<exists>h'. for_threads K Sys_thread_join ws h = Inr h' \<and> live_threads h' = live_threads h - set ws \<and>
       open_fds h' = open_fds h"
proof (induction ws arbitrary: h)
  case (Cons w ws)
  have l: "live_threads (sys0 K (Sys_thread_join w) h) = live_threads h - {w}"
    by (simp add: sys0_def sys_def live_threads_append)
  then have "set ws \<subseteq> live_threads (sys0 K (Sys_thread_join w) h)" using Cons.prems by auto
  with Cons.IH [of "sys0 K (Sys_thread_join w) h"] Cons.prems l show ?case by (auto simp: fds)
qed simp

section \<open>Traffic\<close>

text \<open>The calls that move frames, with their replies, in order.\<close>

fun is_traffic :: "call \<Rightarrow> bool" where
  "is_traffic (Sys_sendto fd buf addr p) = True"
| "is_traffic (Sys_write fd buf) = True"
| "is_traffic _ = False"

definition traffic :: "history \<Rightarrow> history" where
  "traffic h = filter (\<lambda>e. is_traffic (fst e)) h"

named_theorems quiet \<open>operations that move no frames\<close>

lemma traffic_append: "traffic (h @ es) = traffic h @ filter (\<lambda>e. is_traffic (fst e)) es"
  by (simp add: traffic_def)

lemma sys_quiet [quiet]: "sys K c h = (r, h') \<Longrightarrow> \<not> is_traffic c \<Longrightarrow> traffic h' = traffic h"
  by (auto simp: sys_def traffic_append)

lemma sys0_quiet [quiet]: "\<not> is_traffic c \<Longrightarrow> traffic (sys0 K c h) = traffic h"
  by (simp add: sys0_def sys_def traffic_append)

section \<open>Closing a list of descriptors\<close>

text \<open>The loop \<^verbatim>\<open>if (fds[j] > 0) close(fds[j])\<close>.\<close>

fun close_positive :: "kernel \<Rightarrow> int list \<Rightarrow> history \<Rightarrow> history" where
  "close_positive K [] h = h"
| "close_positive K (fd # fds) h =
     (if fd > 0 then close_positive K fds (sys0 K (Sys_close fd) h) else close_positive K fds h)"

lemma close_positive_fds [fds]:
  "open_fds (close_positive K fds h) = open_fds h - {fd \<in> set fds. fd > 0}"
  by (induction K fds h rule: close_positive.induct) (auto simp: fds)

lemma close_positive_quiet [quiet]: "traffic (close_positive K fds h) = traffic h"
  by (induction K fds h rule: close_positive.induct) (simp_all add: quiet)

section \<open>A kernel\<close>

text \<open>
  A kernel under which every call succeeds, for concrete runs: it gives the least descriptor above
  all open ones, and the flags, index and size \<open>v\<close>.
\<close>

definition reply_ok :: reply where
  "reply_ok = \<lparr>ret = 0, errno = 0, r_out = 1500, r_family = AF_INET, r_addr4 = 0x0100007F,
               r_contents = [], r_addrs = []\<rparr>"

definition opened :: "history \<Rightarrow> int" where
  "opened h = fold (\<lambda>e m. if opens_fd (fst e) then max m (ret (snd e)) else m) h 2"

definition kind_kernel :: kernel where
  "kind_kernel h c = (if opens_fd c then reply_ok\<lparr>ret := opened h + 1\<rparr> else reply_ok)"

lemma opened_snoc:
  "opened (h @ [e]) = (if opens_fd (fst e) then max (opened h) (ret (snd e)) else opened h)"
  by (simp add: opened_def)

lemma open_fds_le_opened: "fd \<in> open_fds h \<Longrightarrow> fd \<le> opened h"
  by (induction h rule: rev_induct)
    (auto simp: fds opened_snoc fd_step_def split: if_splits option.splits)

lemma opened_ge: "2 \<le> opened h"
  by (induction h rule: rev_induct) (auto simp: opened_snoc, simp add: opened_def)

text \<open>A kernel that gives the same descriptors, whatever else it answers.\<close>

lemma fresh_fdsI:
  assumes "\<And>h c. opens_fd c \<Longrightarrow> ret (K h c) = opened h + 1 \<or> ret (K h c) < 0"
  shows "fresh_fds K"
  unfolding fresh_fds_def
proof (intro allI impI)
  fix h c assume "opens_fd c" "0 \<le> ret (K h c)"
  with assms [of c h] have "ret (K h c) = opened h + 1" by linarith
  with opened_ge [of h] open_fds_le_opened [of _ h]
  show "0 < ret (K h c) \<and> ret (K h c) \<notin> open_fds h" by force
qed

lemma fresh_kind_kernel: "fresh_fds kind_kernel"
  by (rule fresh_fdsI) (simp add: kind_kernel_def)

end
