(* ===== verification/Net.thy ===== *)
theory Net
  imports Kernel C_String
begin

text \<open>
  \<^verbatim>\<open>src/src/net.c\<close>: the creation of the queues of a TAP device, of the UDP sockets, the resolution of
  a host name and the non-blocking mode. Every operation threads the history of system calls; a
  descriptor array is a list. The properties account for the descriptors on success and failure,
  and say that the name chosen for a new device is free.
\<close>

section \<open>Naming a TAP device\<close>

definition highest_step :: "string \<Rightarrow> string \<Rightarrow> int \<Rightarrow> int" where
  "highest_step dev buf highest_tap_num =
     (let line = cstr buf in
      case strstr line dev of
        None \<Rightarrow> highest_tap_num
      | Some i \<Rightarrow>
          (let tap_num = atoi (drop (i + length dev) line)
           in if tap_num > highest_tap_num then tap_num else highest_tap_num))"

text \<open>The loop over \<^verbatim>\<open>/proc/net/dev\<close>, read 255 characters of a line at a time.\<close>

definition highest_tap :: "string \<Rightarrow> string \<Rightarrow> int" where
  "highest_tap dev text = fold (highest_step dev) (fgets_lines 255 text) (- 1)"

section \<open>Creating a TAP device\<close>

fun open_queues ::
  "kernel \<Rightarrow> string \<Rightarrow> int list \<Rightarrow> nat \<Rightarrow> nat \<Rightarrow> history \<Rightarrow> bool \<times> int list \<times> nat \<times> history"
where
  "open_queues K tap_name fds i 0 h = (True, fds, i, h)"
| "open_queues K tap_name fds i (Suc n) h =
     (let (tun, h) = sys K (Sys_open ''/dev/net/tun'') h in
      if ret tun < 0 then (False, fds, i, h)
      else
        (let (r, h) = sys K (Sys_ioctl (ret tun) (TUNSETIFF tap_name)) h in
         if ret r < 0 then (False, fds, i, sys0 K (Sys_close (ret tun)) h)
         else open_queues K tap_name (fds[i := ret tun]) (i + 1) n h))"

text \<open>\<^verbatim>\<open>IFF_UP | IFF_RUNNING\<close>\<close>

definition up_running :: int where
  "up_running = 0x41"

definition set_up :: "kernel \<Rightarrow> int \<Rightarrow> string \<Rightarrow> history \<Rightarrow> bool \<times> history" where
  "set_up K ctl_fd name h =
     (let (r, h) = sys K (Sys_ioctl ctl_fd (SIOCGIFFLAGS name)) h in
      if ret r < 0 then (False, h)
      else
        (let (r', h) = sys K (Sys_ioctl ctl_fd (SIOCSIFFLAGS name (r_out r OR up_running))) h
         in (\<not> ret r' < 0, h)))"

text \<open>The bridge is looked up, and created and set up if there is none.\<close>

definition find_bridge :: "kernel \<Rightarrow> int \<Rightarrow> string \<Rightarrow> history \<Rightarrow> bool \<times> history" where
  "find_bridge K ctl_fd br h =
     (let (r, h) = sys K (Sys_ioctl ctl_fd (SIOCGIFINDEX br)) h in
      if \<not> ret r < 0 then (True, h)
      else if errno r \<noteq> ENODEV then (False, h)
      else
        (let (r, h) = sys K (Sys_ioctl ctl_fd (SIOCBRADDBR br)) h in
         if ret r < 0 then (False, h) else set_up K ctl_fd br h))"

definition join_bridge :: "kernel \<Rightarrow> int \<Rightarrow> int \<Rightarrow> string \<Rightarrow> history \<Rightarrow> bool \<times> history" where
  "join_bridge K ctl_fd tap_index bridge h =
     (let br = take (IFNAMSIZ - 1) bridge;
          (ok, h) = find_bridge K ctl_fd br h in
      if \<not> ok then (False, h)
      else
        (let (r, h) = sys K (Sys_ioctl ctl_fd (SIOCGIFMTU br)) h in
         if ret r < 0 then (False, h)
         else
           (let (r, h) = sys K (Sys_ioctl ctl_fd (SIOCBRADDIF br tap_index)) h
            in (\<not> ret r < 0, h))))"

definition configure_tap ::
  "kernel \<Rightarrow> int \<Rightarrow> string \<Rightarrow> int \<Rightarrow> string option \<Rightarrow> history \<Rightarrow> bool \<times> history"
where
  "configure_tap K ctl_fd tap_name mtu bridge h =
     (let name = strlcpy (IFNAMSIZ - 1) tap_name;
          (r, h) = sys K (Sys_ioctl ctl_fd (SIOCGIFINDEX name)) h in
      if ret r < 0 then (False, h)
      else
        (let tap_index = r_out r;
             (ok, h) = (if mtu > 0 then
                          (let (r, h) = sys K (Sys_ioctl ctl_fd (SIOCSIFMTU name mtu)) h
                           in (\<not> ret r < 0, h))
                        else (True, h)) in
         if \<not> ok then (False, h)
         else
           (let (ok, h) = (case bridge of
                             Some br \<Rightarrow> join_bridge K ctl_fd tap_index br h
                           | None \<Rightarrow> (True, h)) in
            if \<not> ok then (False, h) else set_up K ctl_fd name h)))"

text \<open>The block around \<^verbatim>\<open>ctl_fd\<close>, which is closed on every way out if it is positive.\<close>

definition with_ctl ::
  "kernel \<Rightarrow> string \<Rightarrow> int \<Rightarrow> string option \<Rightarrow> history \<Rightarrow> bool \<times> history"
where
  "with_ctl K tap_name mtu bridge h =
     (let (ctl, h) = sys K (Sys_socket AF_INET) h in
      if ret ctl < 0 then (False, h)
      else
        (let (ok, h) = configure_tap K (ret ctl) tap_name mtu bridge h
         in (ok, close_positive K [ret ctl] h)))"

text \<open>
  The whole function: whether it succeeds, the descriptors, and the name written to
  \<^verbatim>\<open>tap_dev_resolved\<close>, which holds \<open>resolved\<close> before. No base name is a null pointer.
\<close>

definition net_create_tap_mq_fds ::
  "kernel \<Rightarrow> string option \<Rightarrow> nat \<Rightarrow> int \<Rightarrow> string option \<Rightarrow> string \<Rightarrow> history \<Rightarrow>
     ((bool \<times> int list \<times> string) \<times> history) res"
where
  "net_create_tap_mq_fds K base_tap_dev queues mtu bridge resolved h =
     (let dev = (case base_tap_dev of Some d \<Rightarrow> d | None \<Rightarrow> ''tap'');
          (fp, h) = sys K (Sys_fopen ''/proc/net/dev'') h;
          highest_tap_num = (if ret fp < 0 then - 1 else highest_tap dev (r_contents fp));
          fds = replicate queues 0 in
      if highest_tap_num = 2 ^ 31 - 1 then Inl Signed_Overflow
      else
        (let printed = dev @ show_int (highest_tap_num + 1) in
         if length printed \<ge> IFNAMSIZ then Inr ((False, fds, resolved), h)
         else
           (let tap_name = printed;
                (ok, fds, i, h) = open_queues K tap_name fds 0 queues h;
                (ok, h) = (if ok then with_ctl K tap_name mtu bridge h else (False, h)) in
            if ok then Inr ((True, fds, tap_name), h)
            else Inr ((False, fds, tap_name), close_positive K (take i fds) h))))"

section \<open>Creating the UDP sockets\<close>

definition htons_int :: "int \<Rightarrow> u16" where
  "htons_int port = htons (word_of_int port)"

fun open_udp ::
  "kernel \<Rightarrow> ip_addr \<Rightarrow> u16 \<Rightarrow> int list \<Rightarrow> nat \<Rightarrow> nat \<Rightarrow> history \<Rightarrow> bool \<times> int list \<times> history"
where
  "open_udp K addr port fds i 0 h = (True, fds, h)"
| "open_udp K addr port fds i (Suc n) h =
     (let (s, h) = sys K (Sys_socket AF_INET6) h in
      if ret s < 0 then (False, fds, sys0 K (Sys_close (ret s)) h)
      else
        (let (r, h) = sys K (Sys_setsockopt_reuseport (ret s)) h in
         if ret r < 0 then (False, fds, sys0 K (Sys_close (ret s)) h)
         else
           (let (r, h) = sys K (Sys_bind (ret s) addr port) h in
            if ret r < 0 then (False, fds, sys0 K (Sys_close (ret s)) h)
            else open_udp K addr port (fds[i := ret s]) (i + 1) n h)))"

text \<open>
  The interface's address and size, then the sockets. \<open>if_mtu\<close> is the value behind the pointer,
  which the only caller passes. No interface is a null pointer, which \<^verbatim>\<open>strncpy\<close> reads.
\<close>

definition query_iface ::
  "kernel \<Rightarrow> int \<Rightarrow> string \<Rightarrow> int \<Rightarrow> history \<Rightarrow> (ip_addr \<times> int) option \<times> history"
where
  "query_iface K ctl_fd name if_mtu h =
     (let (r, h) = sys K (Sys_ioctl ctl_fd (SIOCGIFADDR name)) h in
      if ret r < 0 then (None, h)
      else if r_family r = AF_INET6 then (None, h)
      else
        (let addr = (if r_family r = AF_INET then v4_mapped (r_addr4 r) else 0);
             (r, h) = sys K (Sys_ioctl ctl_fd (SIOCGIFMTU name)) h in
         if ret r < 0 then (None, h) else (Some (addr, r_out r), h)))"

definition net_create_udp_sock_fds ::
  "kernel \<Rightarrow> string option \<Rightarrow> int \<Rightarrow> nat \<Rightarrow> int list \<Rightarrow> int \<Rightarrow> history \<Rightarrow>
     ((bool \<times> int list \<times> int) \<times> history) res"
where
  "net_create_udp_sock_fds K bind_iface bind_port num_queues fds if_mtu h =
     (case bind_iface of
        None \<Rightarrow> Inl Null_Deref
      | Some iface \<Rightarrow>
          (let (ctl, h) = sys K (Sys_socket AF_INET) h;
               (q, h) = query_iface K (ret ctl) (take (IFNAMSIZ - 1) iface) if_mtu h in
           case q of
             None \<Rightarrow> Inr ((False, fds, if_mtu), close_positive K [ret ctl] h)
           | Some (addr, mtu) \<Rightarrow>
               (let (ok, fds, h) = open_udp K addr (htons_int bind_port) fds 0 num_queues h
                in Inr ((ok, fds, mtu), close_positive K [ret ctl] h))))"

section \<open>Non-blocking mode\<close>

definition O_NONBLOCK :: int where "O_NONBLOCK = 0x800"

definition net_set_nonblocking :: "kernel \<Rightarrow> int \<Rightarrow> history \<Rightarrow> bool \<times> history" where
  "net_set_nonblocking K fd h =
     (let (r, h) = sys K (Sys_fcntl_getfl fd) h in
      if ret r < 0 then (False, h)
      else
        (let (r', h) = sys K (Sys_fcntl_setfl fd (ret r OR O_NONBLOCK)) h in
         (\<not> ret r' < 0, h)))"

section \<open>Resolving a host\<close>

text \<open>
  The body of the loop always leaves it: the first entry decides, and after a failed \<^verbatim>\<open>inet_ntop\<close>
  (\<open>ntop_ok\<close>) its family is used with the address of the next entry.
\<close>

definition resolved_addr ::
  "(addrinfo \<Rightarrow> bool) \<Rightarrow> addrinfo list \<Rightarrow> ip_addr \<Rightarrow> (bool \<times> ip_addr) res"
where
  "resolved_addr ntop_ok ais out_addr =
     (case ais of
        [] \<Rightarrow> Inr (False, out_addr)
      | ai # rest \<Rightarrow>
          (let ai_next = (if ntop_ok ai then ai # rest else rest) in
           if ai_family ai = AF_INET then
             (case ai_next of [] \<Rightarrow> Inl Null_Deref | a # _ \<Rightarrow> Inr (True, v4_mapped (ai_sin_addr a)))
           else if ai_family ai = AF_INET6 then
             (case ai_next of [] \<Rightarrow> Inl Null_Deref | a # _ \<Rightarrow> Inr (True, ai_sin6_addr a))
           else Inr (True, out_addr)))"

definition net_lookup_remote_host ::
  "kernel \<Rightarrow> (addrinfo \<Rightarrow> bool) \<Rightarrow> string \<Rightarrow> ip_addr \<Rightarrow> history \<Rightarrow>
     ((bool \<times> ip_addr) \<times> history) res"
where
  "net_lookup_remote_host K ntop_ok host out_addr h =
     (let (r, h) = sys K (Sys_getaddrinfo host) h in
      if ret r < 0 then Inr ((False, out_addr), h)
      else bind_res (resolved_addr ntop_ok (r_addrs r) out_addr) (\<lambda>res. Inr (res, h)))"

section \<open>Descriptors\<close>

lemma set_up_fds [fds]: "open_fds (snd (set_up K c n h)) = open_fds h"
  by (simp add: set_up_def sys_def Let_def fds)

lemma find_bridge_fds [fds]: "open_fds (snd (find_bridge K c n h)) = open_fds h"
  by (simp add: find_bridge_def sys_def Let_def fds)

lemma join_bridge_fds [fds]: "open_fds (snd (join_bridge K c i b h)) = open_fds h"
  by (simp add: join_bridge_def sys_def Let_def fds split: prod.split)
    (metis find_bridge_fds snd_conv)

lemma configure_tap_fds [fds]: "open_fds (snd (configure_tap K c t m b h)) = open_fds h"
proof -
  have j: "open_fds h' = open_fds h" if "join_bridge K c i b h = (ok, h')" for K c i b h ok h'
    using join_bridge_fds [of K c i b h] that by simp
  show ?thesis
    by (auto simp: configure_tap_def sys_def Let_def fds j split: prod.splits option.splits if_splits
        dest!: j)
qed

lemma with_ctl_fds:
  assumes "fresh_fds K"
  shows "open_fds (snd (with_ctl K t m b h)) = open_fds h"
proof -
  let ?r = "K h (Sys_socket AF_INET)" and ?h = "h @ [(Sys_socket AF_INET, K h (Sys_socket AF_INET))]"
  show ?thesis
  proof (cases "ret ?r < 0")
    case True
    then show ?thesis by (simp add: with_ctl_def sys_def fds)
  next
    case False
    then have "0 < ret ?r" "ret ?r \<notin> open_fds h"
      using fresh_fdsD [OF assms, of "Sys_socket AF_INET" h] by auto
    moreover obtain ok h' where conf: "configure_tap K (ret ?r) t m b ?h = (ok, h')" by fastforce
    moreover have "open_fds h' = insert (ret ?r) (open_fds h)"
      using configure_tap_fds [of K "ret ?r" t m b ?h] conf False by (simp add: fds)
    ultimately show ?thesis
      using False by (simp add: with_ctl_def sys_def fds)
  qed
qed

text \<open>What a loop that opens descriptors into an array from index \<open>i\<close> on has done.\<close>

definition filled ::
  "int list \<Rightarrow> nat \<Rightarrow> history \<Rightarrow> int list \<Rightarrow> int list \<Rightarrow> history \<Rightarrow> bool"
where
  "filled fds i h new fds' h' \<longleftrightarrow>
     fds' = take i fds @ new @ drop (i + length new) fds \<and>
     open_fds h' = open_fds h \<union> set new \<and> distinct new \<and> set new \<inter> open_fds h = {} \<and>
     (\<forall>fd \<in> set new. 0 < fd)"

lemma filled_Nil: "open_fds h' = open_fds h \<Longrightarrow> filled fds i h [] fds h'"
  by (simp add: filled_def)

lemma filled_Cons:
  assumes "filled (fds[i := fd]) (Suc i) h1 new fds' h'" and "i < length fds"
    and "open_fds h1 = insert fd (open_fds h)" and "fd \<notin> open_fds h" and "0 < fd"
  shows "filled fds i h (fd # new) fds' h'"
  using assms by (auto simp: filled_def take_Suc_conv_app_nth)

lemma open_queues_filled:
  assumes "fresh_fds K"
  shows "open_queues K name fds i n h = (ok, fds', j, h') \<Longrightarrow> i + n \<le> length fds \<Longrightarrow>
    \<exists>new. filled fds i h new fds' h' \<and> j = i + length new \<and> length new \<le> n \<and>
      (ok \<longrightarrow> length new = n) \<and> set h \<subseteq> set h' \<and>
      (\<forall>fd \<in> set new. \<exists>r. (Sys_ioctl fd (TUNSETIFF name), r) \<in> set h' \<and> 0 \<le> ret r)"
proof (induction n arbitrary: fds i h)
  case 0
  then show ?case by (intro exI [of _ "[]"]) (auto simp: filled_Nil)
next
  case (Suc n)
  let ?o = "Sys_open ''/dev/net/tun''"
  let ?tun = "K h ?o" and ?h1 = "h @ [(?o, K h ?o)]"
  let ?c = "Sys_ioctl (ret ?tun) (TUNSETIFF name)"
  let ?r = "K ?h1 ?c" and ?h2 = "?h1 @ [(?c, K ?h1 ?c)]"
  show ?case
  proof (cases "ret ?tun < 0")
    case True
    with Suc.prems show ?thesis
      by (intro exI [of _ "[]"]) (auto simp: sys_def fds intro!: filled_Nil)
  next
    case ok: False
    then have new: "0 < ret ?tun" "ret ?tun \<notin> open_fds h"
      using fresh_fdsD [OF assms, of ?o h] by auto
    have h2: "open_fds ?h2 = insert (ret ?tun) (open_fds h)" using ok by (simp add: fds)
    show ?thesis
    proof (cases "ret ?r < 0")
      case True
      with Suc.prems ok new show ?thesis
        by (intro exI [of _ "[]"]) (auto simp: sys_def sys0_def fds intro!: filled_Nil)
    next
      case False
      with Suc.prems ok have "open_queues K name (fds[i := ret ?tun]) (Suc i) n ?h2 = (ok, fds', j, h')"
        by (simp add: sys_def)
      from Suc.IH [OF this] Suc.prems(2) obtain new' where
        IH: "filled (fds[i := ret ?tun]) (Suc i) ?h2 new' fds' h'" "j = Suc i + length new'"
          "length new' \<le> n" "ok \<longrightarrow> length new' = n" "set ?h2 \<subseteq> set h'"
          "\<forall>fd \<in> set new'. \<exists>r. (Sys_ioctl fd (TUNSETIFF name), r) \<in> set h' \<and> 0 \<le> ret r"
        by auto
      have "filled fds i h (ret ?tun # new') fds' h'"
        using filled_Cons [OF IH(1) _ h2 new(2,1)] Suc.prems(2) by simp
      moreover have "\<exists>r. (?c, r) \<in> set h' \<and> 0 \<le> ret r"
        using IH(5) False by (intro exI [of _ ?r]) auto
      ultimately show ?thesis
        using IH by (intro exI [of _ "ret ?tun # new'"]) auto
    qed
  qed
qed

lemma open_udp_filled:
  assumes "fresh_fds K"
  shows "open_udp K addr p fds i n h = (ok, fds', h') \<Longrightarrow> i + n \<le> length fds \<Longrightarrow>
    \<exists>new. filled fds i h new fds' h' \<and> length new \<le> n \<and> (ok \<longrightarrow> length new = n) \<and>
      set h \<subseteq> set h' \<and> (\<forall>fd \<in> set new. \<exists>r. (Sys_bind fd addr p, r) \<in> set h' \<and> 0 \<le> ret r)"
proof (induction n arbitrary: fds i h)
  case 0
  then show ?case by (intro exI [of _ "[]"]) (auto simp: filled_Nil)
next
  case (Suc n)
  let ?o = "Sys_socket AF_INET6"
  let ?s = "K h ?o" and ?h1 = "h @ [(?o, K h ?o)]"
  let ?c = "Sys_setsockopt_reuseport (ret ?s)"
  let ?r = "K ?h1 ?c" and ?h2 = "?h1 @ [(?c, K ?h1 ?c)]"
  let ?b = "Sys_bind (ret ?s) addr p"
  let ?q = "K ?h2 ?b" and ?h3 = "?h2 @ [(?b, K ?h2 ?b)]"
  show ?case
  proof (cases "ret ?s < 0")
    case True
    moreover from True have "ret ?s \<notin> open_fds h"
      using open_fds_nonneg [of "ret ?s" h] by auto
    ultimately show ?thesis using Suc.prems
      by (intro exI [of _ "[]"]) (auto simp: sys_def sys0_def fds intro!: filled_Nil)
  next
    case ok: False
    then have new: "0 < ret ?s" "ret ?s \<notin> open_fds h"
      using fresh_fdsD [OF assms, of ?o h] by auto
    have h3: "open_fds ?h3 = insert (ret ?s) (open_fds h)" using ok by (simp add: fds)
    show ?thesis
    proof (cases "ret ?r < 0 \<or> ret ?q < 0")
      case True
      with Suc.prems ok new show ?thesis
        by (intro exI [of _ "[]"]) (auto simp: sys_def sys0_def fds split: if_splits intro!: filled_Nil)
    next
      case False
      with Suc.prems ok have "open_udp K addr p (fds[i := ret ?s]) (Suc i) n ?h3 = (ok, fds', h')"
        by (simp add: sys_def)
      from Suc.IH [OF this] Suc.prems(2) obtain new' where
        IH: "filled (fds[i := ret ?s]) (Suc i) ?h3 new' fds' h'"
          "length new' \<le> n" "ok \<longrightarrow> length new' = n" "set ?h3 \<subseteq> set h'"
          "\<forall>fd \<in> set new'. \<exists>r. (Sys_bind fd addr p, r) \<in> set h' \<and> 0 \<le> ret r"
        by auto
      have "filled fds i h (ret ?s # new') fds' h'"
        using filled_Cons [OF IH(1) _ h3 new(2,1)] Suc.prems(2) by simp
      moreover have "\<exists>r. (?b, r) \<in> set h' \<and> 0 \<le> ret r"
        using IH(4) False by (intro exI [of _ ?q]) auto
      ultimately show ?thesis
        using IH by (intro exI [of _ "ret ?s # new'"]) auto
    qed
  qed
qed

section \<open>What a successful configuration has done\<close>

text \<open>A call that was made and answered with success.\<close>

definition done_ok :: "call \<Rightarrow> history \<Rightarrow> bool" where
  "done_ok c h \<longleftrightarrow> (\<exists>r. (c, r) \<in> set h \<and> 0 \<le> ret r)"

lemma done_ok_mono: "done_ok c h \<Longrightarrow> set h \<subseteq> set h' \<Longrightarrow> done_ok c h'"
  by (auto simp: done_ok_def)

lemma done_ok_sys: "sys K c h = (r, h') \<Longrightarrow> \<not> ret r < 0 \<Longrightarrow> done_ok c h'"
  by (auto simp: done_ok_def sys_def intro!: exI [of _ r])

lemma sys_grows: "sys K c h = (r, h') \<Longrightarrow> set h \<subseteq> set h'"
  by (auto simp: sys_def)

lemma set_up_grows: "set_up K c n h = (ok, h') \<Longrightarrow> set h \<subseteq> set h'"
  by (auto simp: set_up_def sys_def split: if_splits)

lemma set_up_ok:
  "set_up K c n h = (True, h') \<Longrightarrow> \<exists>flags. done_ok (Sys_ioctl c (SIOCSIFFLAGS n (flags OR up_running))) h'"
  by (auto simp: set_up_def split: prod.splits if_splits dest: done_ok_sys)

lemma find_bridge_grows: "find_bridge K c n h = (ok, h') \<Longrightarrow> set h \<subseteq> set h'"
  by (auto simp: find_bridge_def split: prod.splits if_splits dest!: sys_grows set_up_grows)

lemma join_bridge_grows: "join_bridge K c i b h = (ok, h') \<Longrightarrow> set h \<subseteq> set h'"
  by (auto simp: join_bridge_def Let_def split: prod.splits if_splits
      dest!: sys_grows find_bridge_grows)

lemma join_bridge_ok:
  "join_bridge K c i b h = (True, h') \<Longrightarrow> done_ok (Sys_ioctl c (SIOCBRADDIF (take 15 b) i)) h'"
  by (auto simp: join_bridge_def Let_def IFNAMSIZ_def split: prod.splits if_splits dest: done_ok_sys)

definition tap_configured ::
  "string \<Rightarrow> int \<Rightarrow> string option \<Rightarrow> int \<Rightarrow> history \<Rightarrow> bool"
where
  "tap_configured name mtu bridge ctl h \<longleftrightarrow>
     (mtu > 0 \<longrightarrow> done_ok (Sys_ioctl ctl (SIOCSIFMTU name mtu)) h) \<and>
     (\<forall>br. bridge = Some br \<longrightarrow>
        (\<exists>r. (Sys_ioctl ctl (SIOCGIFINDEX name), r) \<in> set h \<and> 0 \<le> ret r \<and>
             done_ok (Sys_ioctl ctl (SIOCBRADDIF (take 15 br) (r_out r))) h)) \<and>
     (\<exists>flags. done_ok (Sys_ioctl ctl (SIOCSIFFLAGS name (flags OR up_running))) h)"

lemma tap_configured_mono:
  "tap_configured n m b c h \<Longrightarrow> set h \<subseteq> set h' \<Longrightarrow> tap_configured n m b c h'"
  unfolding tap_configured_def using done_ok_mono [of _ h h'] by blast

lemma configure_tap_ok:
  assumes "configure_tap K c t mtu bridge h = (True, h')"
  shows "tap_configured (take 14 t) mtu bridge c h'"
proof -
  let ?n = "take 14 t"
  obtain r h1 where s1: "sys K (Sys_ioctl c (SIOCGIFINDEX ?n)) h = (r, h1)" by fastforce
  define m where "m = (if mtu > 0 then
      (let (q, h) = sys K (Sys_ioctl c (SIOCSIFMTU ?n mtu)) h1 in (\<not> ret q < 0, h)) else (True, h1))"
  obtain h2 where m: "m = (True, h2)" and r: "\<not> ret r < 0"
    and rest: "(let (ok, h) = (case bridge of
          Some br \<Rightarrow> join_bridge K c (r_out r) br h2 | None \<Rightarrow> (True, h2)) in
        if \<not> ok then (False, h) else set_up K c ?n h) = (True, h')"
    using assms s1
    by (auto simp: configure_tap_def strlcpy_def IFNAMSIZ_def m_def Let_def split: prod.splits if_splits)
  have "set h1 \<subseteq> set h2" and mtu: "mtu > 0 \<longrightarrow> done_ok (Sys_ioctl c (SIOCSIFMTU ?n mtu)) h2"
    using m by (auto simp: m_def split: if_splits prod.splits dest: sys_grows done_ok_sys)
  obtain h3 where up: "set_up K c ?n h3 = (True, h')" and "set h2 \<subseteq> set h3"
    and br: "\<forall>br. bridge = Some br \<longrightarrow> done_ok (Sys_ioctl c (SIOCBRADDIF (take 15 br) (r_out r))) h3"
    using rest by (cases bridge) (auto split: prod.splits if_splits dest: join_bridge_grows join_bridge_ok)
  have "(Sys_ioctl c (SIOCGIFINDEX ?n), r) \<in> set h1" using s1 by (auto simp: sys_def)
  with \<open>set h1 \<subseteq> set h2\<close> \<open>set h2 \<subseteq> set h3\<close> set_up_grows [OF up]
  have "(Sys_ioctl c (SIOCGIFINDEX ?n), r) \<in> set h'" and sub: "set h2 \<subseteq> set h'" "set h3 \<subseteq> set h'"
    by auto
  moreover have "0 \<le> ret r" using r by simp
  ultimately show ?thesis
    unfolding tap_configured_def
    using mtu br set_up_ok [OF up] done_ok_mono [OF _ sub(1)] done_ok_mono [OF _ sub(2)] by blast
qed

lemma with_ctl_ok:
  assumes "with_ctl K t mtu bridge h = (True, h')"
  shows "\<exists>ctl. tap_configured (take 14 t) mtu bridge ctl h'"
proof -
  obtain ctl h1 h2 where conf: "configure_tap K ctl t mtu bridge h1 = (True, h2)"
    and h': "h' = close_positive K [ctl] h2"
    using assms by (auto simp: with_ctl_def split: prod.splits if_splits)
  have sub: "set h2 \<subseteq> set h'" by (auto simp: h' sys0_def sys_def)
  from tap_configured_mono [OF configure_tap_ok [OF conf] sub] show ?thesis ..
qed

lemma configure_tap_grows: "configure_tap K c t mtu bridge h = (ok, h') \<Longrightarrow> set h \<subseteq> set h'"
  by (auto simp: configure_tap_def Let_def split: prod.splits if_splits option.splits
      dest!: sys_grows join_bridge_grows set_up_grows)

lemma with_ctl_grows: "with_ctl K t mtu bridge h = (ok, h') \<Longrightarrow> set h \<subseteq> set h'"
  by (auto simp: with_ctl_def sys0_def split: prod.splits if_splits
      dest!: sys_grows configure_tap_grows) (auto simp: sys_def)

section \<open>The outcome of creating a device\<close>

lemma net_create_tap_outcome:
  assumes fresh: "fresh_fds K"
    and res: "net_create_tap_mq_fds K base queues mtu bridge resolved h = Inr ((ok, fds, name), h')"
  shows "ok \<Longrightarrow> length fds = queues \<and> distinct fds \<and> set fds \<inter> open_fds h = {} \<and>
      (\<forall>fd \<in> set fds. 0 < fd \<and> done_ok (Sys_ioctl fd (TUNSETIFF name)) h') \<and>
      open_fds h' = open_fds h \<union> set fds \<and> (\<exists>ctl. tap_configured (take 14 name) mtu bridge ctl h')"
    and "\<not> ok \<Longrightarrow> open_fds h' = open_fds h"
proof -
  let ?c = "Sys_fopen ''/proc/net/dev''"
  let ?h1 = "h @ [(?c, K h ?c)]"
  have h1: "open_fds ?h1 = open_fds h" by (simp add: fds)
  consider
    (early) "\<not> ok" "h' = ?h1"
  | (queues) oks fds' i h2 where
      "open_queues K name (replicate queues 0) 0 queues ?h1 = (oks, fds', i, h2)" "\<not> oks"
      "\<not> ok" "h' = close_positive K (take i fds') h2"
  | (config) fds' i h2 h3 where
      "open_queues K name (replicate queues 0) 0 queues ?h1 = (True, fds', i, h2)"
      "with_ctl K name mtu bridge h2 = (ok, h3)"
      "if ok then h' = h3 \<and> fds = fds' else h' = close_positive K (take i fds') h3"
    using res
    by (auto simp: net_create_tap_mq_fds_def Let_def sys_def split: if_splits prod.splits)
  then have "(ok \<longrightarrow> length fds = queues \<and> distinct fds \<and> set fds \<inter> open_fds h = {} \<and>
      (\<forall>fd \<in> set fds. 0 < fd \<and> done_ok (Sys_ioctl fd (TUNSETIFF name)) h') \<and>
      open_fds h' = open_fds h \<union> set fds \<and> (\<exists>ctl. tap_configured (take 14 name) mtu bridge ctl h')) \<and>
      (\<not> ok \<longrightarrow> open_fds h' = open_fds h)"
  proof cases
    case early
    with h1 show ?thesis by simp
  next
    case queues
    from open_queues_filled [OF fresh queues(1)] obtain new where
      "filled (replicate queues 0) 0 ?h1 new fds' h2" "i = length new" by auto
    with queues h1 show ?thesis by (auto simp: filled_def fds)
  next
    case config
    from open_queues_filled [OF fresh config(1)] obtain new where
      f: "filled (replicate queues 0) 0 ?h1 new fds' h2" "i = length new" "length new = queues"
      and tun: "\<forall>fd \<in> set new. \<exists>r. (Sys_ioctl fd (TUNSETIFF name), r) \<in> set h2 \<and> 0 \<le> ret r"
      by auto
    have fds': "fds' = new" using f by (simp add: filled_def)
    have h3: "open_fds h3 = open_fds h2"
      using with_ctl_fds [OF fresh, of name mtu bridge h2] config(2) by simp
    have "done_ok (Sys_ioctl fd (TUNSETIFF name)) h3" if "fd \<in> set new" for fd
      using tun that with_ctl_grows [OF config(2)] by (auto simp: done_ok_def)
    moreover have "\<exists>ctl. tap_configured (take 14 name) mtu bridge ctl h3" if ok
      using with_ctl_ok [of K name mtu bridge h2 h3] config(2) that by simp
    ultimately show ?thesis
      using f h1 h3 config(3) by (auto simp: filled_def fds fds' split: if_splits)
  qed
  then show "ok \<Longrightarrow> length fds = queues \<and> distinct fds \<and> set fds \<inter> open_fds h = {} \<and>
      (\<forall>fd \<in> set fds. 0 < fd \<and> done_ok (Sys_ioctl fd (TUNSETIFF name)) h') \<and>
      open_fds h' = open_fds h \<union> set fds \<and> (\<exists>ctl. tap_configured (take 14 name) mtu bridge ctl h')"
    and "\<not> ok \<Longrightarrow> open_fds h' = open_fds h" by blast+
qed

lemma net_create_udp_outcome:
  assumes fresh: "fresh_fds K" and len: "n \<le> length fds"
    and zero: "\<forall>fd \<in> set fds. fd = 0"
    and res: "net_create_udp_sock_fds K (Some iface) port n fds if_mtu h = Inr ((ok, fds', mtu), h')"
  shows "length fds' = length fds \<and> open_fds h' = open_fds h \<union> {fd \<in> set fds'. 0 < fd} \<and>
    (\<forall>fd \<in> set fds'. 0 \<le> fd) \<and> {fd \<in> set fds'. 0 < fd} \<inter> open_fds h = {} \<and>
    (ok \<longrightarrow> (\<forall>i < n. 0 < fds' ! i) \<and> distinct (take n fds') \<and>
       (\<exists>addr. \<forall>i < n. done_ok (Sys_bind (fds' ! i) addr (htons_int port)) h'))"
proof -
  let ?c = "Sys_socket AF_INET"
  let ?ctl = "ret (K h ?c)" and ?h1 = "h @ [(?c, K h ?c)]"
  let ?q = "query_iface K ?ctl (take (IFNAMSIZ - 1) iface) if_mtu ?h1"
  have query: "open_fds (snd ?q) = open_fds ?h1"
    by (simp add: query_iface_def Let_def sys_def fds)
  have ctl: "open_fds ?h1 = open_fds h \<union> {fd. fd = ?ctl \<and> 0 < fd} \<and> ?ctl \<notin> open_fds h"
  proof (cases "?ctl < 0")
    case True
    then show ?thesis using open_fds_nonneg [of ?ctl h] by (auto simp: fds)
  next
    case False
    then show ?thesis using fresh_fdsD [OF fresh, of ?c h] by (auto simp: fds)
  qed
  consider
    (query) h2 where "\<not> ok" "fds' = fds" "?q = (None, h2)" "h' = close_positive K [?ctl] h2"
  | (socks) addr m h2 h3 where "?q = (Some (addr, m), h2)"
      "open_udp K addr (htons_int port) fds 0 n h2 = (ok, fds', h3)" "h' = close_positive K [?ctl] h3"
    using res by (auto simp: net_create_udp_sock_fds_def Let_def sys_def split: prod.splits option.splits)
  then show ?thesis
  proof cases
    case query: query
    with \<open>open_fds (snd ?q) = open_fds ?h1\<close> ctl zero show ?thesis by (auto simp: fds)
  next
    case socks
    from open_udp_filled [OF fresh socks(2)] len obtain new where
      f: "filled fds 0 h2 new fds' h3" "length new \<le> n" "ok \<longrightarrow> length new = n"
      and b: "\<forall>fd \<in> set new. \<exists>r. (Sys_bind fd addr (htons_int port), r) \<in> set h3 \<and> 0 \<le> ret r"
      by auto
    have fds': "fds' = new @ drop (length new) fds" using f(1) by (simp add: filled_def)
    have h2: "open_fds h2 = open_fds ?h1" using query socks(1) by simp
    have tail: "\<forall>fd \<in> set (drop (length new) fds). fd = 0" using zero by (auto dest: in_set_dropD)
    then have pos: "{fd \<in> set fds'. 0 < fd} = set new"
      using f(1) by (auto simp: fds' filled_def)
    have "open_fds h' = open_fds h \<union> set new" and "set new \<inter> open_fds h = {}"
      using f(1) h2 ctl socks(3) by (auto simp: filled_def fds)
    moreover have "\<forall>fd \<in> set fds'. 0 \<le> fd" and "length fds' = length fds"
      using f(1,2) tail len by (auto simp: fds' filled_def less_imp_le)
    moreover have "(\<forall>i < n. 0 < fds' ! i) \<and> distinct (take n fds') \<and>
        (\<forall>i < n. done_ok (Sys_bind (fds' ! i) addr (htons_int port)) h')" if ok
    proof -
      have n: "length new = n" using f(3) that by simp
      have "set h3 \<subseteq> set h'" by (auto simp: socks(3) sys0_def sys_def)
      then have "done_ok (Sys_bind fd addr (htons_int port)) h'" if "fd \<in> set new" for fd
        using b that unfolding done_ok_def by blast
      with n f(1) show ?thesis by (auto simp: fds' filled_def nth_append)
    qed
    ultimately show ?thesis using pos by blast
  qed
qed

section \<open>The name is free\<close>

lemma highest_step_mono: "m \<le> highest_step dev l m"
  by (simp add: highest_step_def Let_def split: option.split)

lemma fold_highest_mono: "m \<le> fold (highest_step dev) ls m"
proof (induction ls arbitrary: m)
  case (Cons l ls)
  then show ?case using highest_step_mono [of m dev l] order_trans by fastforce
qed simp

lemma fold_highest_reached:
  assumes "l \<in> set ls" "\<And>m. n \<le> highest_step dev l m"
  shows "n \<le> fold (highest_step dev) ls m"
proof -
  obtain xs ys where ls: "ls = xs @ l # ys" using assms(1) by (meson split_list)
  have "n \<le> highest_step dev l (fold (highest_step dev) xs m)" by (rule assms(2))
  also have "\<dots> \<le> fold (highest_step dev) ls m" by (simp add: ls fold_highest_mono)
  finally show ?thesis .
qed

lemma strstr_behind:
  assumes "n \<noteq> []" "hd n \<noteq> c"
  shows "strstr (replicate k c @ n @ ys) n = Some k"
proof (induction k)
  case (Suc k)
  have "take (length n) (replicate (Suc k) c @ n @ ys) \<noteq> n"
    using assms by (cases n) auto
  with Suc show ?case by simp
qed simp

text \<open>A line of \<^verbatim>\<open>/proc/net/dev\<close>: an interface name, right-aligned, a colon and counters.\<close>

definition dev_line :: "nat \<Rightarrow> string \<Rightarrow> string \<Rightarrow> string" where
  "dev_line k iface counters = replicate k CHR '' '' @ iface @ '':'' @ counters"

lemma highest_step_dev_line:
  assumes "dev \<noteq> []" "CHR '' '' \<notin> set dev" "CHR 0x00 \<notin> set dev" "int n < 2 ^ 31"
  shows "int n \<le> highest_step dev (dev_line k (dev @ show_nat n) cs @ [CHR 0x0A]) m"
proof -
  let ?rest = "'':'' @ cs @ [CHR 0x0A]"
  have nonnull: "CHR 0x00 \<notin> set (show_nat n)"
    using show_nat_digits [of n] by (auto simp: is_digit_def)
  have "cstr (dev_line k (dev @ show_nat n) cs @ [CHR 0x0A]) =
      replicate k CHR '' '' @ dev @ show_nat n @ '':'' @ cstr (cs @ [CHR 0x0A])"
    using assms(3) nonnull by (simp add: dev_line_def cstr_def)
  moreover have "hd dev \<noteq> CHR '' ''" using assms(1,2) by (cases dev) auto
  moreover have "atoi (show_nat n @ '':'' @ cstr (cs @ [CHR 0x0A])) = int n"
    using assms(4) by (intro atoi_show_nat) (auto simp: is_digit_def)
  ultimately show ?thesis
    using strstr_behind [OF assms(1), of "CHR '' ''" k "show_nat n @ '':'' @ cstr (cs @ [CHR 0x0A])"]
    by (simp add: highest_step_def Let_def)
qed

lemma highest_tap_bound:
  assumes "\<forall>l \<in> set ls. CHR 0x0A \<notin> set l \<and> length l < 255"
    and "dev_line k (dev @ show_nat n) cs \<in> set ls"
    and "dev \<noteq> []" "CHR '' '' \<notin> set dev" "CHR 0x00 \<notin> set dev" "int n < 2 ^ 31"
  shows "int n \<le> highest_tap dev (concat (map (\<lambda>l. l @ [CHR 0x0A]) ls))"
  unfolding highest_tap_def fgets_lines_concat [OF assms(1)]
  by (rule fold_highest_reached [OF _ highest_step_dev_line [OF assms(3-6)]]) (use assms(2) in auto)

lemma show_int_nat: "0 \<le> v \<Longrightarrow> show_int v = show_nat (nat v)"
  by (simp add: show_int_def)

lemma highest_tap_range:
  "- 1 \<le> highest_tap dev text \<and> highest_tap dev text < 2 ^ 31"
proof -
  have step: "m < 2147483648 \<Longrightarrow> highest_step dev l m < 2147483648" for l m
    using atoi_range by (simp add: highest_step_def Let_def split: option.split)
  have "m < 2147483648 \<Longrightarrow> fold (highest_step dev) ls m < 2147483648" for ls m
    by (induction ls arbitrary: m) (simp_all add: step)
  then show ?thesis using fold_highest_mono [of "- 1"] by (simp add: highest_tap_def)
qed

lemma chosen_name_is_new:
  assumes res: "net_create_tap_mq_fds K base queues mtu bridge resolved h = Inr ((True, fds, name), h')"
    and dev: "dev = (case base of Some d \<Rightarrow> d | None \<Rightarrow> ''tap'')"
      "dev \<noteq> []" "CHR '' '' \<notin> set dev" "CHR 0x00 \<notin> set dev"
    and dev_file: "fp = K h (Sys_fopen ''/proc/net/dev'')" "0 \<le> ret fp"
      "r_contents fp = concat (map (\<lambda>l. l @ [CHR 0x0A]) ls)"
    and lines: "\<forall>l \<in> set ls. CHR 0x0A \<notin> set l \<and> length l < 255"
    and listed: "dev_line k iface cs \<in> set ls"
  shows "iface \<noteq> name"
proof
  assume "iface = name"
  let ?hi = "highest_tap dev (concat (map (\<lambda>l. l @ [CHR 0x0A]) ls))"
  have name: "name = dev @ show_int (?hi + 1)" and max: "?hi \<noteq> 2 ^ 31 - 1"
    using res dev(1) dev_file by (auto simp: net_create_tap_mq_fds_def sys_def Let_def split: if_splits prod.splits)
  have range: "0 \<le> ?hi + 1" "?hi + 1 < 2 ^ 31"
    using highest_tap_range [of dev "concat (map (\<lambda>l. l @ [CHR 0x0A]) ls)"] max by auto
  then have "dev_line k (dev @ show_nat (nat (?hi + 1))) cs \<in> set ls"
    using listed \<open>iface = name\<close> name by (simp add: show_int_nat)
  from highest_tap_bound [OF lines this dev(2-4)] range show False by simp
qed

section \<open>The history grows\<close>

lemma sys0_grows: "set h \<subseteq> set (sys0 K c h)"
  by (auto simp: sys0_def sys_def)

lemma close_positive_grows: "set h \<subseteq> set (close_positive K fs h)"
proof (induction fs arbitrary: h)
  case (Cons fd fs)
  from sys0_grows Cons.IH have "set h \<subseteq> set (close_positive K fs (sys0 K (Sys_close fd) h))"
    by (rule order_trans)
  with Cons.IH show ?case by simp
qed simp

lemma open_queues_grows: "open_queues K name fs i n h = (ok, fs', j, h') \<Longrightarrow> set h \<subseteq> set h'"
proof (induction n arbitrary: fs i h)
  case (Suc n)
  then show ?case
    by (fastforce simp: Let_def sys0_def sys_def split: prod.splits if_splits)
qed simp

lemma net_create_tap_grows:
  assumes "net_create_tap_mq_fds K base n mtu br res h = Inr (x, h')"
  shows "set h \<subseteq> set h'"
proof -
  let ?dev = "case base of Some d \<Rightarrow> d | None \<Rightarrow> ''tap''"
  obtain fp h1 where h1: "sys K (Sys_fopen ''/proc/net/dev'') h = (fp, h1)" by fastforce
  let ?hi = "if ret fp < 0 then - 1 else highest_tap ?dev (r_contents fp)"
  let ?name = "?dev @ show_int (?hi + 1)"
  obtain ok fs i h2 where h2: "open_queues K ?name (replicate n 0) 0 n h1 = (ok, fs, i, h2)"
    by (metis prod_cases4)
  obtain ok3 h3 where h3: "(if ok then with_ctl K ?name mtu br h2 else (False, h2)) = (ok3, h3)"
    by fastforce
  have "set h \<subseteq> set h1" by (rule sys_grows [OF h1])
  moreover have "set h1 \<subseteq> set h2" by (rule open_queues_grows [OF h2])
  moreover have "set h2 \<subseteq> set h3" using h3 with_ctl_grows by (auto split: if_splits)
  moreover have "h' = h1 \<or> h' = h3 \<or> h' = close_positive K (take i fs) h3"
    using assms h1 h2 h3
    by (auto simp: net_create_tap_mq_fds_def Let_def split: if_splits)
  ultimately show ?thesis using close_positive_grows [of h3 K "take i fs"] by blast
qed

section \<open>No frames are moved\<close>

lemma open_queues_quiet: "open_queues K name fds i n h = (ok, fds', j, h') \<Longrightarrow> traffic h' = traffic h"
  by (induction n arbitrary: fds i h)
    (auto simp: Let_def sys0_quiet split: prod.splits if_splits dest!: sys_quiet)

lemma set_up_quiet: "set_up K c n h = (ok, h') \<Longrightarrow> traffic h' = traffic h"
  by (auto simp: set_up_def split: prod.splits if_splits dest!: sys_quiet)

lemma find_bridge_quiet: "find_bridge K c n h = (ok, h') \<Longrightarrow> traffic h' = traffic h"
  by (auto simp: find_bridge_def split: prod.splits if_splits dest!: sys_quiet set_up_quiet)

lemma join_bridge_quiet: "join_bridge K c i b h = (ok, h') \<Longrightarrow> traffic h' = traffic h"
  by (auto simp: join_bridge_def Let_def split: prod.splits if_splits
      dest!: sys_quiet find_bridge_quiet)

lemma configure_tap_quiet: "configure_tap K c t mtu br h = (ok, h') \<Longrightarrow> traffic h' = traffic h"
  by (auto simp: configure_tap_def Let_def split: prod.splits if_splits option.splits
      dest!: sys_quiet join_bridge_quiet set_up_quiet)

lemma with_ctl_quiet: "with_ctl K t mtu br h = (ok, h') \<Longrightarrow> traffic h' = traffic h"
  by (auto simp: with_ctl_def quiet split: prod.splits if_splits
      dest!: sys_quiet configure_tap_quiet)

lemma net_create_tap_quiet:
  "net_create_tap_mq_fds K base n mtu br res h = Inr (x, h') \<Longrightarrow> traffic h' = traffic h"
  by (auto simp: net_create_tap_mq_fds_def Let_def close_positive_quiet split: prod.splits if_splits
      dest!: sys_quiet with_ctl_quiet open_queues_quiet)

lemma set_nonblocking_quiet: "net_set_nonblocking K fd h = (ok, h') \<Longrightarrow> traffic h' = traffic h"
  by (auto simp: net_set_nonblocking_def split: prod.splits if_splits dest!: sys_quiet)

end
