(* ===== verification/Tunnel.thy ===== *)
theory Tunnel
  imports Endpoint_Map Net
begin

text \<open>
  The data of \<^verbatim>\<open>src/src/tunnel.c\<close> and \<^verbatim>\<open>tunnel_alloc_new_tap\<close>. The array of TAP devices is a list
  of cells, none for a cell that was never written; the arrays of a device are heap blocks, so a
  failed allocation leaves a dangling one. \<open>t_wf\<close> is the invariant: the devices are complete, and
  the ids of the endpoint map lead to the device of the endpoint (\<open>routes\<close>).
\<close>

section \<open>Data\<close>

record tunnel_stats =
  txc :: u64
  rxc :: u64
  errorc :: u64
  last_recv_time :: int
  last_send_time :: int
  last_error_time :: int

definition zero_stats :: tunnel_stats where
  "zero_stats = \<lparr>txc = 0, rxc = 0, errorc = 0, last_recv_time = 0, last_send_time = 0,
                 last_error_time = 0\<rparr>"

record tap_dev =
  remote_ip :: ip_addr
  remote_port :: u16
  tap_fds :: "int list ptr"
  stats :: "tunnel_stats list ptr"
  tap_name :: string

record tunnel =
  queue_ids :: nat
  workers :: "int list"    \<comment> \<open>no thread is \<open>0\<close>; empty: not allocated\<close>
  num_queues :: nat
  num_tap_devs :: nat
  tap_devs_allocated :: nat
  tun_map :: "endpoint_map ptr"
  allowed_addr_list :: "ip_addr_cidr_list option"
  tap_devs :: "tap_dev option list"
  udp_fds :: "int list"
  epoll_fds :: "int list"
  tun_name :: string
  tap_base_name :: "string option"
  bridge_name :: "string option"
  tun_mtu :: int

section \<open>Events\<close>

text \<open>
  The union \<^verbatim>\<open>tunnel_epoll_event\<close>: on the platform modelled the fields of the structure are, from
  the lowest bit on, one bit, 31 bits and 32 bits of the 64-bit member.
\<close>

definition tunnel_epoll_event :: "bool \<Rightarrow> int \<Rightarrow> int \<Rightarrow> u64" where
  "tunnel_epoll_event is_tap tap_id fd =
     of_bool is_tap OR push_bit 1 (ucast (word_of_int tap_id :: 31 word))
       OR push_bit 32 (ucast (word_of_int fd :: 32 word))"

definition ev_is_tap :: "u64 \<Rightarrow> bool" where
  "ev_is_tap ev = bit ev 0"

definition ev_tap_id :: "u64 \<Rightarrow> int" where
  "ev_tap_id ev = sint (ucast (drop_bit 1 ev) :: 31 word)"

definition ev_fd :: "u64 \<Rightarrow> int" where
  "ev_fd ev = sint (ucast (drop_bit 32 ev) :: 32 word)"

lemma bit_of_bool_word: "bit (of_bool b :: 'a::len word) k \<longleftrightarrow> b \<and> k = 0"
  by (cases b) (simp_all add: bit_1_iff)

lemma bit_tunnel_epoll_event [bits]:
  "bit (tunnel_epoll_event b i f) k \<longleftrightarrow>
     (k = 0 \<and> b) \<or> (1 \<le> k \<and> k < 32 \<and> bit (word_of_int i :: 31 word) (k - 1)) \<or>
     (32 \<le> k \<and> k < 64 \<and> bit (word_of_int f :: 32 word) (k - 32))"
  unfolding tunnel_epoll_event_def bit_or_iff bit_of_bool_word bit_push_bit_iff bit_ucast_iff
  by (auto simp: possible_bit_def dest: bit_imp_le_length)

lemma event_fields:
  shows "ev_is_tap (tunnel_epoll_event b i f) = b"
    and "ucast (drop_bit 1 (tunnel_epoll_event b i f)) = (word_of_int i :: 31 word)"
    and "ucast (drop_bit 32 (tunnel_epoll_event b i f)) = (word_of_int f :: 32 word)"
proof -
  show "ev_is_tap (tunnel_epoll_event b i f) = b"
    by (simp add: ev_is_tap_def bits)
  show "ucast (drop_bit 1 (tunnel_epoll_event b i f)) = (word_of_int i :: 31 word)"
    by (rule bit_word_eqI) (simp add: bits bit_ucast_iff bit_drop_bit_eq)
  show "ucast (drop_bit 32 (tunnel_epoll_event b i f)) = (word_of_int f :: 32 word)"
    by (rule bit_word_eqI) (simp add: bits bit_ucast_iff bit_drop_bit_eq)
qed

lemma event_decode:
  assumes "- (2 ^ 30) \<le> i" "i < 2 ^ 30" "- (2 ^ 31) \<le> f" "f < 2 ^ 31"
  shows "ev_is_tap (tunnel_epoll_event b i f) = b"
    and "ev_tap_id (tunnel_epoll_event b i f) = i"
    and "ev_fd (tunnel_epoll_event b i f) = f"
  unfolding ev_tap_id_def ev_fd_def event_fields
  using assms by (simp_all add: signed_of_int signed_take_bit_int_eq_self)

section \<open>A new TAP device\<close>

definition tap_zero :: tap_dev where
  "tap_zero = \<lparr>remote_ip = 0, remote_port = 0, tap_fds = Null, stats = Null, tap_name = []\<rparr>"

definition set_dev :: "nat \<Rightarrow> tap_dev \<Rightarrow> tunnel \<Rightarrow> tunnel" where
  "set_dev i d t = t\<lparr>tap_devs := (tap_devs t)[i := Some d]\<rparr>"

text \<open>The table is doubled when it is full; a negative reply is a failed \<^verbatim>\<open>realloc\<close>.\<close>

definition expand_table :: "kernel \<Rightarrow> tunnel \<Rightarrow> history \<Rightarrow> ((bool \<times> tunnel) \<times> history) res" where
  "expand_table K t h =
     (if num_tap_devs t \<ge> tap_devs_allocated t then
        (let new_size = tap_devs_allocated t * 2;
             new_size = (if new_size = 0 then 1 else new_size) in
         if new_size \<ge> 2 ^ 31 then Inl Signed_Overflow
         else
           (let (r, h) = sys K Sys_alloc h in
            if ret r < 0 then Inr ((False, t), h)
            else Inr ((True, t\<lparr>tap_devs := tap_devs t @ replicate (new_size - length (tap_devs t)) None,
                             tap_devs_allocated := new_size\<rparr>), h)))
      else Inr ((True, t), h))"

text \<open>The loop that makes each queue non-blocking and adds it to its worker's epoll descriptor.\<close>

fun register_queues ::
  "kernel \<Rightarrow> int list \<Rightarrow> int list \<Rightarrow> int \<Rightarrow> nat list \<Rightarrow> history \<Rightarrow> (bool \<times> history) res"
where
  "register_queues K epfds fds tap_id [] h = Inr (True, h)"
| "register_queues K epfds fds tap_id (i # is) h =
     bind_res (at_index fds i) (\<lambda>fd.
       let ev = tunnel_epoll_event True tap_id fd;
           (ok, h) = net_set_nonblocking K (ev_fd ev) h in
       if \<not> ok then Inr (False, h)
       else bind_res (at_index epfds i) (\<lambda>epfd.
         let (r, h) = sys K (Sys_epoll_add epfd (ev_fd ev) ev) h in
         if ret r < 0 then Inr (False, h)
         else register_queues K epfds fds tap_id is h))"

text \<open>
  The end of the function, from the registration on: the id, \<open>-1\<close> on failure. A failed \<^verbatim>\<open>malloc\<close>
  is not noticed before the null pointer is written through.
\<close>

definition attach_queues ::
  "kernel \<Rightarrow> tunnel \<Rightarrow> int list \<Rightarrow> tap_dev \<Rightarrow> history \<Rightarrow> ((int \<times> tunnel) \<times> history) res"
where
  "attach_queues K t fds d h =
     (let tap_id = num_tap_devs t in
      bind_res (register_queues K (epoll_fds t) fds (int tap_id) [0..<num_queues t] h)
        (\<lambda>(ok, h).
          if \<not> ok then Inr ((- 1, set_dev tap_id (d\<lparr>tap_fds := Dangling\<rparr>) t), h)
          else if ret (fst (sys K Sys_alloc h)) < 0 then Inl Null_Deref
          else
            (let h = sys0 K Sys_alloc h;
                 d = d\<lparr>stats := Live (replicate (num_queues t) zero_stats)\<rparr>;
                 t = (set_dev tap_id d t)\<lparr>num_tap_devs := num_tap_devs t + 1\<rparr>
             in Inr ((int tap_id, t), h))))"

definition tunnel_alloc_new_tap ::
  "kernel \<Rightarrow> tunnel \<Rightarrow> ip_addr \<Rightarrow> u16 \<Rightarrow> history \<Rightarrow> ((int \<times> tunnel) \<times> history) res"
where
  "tunnel_alloc_new_tap K t addr port h =
     bind_res (expand_table K t h) (\<lambda>((ok, t), h).
       if \<not> ok then Inr ((- 1, t), h)
       else if port = 0 then Inl Assert_Failed
       else if ret (fst (sys K Sys_alloc h)) < 0 then Inl Null_Deref
       else
         (let h = sys0 K Sys_alloc h;
              d = tap_zero\<lparr>remote_ip := addr, remote_port := port\<rparr> in
          bind_res (net_create_tap_mq_fds K (tap_base_name t) (num_queues t) (tun_mtu t)
                     (bridge_name t) (tap_name d) h) (\<lambda>((ok, fds, name), h).
            let d = d\<lparr>tap_fds := Live fds, tap_name := name\<rparr> in
            if \<not> ok then Inr ((- 1, set_dev (num_tap_devs t) (d\<lparr>tap_fds := Dangling\<rparr>) t), h)
            else attach_queues K t fds d h)))"

section \<open>Invariant\<close>

definition dev_key :: "tap_dev \<Rightarrow> endpoint" where
  "dev_key d = (remote_ip d, remote_port d)"

definition devs :: "tunnel \<Rightarrow> tap_dev list" where
  "devs t = map the (take (num_tap_devs t) (tap_devs t))"

text \<open>A device of a tunnel with \<open>n\<close> queues: both arrays are there, one element for each queue.\<close>

definition dev_ok :: "nat \<Rightarrow> tap_dev \<Rightarrow> bool" where
  "dev_ok n d \<longleftrightarrow>
     (case tap_fds d of Live fds \<Rightarrow> length fds = n | _ \<Rightarrow> False) \<and>
     (case stats d of Live ss \<Rightarrow> length ss = n | _ \<Rightarrow> False)"

definition slot_ok :: "nat \<Rightarrow> tap_dev option \<Rightarrow> bool" where
  "slot_ok n c \<longleftrightarrow> (case c of None \<Rightarrow> False | Some d \<Rightarrow> dev_ok n d)"

definition devs_wf :: "tunnel \<Rightarrow> bool" where
  "devs_wf t \<longleftrightarrow>
     length (tap_devs t) = tap_devs_allocated t \<and> num_tap_devs t \<le> tap_devs_allocated t \<and>
     num_tap_devs t < 2 ^ 30 \<and>
     length (epoll_fds t) = num_queues t \<and> length (udp_fds t) = num_queues t \<and>
     list_all (slot_ok (num_queues t)) (take (num_tap_devs t) (tap_devs t))"

definition t_wf :: "tunnel \<Rightarrow> bool" where
  "t_wf t \<longleftrightarrow> devs_wf t \<and>
     (case tun_map t of
        Live m \<Rightarrow> em_wf m \<and> routes (em_abs m) (map dev_key (devs t))
      | _ \<Rightarrow> False)"

lemma dev_okE:
  assumes "dev_ok n d"
  obtains fds ss where "tap_fds d = Live fds" "length fds = n" "stats d = Live ss" "length ss = n"
  using assms by (auto simp: dev_ok_def split: ptr.splits)

lemma devs_wfD:
  assumes "devs_wf t"
  shows "length (tap_devs t) = tap_devs_allocated t" "num_tap_devs t \<le> tap_devs_allocated t"
    "num_tap_devs t < 2 ^ 30" "length (epoll_fds t) = num_queues t"
    "length (udp_fds t) = num_queues t" "length (devs t) = num_tap_devs t"
  using assms by (auto simp: devs_wf_def devs_def)

lemma devs_wf_dev:
  assumes "devs_wf t" "i < num_tap_devs t"
  shows "tap_devs t ! i = Some (devs t ! i)" "dev_ok (num_queues t) (devs t ! i)"
proof -
  have i: "i < length (take (num_tap_devs t) (tap_devs t))"
    using assms devs_wfD(1,2) [OF assms(1)] by simp
  with assms(1) have "slot_ok (num_queues t) (take (num_tap_devs t) (tap_devs t) ! i)"
    unfolding devs_wf_def list_all_length by blast
  with assms(2) i show "tap_devs t ! i = Some (devs t ! i)" "dev_ok (num_queues t) (devs t ! i)"
    by (auto simp: devs_def slot_ok_def split: option.splits)
qed

lemma t_wfE:
  assumes "t_wf t"
  obtains m where "devs_wf t" "tun_map t = Live m" "em_wf m" "routes (em_abs m) (map dev_key (devs t))"
  using assms by (auto simp: t_wf_def split: ptr.splits)

lemma t_wfI:
  "devs_wf t \<Longrightarrow> tun_map t = Live m \<Longrightarrow> em_wf m \<Longrightarrow> routes (em_abs m) (map dev_key (devs t)) \<Longrightarrow> t_wf t"
  by (simp add: t_wf_def)

section \<open>What the parts of the allocation do\<close>

lemma expand_table_outcome:
  assumes "expand_table K t h = Inr ((ok, t'), h')" and "length (tap_devs t) = tap_devs_allocated t"
  obtains n where "t' = t\<lparr>tap_devs := tap_devs t @ replicate n None,
      tap_devs_allocated := tap_devs_allocated t + n\<rparr>"
    and "ok \<Longrightarrow> num_tap_devs t \<le> tap_devs_allocated t \<Longrightarrow>
      num_tap_devs t < tap_devs_allocated t + n"
    and "open_fds h' = open_fds h" and "set h \<subseteq> set h'"
proof (cases "tap_devs_allocated t \<le> num_tap_devs t \<and> ok")
  case True
  let ?a = "if tap_devs_allocated t * 2 = 0 then 1 else tap_devs_allocated t * 2"
  from True assms(1) have t': "t' = t\<lparr>tap_devs := tap_devs t @ replicate (?a - length (tap_devs t)) None,
      tap_devs_allocated := ?a\<rparr>" and "h' = h @ [(Sys_alloc, K h Sys_alloc)]"
    by (auto simp: expand_table_def Let_def sys_def split: if_splits)
  with True assms(2) show ?thesis
    by (intro that [of "?a - tap_devs_allocated t"]) (auto simp: fds)
next
  case False
  with assms(1) have "t' = t" "h' = h \<or> h' = h @ [(Sys_alloc, K h Sys_alloc)]"
    by (auto simp: expand_table_def Let_def sys_def split: if_splits)
  with False show ?thesis by (intro that [of 0]) (auto simp: fds)
qed

lemma set_nonblocking_fds:
  "net_set_nonblocking K fd h = (ok, h') \<Longrightarrow> open_fds h' = open_fds h \<and> set h \<subseteq> set h'"
  by (auto simp: net_set_nonblocking_def sys_def fds split: if_splits)

lemma register_queues_outcome:
  assumes "register_queues K epfds fds tap_id is h = Inr (ok, h')"
  shows "open_fds h' = open_fds h \<and> set h \<subseteq> set h' \<and>
    (ok \<longrightarrow> (\<forall>i \<in> set is. done_ok
       (Sys_epoll_add (epfds ! i) (ev_fd (tunnel_epoll_event True tap_id (fds ! i)))
         (tunnel_epoll_event True tap_id (fds ! i))) h'))"
  using assms
proof (induction "is" arbitrary: h)
  case (Cons i "is")
  let ?ev = "tunnel_epoll_event True tap_id (fds ! i)"
  let ?c = "Sys_epoll_add (epfds ! i) (ev_fd ?ev) ?ev"
  obtain nb h1 where nb: "net_set_nonblocking K (ev_fd ?ev) h = (nb, h1)" by fastforce
  note h1 = set_nonblocking_fds [OF nb]
  let ?h2 = "h1 @ [(?c, K h1 ?c)]"
  have h2: "open_fds ?h2 = open_fds h1" by (simp add: fds)
  show ?case
  proof (cases "nb \<and> \<not> ret (K h1 ?c) < 0")
    case True
    with Cons.prems nb have "register_queues K epfds fds tap_id is ?h2 = Inr (ok, h')"
      by (auto simp: sys_def Let_def)
    note IH = Cons.IH [OF this]
    moreover have "done_ok ?c ?h2"
      using True by (auto simp: done_ok_def intro!: exI [of _ "K h1 ?c"])
    then have "done_ok ?c h'" by (rule done_ok_mono) (use IH in blast)
    ultimately show ?thesis using h1 h2 by auto
  next
    case False
    with Cons.prems nb have "\<not> ok" "h' = h1 \<or> h' = ?h2"
      by (auto simp: sys_def Let_def split: if_splits)
    with h1 h2 show ?thesis by auto
  qed
qed simp

text \<open>
  The outcome of the whole function. A failure leaves the devices as they were, but the queues
  of the new device stay open if it was the registration that failed.
\<close>

definition new_dev :: "nat \<Rightarrow> endpoint \<Rightarrow> int list \<Rightarrow> string \<Rightarrow> tap_dev" where
  "new_dev n k fds name = \<lparr>remote_ip = fst k, remote_port = snd k, tap_fds = Live fds,
     stats = Live (replicate n zero_stats), tap_name = name\<rparr>"

definition registered :: "tunnel \<Rightarrow> int \<Rightarrow> int list \<Rightarrow> history \<Rightarrow> bool" where
  "registered t tap_id fds h \<longleftrightarrow>
     (\<forall>i < num_queues t. done_ok
        (Sys_epoll_add (epoll_fds t ! i) (ev_fd (tunnel_epoll_event True tap_id (fds ! i)))
          (tunnel_epoll_event True tap_id (fds ! i))) h)"

text \<open>The tunnel apart from its table of devices.\<close>

definition same_but_devs :: "tunnel \<Rightarrow> tunnel \<Rightarrow> bool" where
  "same_but_devs t t' \<longleftrightarrow>
     (\<exists>cells n a. t' = t\<lparr>tap_devs := cells, num_tap_devs := n, tap_devs_allocated := a\<rparr>)"

lemma grown_table:
  assumes "devs_wf t"
    and "t' = t\<lparr>tap_devs := tap_devs t @ replicate n None,
      tap_devs_allocated := tap_devs_allocated t + n\<rparr>"
  shows "devs_wf t'" "devs t' = devs t" "same_but_devs t t'"
proof -
  note D = devs_wfD [OF assms(1)]
  show "devs_wf t'" using assms D by (simp add: devs_wf_def)
  show "devs t' = devs t" using assms D by (simp add: devs_def)
  show "same_but_devs t t'"
    unfolding same_but_devs_def assms(2)
    by (rule exI [of _ "tap_devs t @ replicate n None"], rule exI [of _ "num_tap_devs t"],
        rule exI [of _ "tap_devs_allocated t + n"]) simp
qed

lemma set_dev_behind:
  assumes "devs_wf t"
  shows "devs_wf (set_dev (num_tap_devs t) d t)" "devs (set_dev (num_tap_devs t) d t) = devs t"
    "same_but_devs t (set_dev (num_tap_devs t) d t)"
proof -
  show "devs_wf (set_dev (num_tap_devs t) d t)" "devs (set_dev (num_tap_devs t) d t) = devs t"
    using assms by (simp_all add: devs_wf_def devs_def set_dev_def)
  show "same_but_devs t (set_dev (num_tap_devs t) d t)"
    unfolding same_but_devs_def set_dev_def
    by (rule exI [of _ "(tap_devs t)[num_tap_devs t := Some d]"], rule exI [of _ "num_tap_devs t"],
        rule exI [of _ "tap_devs_allocated t"]) simp
qed

lemma add_dev:
  assumes "devs_wf t" "num_tap_devs t < tap_devs_allocated t" "num_tap_devs t + 1 < 2 ^ 30"
    and "dev_ok (num_queues t) d"
    and "t' = (set_dev (num_tap_devs t) d t)\<lparr>num_tap_devs := num_tap_devs t + 1\<rparr>"
  shows "devs_wf t'" "devs t' = devs t @ [d]" "same_but_devs t t'"
proof -
  note D = devs_wfD [OF assms(1)]
  have "take (Suc (num_tap_devs t)) ((tap_devs t)[num_tap_devs t := Some d]) =
      take (num_tap_devs t) (tap_devs t) @ [Some d]"
    using assms(2) D by (simp add: take_Suc_conv_app_nth)
  then show "devs_wf t'" "devs t' = devs t @ [d]"
    using assms D by (simp_all add: devs_wf_def devs_def set_dev_def slot_ok_def)
  show "same_but_devs t t'"
    unfolding same_but_devs_def set_dev_def assms(5)
    by (rule exI [of _ "(tap_devs t)[num_tap_devs t := Some d]"], rule exI [of _ "num_tap_devs t + 1"],
        rule exI [of _ "tap_devs_allocated t"]) simp
qed

lemma same_but_devs_trans: "same_but_devs s t \<Longrightarrow> same_but_devs t u \<Longrightarrow> same_but_devs s u"
  unfolding same_but_devs_def by force

lemma same_but_devsD:
  assumes "same_but_devs t t'"
  shows "num_queues t' = num_queues t" "tun_map t' = tun_map t" "epoll_fds t' = epoll_fds t"
    "udp_fds t' = udp_fds t" "tun_mtu t' = tun_mtu t" "allowed_addr_list t' = allowed_addr_list t"
    "tap_base_name t' = tap_base_name t" "bridge_name t' = bridge_name t"
  using assms by (auto simp: same_but_devs_def)

lemma attach_queues_outcome:
  assumes wf: "devs_wf t" and room: "num_tap_devs t < tap_devs_allocated t" "num_tap_devs t + 1 < 2 ^ 30"
    and res: "attach_queues K t fds d h = Inr ((tap_id, t'), h')"
    and live: "tap_fds d = Live fds" "length fds = num_queues t"
  shows "open_fds h' = open_fds h \<and> devs_wf t' \<and> same_but_devs t t' \<and>
    (tap_id = int (num_tap_devs t) \<and> registered t tap_id fds h' \<and>
       devs t' = devs t @ [d\<lparr>stats := Live (replicate (num_queues t) zero_stats)\<rparr>] \<or>
     tap_id = - 1 \<and> devs t' = devs t)"
proof -
  let ?R = "register_queues K (epoll_fds t) fds (int (num_tap_devs t)) [0..<num_queues t] h"
  obtain ok h1 where R: "?R = Inr (ok, h1)"
    using res by (cases ?R) (auto simp: attach_queues_def Let_def)
  note reg = register_queues_outcome [OF R]
  show ?thesis
  proof (cases ok)
    case False
    with res R have "tap_id = - 1" "h' = h1"
      "t' = set_dev (num_tap_devs t) (d\<lparr>tap_fds := Dangling\<rparr>) t"
      by (auto simp: attach_queues_def Let_def)
    with reg set_dev_behind [OF wf] show ?thesis by simp
  next
    case True
    let ?d = "d\<lparr>stats := Live (replicate (num_queues t) zero_stats)\<rparr>"
    have t': "t' = (set_dev (num_tap_devs t) ?d t)\<lparr>num_tap_devs := num_tap_devs t + 1\<rparr>"
      and h': "h' = sys0 K Sys_alloc h1" "tap_id = int (num_tap_devs t)"
      using res R True by (auto simp: attach_queues_def Let_def split: if_splits)
    have "dev_ok (num_queues t) ?d" using live by (simp add: dev_ok_def)
    note a = add_dev [OF wf room this t']
    have sub: "set h1 \<subseteq> set h'" by (auto simp: h' sys0_def sys_def)
    have "registered t tap_id fds h1"
      unfolding registered_def h'(2) using reg True by simp
    then have "registered t tap_id fds h'"
      unfolding registered_def using done_ok_mono [OF _ sub] by blast
    with a reg h' show ?thesis by (simp add: fds)
  qed
qed

lemma alloc_new_tap_outcome:
  assumes fresh: "fresh_fds K" and wf: "devs_wf t" and room: "num_tap_devs t + 1 < 2 ^ 30"
    and res: "tunnel_alloc_new_tap K t addr p h = Inr ((tap_id, t'), h')"
  obtains
    (success) fds name where "tap_id = int (num_tap_devs t)"
      "devs t' = devs t @ [new_dev (num_queues t) (addr, p) fds name]"
      "length fds = num_queues t" "registered t tap_id fds h'"
      "open_fds h' = open_fds h \<union> set fds" "set fds \<inter> open_fds h = {}" "devs_wf t'" "same_but_devs t t'"
  | (failure) fds where "tap_id = - 1" "devs t' = devs t" "devs_wf t'" "same_but_devs t t'"
      "open_fds h' = open_fds h \<union> set fds" "set fds \<inter> open_fds h = {}"
      "fds = [] \<or> length fds = num_queues t"
proof -
  obtain ok1 t1 h1 where e: "expand_table K t h = Inr ((ok1, t1), h1)"
    using res by (cases "expand_table K t h") (auto simp: tunnel_alloc_new_tap_def)
  from expand_table_outcome [OF e devs_wfD(1) [OF wf]] obtain n where
    t1: "t1 = t\<lparr>tap_devs := tap_devs t @ replicate n None,
      tap_devs_allocated := tap_devs_allocated t + n\<rparr>"
    and n: "ok1 \<longrightarrow> num_tap_devs t < tap_devs_allocated t + n" and h1: "open_fds h1 = open_fds h"
    using devs_wfD(2) [OF wf] by metis
  note g = grown_table [OF wf t1]
  note s1 = same_but_devsD [OF g(3)]
  have num: "num_tap_devs t1 = num_tap_devs t" by (simp add: t1)
  show thesis
  proof (cases ok1)
    case False
    with res e have "tap_id = - 1" "t' = t1" "h' = h1"
      by (auto simp: tunnel_alloc_new_tap_def)
    with g h1 show thesis by (intro failure [of "[]"]) auto
  next
    case True
    let ?h2 = "sys0 K Sys_alloc h1"
    have h2: "open_fds ?h2 = open_fds h" using h1 by (simp add: fds)
    from res e True have ok: "p \<noteq> 0" "\<not> ret (fst (sys K Sys_alloc h1)) < 0"
      by (auto simp: tunnel_alloc_new_tap_def split: if_splits)
    define C where "C = net_create_tap_mq_fds K (tap_base_name t) (num_queues t) (tun_mtu t)
      (bridge_name t) [] ?h2"
    obtain ok3 fds name h3 where C: "C = Inr ((ok3, fds, name), h3)"
      using res e True ok by (cases C) (auto simp: C_def tunnel_alloc_new_tap_def Let_def tap_zero_def s1)
    note out = net_create_tap_outcome [OF fresh C [unfolded C_def]]
    let ?d = "tap_zero\<lparr>remote_ip := addr, remote_port := p, tap_fds := Live fds, tap_name := name\<rparr>"
    show thesis
    proof (cases ok3)
      case False
      let ?dang = "set_dev (num_tap_devs t1) (?d\<lparr>tap_fds := Dangling\<rparr>) t1"
      note dang = set_dev_behind [OF g(1)]
      from False res e True ok C have "tap_id = - 1" "t' = ?dang" "h' = h3"
        by (auto simp: C_def tunnel_alloc_new_tap_def Let_def tap_zero_def s1)
      with out(2) [OF False] h2 dang g same_but_devs_trans [OF g(3) dang(3)] show thesis
        by (intro failure [of "[]"]) auto
    next
      case ok3: True
      have att: "attach_queues K t1 fds ?d h3 = Inr ((tap_id, t'), h')"
        using ok3 res e True ok C
        by (auto simp: C_def tunnel_alloc_new_tap_def Let_def tap_zero_def s1)
      have "num_tap_devs t1 < tap_devs_allocated t1" using n True by (simp add: t1)
      note a = attach_queues_outcome [OF g(1) this _ att]
      have a: "open_fds h' = open_fds h3 \<and> devs_wf t' \<and> same_but_devs t1 t' \<and>
        (tap_id = int (num_tap_devs t) \<and> registered t1 tap_id fds h' \<and>
           devs t' = devs t @ [new_dev (num_queues t) (addr, p) fds name] \<or>
         tap_id = - 1 \<and> devs t' = devs t)"
        using a out(1) [OF ok3] num room s1 g(2) by (simp add: new_dev_def tap_zero_def)
      have "registered t tap_id fds h' = registered t1 tap_id fds h'"
        by (simp add: registered_def s1)
      moreover have "open_fds h' = open_fds h \<union> set fds" "set fds \<inter> open_fds h = {}"
        "length fds = num_queues t"
        using a out(1) [OF ok3] h2 by simp_all
      moreover have "same_but_devs t t'" using a same_but_devs_trans [OF g(3)] by blast
      ultimately show thesis using a success [of fds name] failure [of fds] by blast
    qed
  qed
qed

lemma alloc_new_tap_keeps:
  assumes "fresh_fds K" "devs_wf t" "num_tap_devs t + 1 < 2 ^ 30"
    and "tunnel_alloc_new_tap K t addr p h = Inr ((tap_id, t'), h')"
  shows "devs_wf t' \<and> same_but_devs t t' \<and> (0 \<le> tap_id \<longrightarrow> nat tap_id < num_tap_devs t')"
  using assms
proof (cases rule: alloc_new_tap_outcome)
  case (success fds name)
  then show ?thesis using devs_wfD(6) [OF success(7)] devs_wfD(6) [OF assms(2)] by simp
qed simp

lemma expand_table_quiet: "expand_table K t h = Inr (x, h') \<Longrightarrow> traffic h' = traffic h"
  by (auto simp: expand_table_def Let_def split: prod.splits if_splits dest!: sys_quiet)

lemma register_queues_quiet:
  "register_queues K eps fds v is h = Inr (ok, h') \<Longrightarrow> traffic h' = traffic h"
proof (induction "is" arbitrary: h)
  case (Cons i "is")
  then show ?case
    by (auto simp: Let_def split: prod.splits if_splits dest!: sys_quiet set_nonblocking_quiet)
qed simp

lemma attach_queues_quiet: "attach_queues K t fds d h = Inr (x, h') \<Longrightarrow> traffic h' = traffic h"
  by (auto simp: attach_queues_def Let_def sys0_quiet split: if_splits dest!: register_queues_quiet)

lemma alloc_new_tap_quiet:
  "tunnel_alloc_new_tap K t addr p h = Inr (x, h') \<Longrightarrow> traffic h' = traffic h"
  by (auto simp: tunnel_alloc_new_tap_def Let_def sys0_quiet split: if_splits
      dest!: expand_table_quiet net_create_tap_quiet attach_queues_quiet)

lemma attach_queues_grows: "attach_queues K t fs d h = Inr (x, h') \<Longrightarrow> set h \<subseteq> set h'"
  using sys0_grows
  by (auto simp: attach_queues_def Let_def split: if_splits dest!: register_queues_outcome) blast+

lemma alloc_new_tap_grows:
  assumes "tunnel_alloc_new_tap K t addr p h = Inr ((v, t'), h')"
  shows "set h \<subseteq> set h'"
proof -
  obtain ok1 t1 h1 where e: "expand_table K t h = Inr ((ok1, t1), h1)"
    using assms by (cases "expand_table K t h") (auto simp: tunnel_alloc_new_tap_def)
  then have h1: "set h \<subseteq> set h1"
    by (auto simp: expand_table_def Let_def sys_def split: if_splits)
  show ?thesis
  proof (cases ok1)
    case True
    let ?h2 = "sys0 K Sys_alloc h1"
    let ?C = "net_create_tap_mq_fds K (tap_base_name t1) (num_queues t1) (tun_mtu t1) (bridge_name t1) [] ?h2"
    obtain ok3 fs name h3 where C: "?C = Inr ((ok3, fs, name), h3)"
      using assms e True
      by (cases ?C) (auto simp: tunnel_alloc_new_tap_def Let_def tap_zero_def split: if_splits)
    then have "set ?h2 \<subseteq> set h3" by (rule net_create_tap_grows)
    moreover have "h' = h3 \<or> (\<exists>d x. attach_queues K t1 fs d h3 = Inr (x, h'))"
      using assms e True C
      by (auto simp: tunnel_alloc_new_tap_def Let_def tap_zero_def split: if_splits)
    ultimately show ?thesis
      using h1 sys0_grows [of h1 K Sys_alloc] attach_queues_grows by blast
  qed (use assms e h1 in \<open>auto simp: tunnel_alloc_new_tap_def\<close>)
qed

end
