(* ===== verification/Worker.thy ===== *)
theory Worker
  imports Tunnel
begin

text \<open>
  \<^verbatim>\<open>worker_thread\<close> of \<^verbatim>\<open>src/src/tunnel.c\<close>. What the descriptors have pending is the input: a list of
  frames on a TAP queue, a list of datagrams on a UDP socket; a read with nothing pending is the
  \<^verbatim>\<open>EAGAIN\<close> that ends the loop. What is sent and written is in the history of calls. Where the
  thread gives up the lock, a function stands for what other threads do before it holds it again.
\<close>

section \<open>State and surroundings\<close>

datatype lock = Unlocked | Read_Locked | Write_Locked

record worker =
  w_tunnel :: tunnel
  w_history :: history
  w_rand :: nat
  w_lock :: lock

text \<open>
  The surroundings: the kernel, \<^verbatim>\<open>rand()\<close>, the allocator of the endpoint map, other threads, and
  \<^verbatim>\<open>ip_addr_to_str\<close> on the address of a peer.
\<close>

record surroundings =
  kern :: kernel
  rands :: rand
  heap :: "history \<Rightarrow> endpoint_map \<Rightarrow> alloc_env"
  others :: "history \<Rightarrow> tunnel \<Rightarrow> tunnel"
  printed :: "ip_addr \<Rightarrow> string option"

record datagram =
  from_family :: int
  from_addr :: ip_addr
  from_port :: u16
  payload :: "u8 list"

datatype udp_input = Datagram datagram | Recv_Error
datatype tap_input = Frame "u8 list" | Read_Error

text \<open>A call whose reply the caller looks at, and \<^verbatim>\<open>time(NULL)\<close>.\<close>

definition wsys :: "surroundings \<Rightarrow> call \<Rightarrow> worker \<Rightarrow> reply \<times> worker" where
  "wsys E c s = (let (r, h) = sys (kern E) c (w_history s) in (r, s\<lparr>w_history := h\<rparr>))"

definition unlock_lock :: "surroundings \<Rightarrow> lock \<Rightarrow> worker \<Rightarrow> worker" where
  "unlock_lock E l s = s\<lparr>w_tunnel := others E (w_history s) (w_tunnel s), w_lock := l\<rparr>"

section \<open>The queue of a worker\<close>

text \<open>\<^verbatim>\<open>atomic_fetch_add(&t->queue_ids, 1) % t->num_queues\<close>\<close>

definition worker_queue :: "tunnel \<Rightarrow> nat \<times> tunnel" where
  "worker_queue t = (queue_ids t mod num_queues t, t\<lparr>queue_ids := queue_ids t + 1\<rparr>)"

text \<open>The queues that \<open>n\<close> threads take, in the order of their atomic increments.\<close>

fun take_queues :: "nat \<Rightarrow> tunnel \<Rightarrow> nat list \<times> tunnel" where
  "take_queues 0 t = ([], t)"
| "take_queues (Suc n) t =
     (let (q, t) = worker_queue t; (qs, t) = take_queues n t in (q # qs, t))"

lemma take_queues_eq:
  "take_queues n t = (map (\<lambda>i. i mod num_queues t) [queue_ids t..<queue_ids t + n],
     t\<lparr>queue_ids := queue_ids t + n\<rparr>)"
  by (induction n arbitrary: t)
    (simp_all add: worker_queue_def Let_def upt_conv_Cons split_beta del: upt_Suc)

section \<open>From a TAP device to its peer\<close>

text \<open>The device of an id, its descriptor and its counters for a queue.\<close>

definition dev_queue :: "tunnel \<Rightarrow> int \<Rightarrow> nat \<Rightarrow> (tap_dev \<times> int \<times> tunnel_stats list \<times> tunnel_stats) res" where
  "dev_queue t tap_id q =
     (if tap_id < 0 then Inl Out_Of_Bounds
      else bind_res (cell_at (tap_devs t) (nat tap_id)) (\<lambda>d.
        bind_res (deref (tap_fds d)) (\<lambda>fds. bind_res (at_index fds q) (\<lambda>fd.
        bind_res (deref (stats d)) (\<lambda>ss. bind_res (at_index ss q) (\<lambda>st.
          Inr (d, fd, ss, st)))))))"

definition put_stats :: "int \<Rightarrow> nat \<Rightarrow> tap_dev \<Rightarrow> tunnel_stats list \<Rightarrow> tunnel_stats \<Rightarrow> worker \<Rightarrow> worker" where
  "put_stats tap_id q d ss st s =
     s\<lparr>w_tunnel := set_dev (nat tap_id) (d\<lparr>stats := Live (ss[q := st])\<rparr>) (w_tunnel s)\<rparr>"

definition buf_size :: "tunnel \<Rightarrow> nat" where
  "buf_size t = nat (tun_mtu t * 2)"

text \<open>One frame read from the device: it is sent, and the transmission or the error counted.\<close>

definition send_frame :: "surroundings \<Rightarrow> nat \<Rightarrow> int \<Rightarrow> u8 list \<Rightarrow> worker \<Rightarrow> worker res" where
  "send_frame E q tap_id frame s =
     bind_res (dev_queue (w_tunnel s) tap_id q) (\<lambda>(d, fd, ss, st).
       bind_res (at_index (udp_fds (w_tunnel s)) q) (\<lambda>udp_tx_fd.
         let buf = take (buf_size (w_tunnel s)) frame;
             (sent, s) = wsys E (Sys_sendto udp_tx_fd buf (remote_ip d) (remote_port d)) s;
             (now, s) = wsys E Sys_time s;
             st = (if ret sent < 0 then st\<lparr>errorc := errorc st + 1, last_error_time := ret now\<rparr>
                   else st\<lparr>txc := txc st + word_of_int (ret sent), last_send_time := ret now\<rparr>)
         in Inr (put_stats tap_id q d ss st s)))"

text \<open>The loop reads before it looks at the result, so the device is accessed once more at the end.\<close>

fun tap_loop :: "surroundings \<Rightarrow> nat \<Rightarrow> int \<Rightarrow> tap_input list \<Rightarrow> worker \<Rightarrow> worker res" where
  "tap_loop E q tap_id (Frame f # is) s =
     bind_res (send_frame E q tap_id f s) (tap_loop E q tap_id is)"
| "tap_loop E q tap_id (Read_Error # is) s =
     bind_res (dev_queue (w_tunnel s) tap_id q) (\<lambda>_. Inr s)"
| "tap_loop E q tap_id [] s = bind_res (dev_queue (w_tunnel s) tap_id q) (\<lambda>_. Inr s)"

section \<open>From a peer to its TAP device\<close>

definition write_frame :: "surroundings \<Rightarrow> nat \<Rightarrow> int \<Rightarrow> u8 list \<Rightarrow> worker \<Rightarrow> worker res" where
  "write_frame E q tap_id buf s =
     bind_res (dev_queue (w_tunnel s) tap_id q) (\<lambda>(d, fd, ss, st).
       let (sent, s) = wsys E (Sys_write fd buf) s;
           (now, s) = wsys E Sys_time s;
           st = (if ret sent < 0 then st\<lparr>errorc := errorc st + 1, last_error_time := ret now\<rparr>
                 else st\<lparr>rxc := rxc st + word_of_int (ret sent), last_recv_time := ret now\<rparr>)
       in Inr (put_stats tap_id q d ss st s))"

definition allowed :: "tunnel \<Rightarrow> ip_addr \<Rightarrow> bool" where
  "allowed t addr =
     (case allowed_addr_list t of None \<Rightarrow> False | Some l \<Rightarrow> ip_addr_cidr_list_match l addr)"

text \<open>
  The new device under the write lock. The pointer that \<^verbatim>\<open>endpoint_map_add\<close> returns is not stored, so
  the map of the tunnel dangles if the table moved. No id: the device could not be allocated.
\<close>

definition new_endpoint :: "surroundings \<Rightarrow> ip_addr \<Rightarrow> u16 \<Rightarrow> worker \<Rightarrow> (int option \<times> worker) res" where
  "new_endpoint E addr p s =
     bind_res (tunnel_alloc_new_tap (kern E) (w_tunnel s) addr p (w_history s)) (\<lambda>((tap_id, t), h).
       let s = s\<lparr>w_tunnel := t, w_history := h\<rparr> in
       if tap_id < 0 then Inr (None, s)
       else bind_res (deref (tun_map t)) (\<lambda>m.
         case endpoint_map_add (heap E h m) (rands E) (w_rand s) m addr p tap_id of
           None \<Rightarrow> Inl Never_Returns
         | Some res \<Rightarrow>
             Inr (Some tap_id,
                  s\<lparr>w_tunnel := t\<lparr>tun_map := (if add_moved res then Dangling else Live (add_map res))\<rparr>,
                    w_rand := add_rand res\<rparr>)))"

text \<open>The second lookup, when the write lock is held.\<close>

definition under_write_lock :: "surroundings \<Rightarrow> ip_addr \<Rightarrow> u16 \<Rightarrow> worker \<Rightarrow> (int option \<times> worker) res" where
  "under_write_lock E addr p s =
     bind_res (deref (tun_map (w_tunnel s))) (\<lambda>m.
       let tap_id = endpoint_map_lookup m addr p in
       if tap_id \<ge> 0 then Inr (Some tap_id, unlock_lock E Read_Locked s)
       else new_endpoint E addr p s)"

text \<open>The device for a sender that the first lookup did not find: none if it gets no device.\<close>

definition unknown_sender :: "surroundings \<Rightarrow> ip_addr \<Rightarrow> u16 \<Rightarrow> worker \<Rightarrow> (int option \<times> worker) res" where
  "unknown_sender E addr p s =
     (case printed E addr of
        None \<Rightarrow> Inl Assert_Failed
      | Some _ \<Rightarrow>
          if \<not> allowed (w_tunnel s) addr then Inr (None, s)
          else under_write_lock E addr p (unlock_lock E Write_Locked s))"

definition find_tap :: "surroundings \<Rightarrow> ip_addr \<Rightarrow> u16 \<Rightarrow> worker \<Rightarrow> (int option \<times> worker) res" where
  "find_tap E addr p s =
     bind_res (deref (tun_map (w_tunnel s))) (\<lambda>m.
       let tap_id = endpoint_map_lookup m addr p in
       if tap_id < 0 then unknown_sender E addr p s else Inr (Some tap_id, s))"

definition udp_packet :: "surroundings \<Rightarrow> nat \<Rightarrow> datagram \<Rightarrow> worker \<Rightarrow> worker res" where
  "udp_packet E q d s =
     (let buf = take (buf_size (w_tunnel s)) (payload d) in
      if from_family d \<noteq> AF_INET6 then Inr s
      else bind_res (find_tap E (from_addr d) (from_port d) s) (\<lambda>(tap, s).
        case tap of None \<Rightarrow> Inr s | Some tap_id \<Rightarrow> write_frame E q tap_id buf s))"

fun udp_loop :: "surroundings \<Rightarrow> nat \<Rightarrow> udp_input list \<Rightarrow> worker \<Rightarrow> worker res" where
  "udp_loop E q (Datagram d # is) s = bind_res (udp_packet E q d s) (udp_loop E q is)"
| "udp_loop E q (Recv_Error # is) s = Inr s"
| "udp_loop E q [] s = Inr s"

section \<open>Events\<close>

text \<open>
  An event with what is pending on its descriptor; after it the event is armed again. A batch holds
  the read lock from its first event to the end, unless a new device turned it into a write lock.
\<close>

record event =
  ev_data :: u64
  ev_tap :: "tap_input list"
  ev_udp :: "udp_input list"

definition worker_event :: "surroundings \<Rightarrow> nat \<Rightarrow> event \<Rightarrow> worker \<Rightarrow> (bool \<times> worker) res" where
  "worker_event E q ev s =
     bind_res (at_index (epoll_fds (w_tunnel s)) q) (\<lambda>epoll_fd.
       bind_res (if ev_is_tap (ev_data ev) then tap_loop E q (ev_tap_id (ev_data ev)) (ev_tap ev) s
                 else udp_loop E q (ev_udp ev) s) (\<lambda>s.
         let (r, s) = wsys E (Sys_epoll_mod epoll_fd (ev_fd (ev_data ev)) (ev_data ev)) s
         in Inr (\<not> ret r < 0, s)))"

fun worker_events :: "surroundings \<Rightarrow> nat \<Rightarrow> event list \<Rightarrow> worker \<Rightarrow> worker res" where
  "worker_events E q [] s = Inr s"
| "worker_events E q (ev # evs) s =
     bind_res (worker_event E q ev s) (\<lambda>(ok, s). if ok then worker_events E q evs s else Inr s)"

definition worker_batch :: "surroundings \<Rightarrow> nat \<Rightarrow> event list \<Rightarrow> worker \<Rightarrow> worker res" where
  "worker_batch E q evs s =
     bind_res (worker_events E q evs (unlock_lock E Read_Locked s)) (\<lambda>s. Inr (s\<lparr>w_lock := Unlocked\<rparr>))"

text \<open>\<^verbatim>\<open>epoll_wait\<close> gives one batch after another, until it fails.\<close>

fun worker_thread :: "surroundings \<Rightarrow> nat \<Rightarrow> event list list \<Rightarrow> worker \<Rightarrow> worker res" where
  "worker_thread E q [] s = Inr s"
| "worker_thread E q (evs # batches) s =
     bind_res (worker_batch E q evs s) (worker_thread E q batches)"

section \<open>Counters do not touch the routing\<close>

text \<open>What decides where frames go: everything but the counters and the names.\<close>

abbreviation dev_route :: "tap_dev \<Rightarrow> endpoint \<times> int list ptr" where
  "dev_route \<equiv> \<lambda>d. (dev_key d, tap_fds d)"

definition routing ::
  "tunnel \<Rightarrow> (nat \<times> int list \<times> int list \<times> int) \<times> ip_addr_cidr_list option \<times> endpoint_map ptr \<times>
     (endpoint \<times> int list ptr) list"
where
  "routing t = ((num_queues t, udp_fds t, epoll_fds t, tun_mtu t), allowed_addr_list t, tun_map t,
     map (\<lambda>d. (dev_key d, tap_fds d)) (devs t))"

lemma routingD:
  assumes "routing t' = routing t"
  shows "num_queues t' = num_queues t" "udp_fds t' = udp_fds t" "epoll_fds t' = epoll_fds t"
    "tun_mtu t' = tun_mtu t" "allowed_addr_list t' = allowed_addr_list t" "tun_map t' = tun_map t"
    "length (devs t') = length (devs t)" "buf_size t' = buf_size t"
    "map dev_key (devs t') = map dev_key (devs t)" "map tap_fds (devs t') = map tap_fds (devs t)"
    "map dev_route (devs t') = map dev_route (devs t)"
proof -
  have "map (\<lambda>d. (dev_key d, tap_fds d)) (devs t') = map (\<lambda>d. (dev_key d, tap_fds d)) (devs t)"
    using assms by (simp add: routing_def)
  from arg_cong [OF this, of "map fst"] arg_cong [OF this, of "map snd"]
    arg_cong [OF this, of length]
  show "map dev_key (devs t') = map dev_key (devs t)" "map tap_fds (devs t') = map tap_fds (devs t)"
    "length (devs t') = length (devs t)" by (simp_all add: comp_def)
qed (use assms in \<open>simp_all add: routing_def buf_size_def\<close>)

lemma routing_nth:
  assumes "routing t' = routing t" "i < length (devs t)"
  shows "dev_key (devs t' ! i) = dev_key (devs t ! i)" "tap_fds (devs t' ! i) = tap_fds (devs t ! i)"
  using routingD(7,9,10) [OF assms(1)] assms(2) by (metis nth_map)+

definition set_stats :: "nat \<Rightarrow> tunnel_stats list \<Rightarrow> tunnel \<Rightarrow> tunnel" where
  "set_stats i ss t = set_dev i ((devs t ! i)\<lparr>stats := Live ss\<rparr>) t"

lemma set_stats_wf:
  assumes "t_wf t" "i < num_tap_devs t" "length ss = num_queues t"
  shows "t_wf (set_stats i ss t)" "routing (set_stats i ss t) = routing t"
    "num_tap_devs (set_stats i ss t) = num_tap_devs t"
    "devs (set_stats i ss t) = (devs t)[i := (devs t ! i)\<lparr>stats := Live ss\<rparr>]"
proof -
  let ?d = "(devs t ! i)\<lparr>stats := Live ss\<rparr>"
  obtain m where w: "devs_wf t" "tun_map t = Live m" "em_wf m" "routes (em_abs m) (map dev_key (devs t))"
    using assms(1) by (rule t_wfE)
  note D = devs_wfD [OF w(1)]
  note d = devs_wf_dev [OF w(1) assms(2)]
  have take: "take (num_tap_devs t) ((tap_devs t)[i := Some ?d]) =
      (take (num_tap_devs t) (tap_devs t))[i := Some ?d]"
    by (simp add: take_update_swap)
  then show devs: "devs (set_stats i ss t) = (devs t)[i := ?d]"
    by (simp add: devs_def set_stats_def set_dev_def map_update)
  have "map dev_key ((devs t)[i := ?d]) = map dev_key (devs t)"
    and "map (\<lambda>d. (dev_key d, tap_fds d)) ((devs t)[i := ?d]) = map (\<lambda>d. (dev_key d, tap_fds d)) (devs t)"
    using assms(2) D(6) by (simp_all add: map_update dev_key_def list_update_same_conv)
  then have r: "routing (set_stats i ss t) = routing t"
    and keys: "map dev_key (devs (set_stats i ss t)) = map dev_key (devs t)"
    unfolding routing_def devs by (simp_all add: set_stats_def set_dev_def)
  show "routing (set_stats i ss t) = routing t" by (rule r)
  have "dev_ok (num_queues t) ?d" using d(2) assms(3) by (simp add: dev_ok_def)
  then have "list_all (slot_ok (num_queues t)) ((take (num_tap_devs t) (tap_devs t))[i := Some ?d])"
    using w(1) by (intro list_all_update) (simp_all add: devs_wf_def slot_ok_def)
  then have "devs_wf (set_stats i ss t)"
    using w(1) take by (simp add: devs_wf_def set_stats_def set_dev_def)
  then show "t_wf (set_stats i ss t)"
    by (rule t_wfI [of _ m]) (use w keys in \<open>simp_all add: set_stats_def set_dev_def\<close>)
  show "num_tap_devs (set_stats i ss t) = num_tap_devs t" by (simp add: set_stats_def set_dev_def)
qed

lemma dev_queue_ok:
  assumes "devs_wf t" "0 \<le> v" "nat v < num_tap_devs t" "q < num_queues t"
  obtains fds ss where "tap_fds (devs t ! nat v) = Live fds" "stats (devs t ! nat v) = Live ss"
    "length fds = num_queues t" "length ss = num_queues t"
    "dev_queue t v q = Inr (devs t ! nat v, fds ! q, ss, ss ! q)"
proof -
  note D = devs_wfD [OF assms(1)]
  note d = devs_wf_dev [OF assms(1,3)]
  from d(2) obtain fds ss where "tap_fds (devs t ! nat v) = Live fds" "length fds = num_queues t"
    "stats (devs t ! nat v) = Live ss" "length ss = num_queues t"
    by (rule dev_okE)
  with that [of fds ss] d(1) D(1,2) assms show thesis
    by (simp add: dev_queue_def)
qed

section \<open>One frame\<close>

text \<open>The counters after a transfer answered by \<open>r\<close>.\<close>

definition count_tx :: "reply \<Rightarrow> int \<Rightarrow> tunnel_stats \<Rightarrow> tunnel_stats" where
  "count_tx r now st =
     (if ret r < 0 then st\<lparr>errorc := errorc st + 1, last_error_time := now\<rparr>
      else st\<lparr>txc := txc st + word_of_int (ret r), last_send_time := now\<rparr>)"

definition count_rx :: "reply \<Rightarrow> int \<Rightarrow> tunnel_stats \<Rightarrow> tunnel_stats" where
  "count_rx r now st =
     (if ret r < 0 then st\<lparr>errorc := errorc st + 1, last_error_time := now\<rparr>
      else st\<lparr>rxc := rxc st + word_of_int (ret r), last_recv_time := now\<rparr>)"

lemma send_frame_ok:
  assumes wf: "devs_wf (w_tunnel s)" and v: "0 \<le> v" "nat v < num_tap_devs (w_tunnel s)"
    and q: "q < num_queues (w_tunnel s)"
    and fds: "stats (devs (w_tunnel s) ! nat v) = Live ss"
    and c: "c = Sys_sendto (udp_fds (w_tunnel s) ! q) (take (buf_size (w_tunnel s)) f)
      (remote_ip (devs (w_tunnel s) ! nat v)) (remote_port (devs (w_tunnel s) ! nat v))"
    and r: "r = kern E (w_history s) c"
  obtains s' now where "send_frame E q v f s = Inr s'"
    "w_tunnel s' = set_stats (nat v) (ss[q := count_tx r now (ss ! q)]) (w_tunnel s)"
    "traffic (w_history s') = traffic (w_history s) @ [(c, r)]"
    "w_lock s' = w_lock s"
proof -
  let ?t = "w_tunnel s" and ?h1 = "w_history s @ [(c, r)]"
  let ?now = "kern E ?h1 Sys_time"
  let ?s' = "s\<lparr>w_history := ?h1 @ [(Sys_time, ?now)],
    w_tunnel := set_stats (nat v) (ss[q := count_tx r (ret ?now) (ss ! q)]) ?t\<rparr>"
  obtain fs ss' where dq: "dev_queue ?t v q = Inr (devs ?t ! nat v, fs ! q, ss', ss' ! q)"
      "stats (devs ?t ! nat v) = Live ss'"
    using dev_queue_ok [OF wf v q] by metis
  then have "ss' = ss" using fds by simp
  with dq(1) q devs_wfD(5) [OF wf] have "send_frame E q v f s = Inr ?s'"
    by (simp add: send_frame_def wsys_def sys_def Let_def put_stats_def count_tx_def set_stats_def
        c [symmetric] r [symmetric])
  then show thesis by (rule that) (simp_all add: traffic_append c)
qed

lemma write_frame_ok:
  assumes wf: "devs_wf (w_tunnel s)" and v: "0 \<le> v" "nat v < num_tap_devs (w_tunnel s)"
    and q: "q < num_queues (w_tunnel s)"
    and fds: "tap_fds (devs (w_tunnel s) ! nat v) = Live fs" "stats (devs (w_tunnel s) ! nat v) = Live ss"
    and c: "c = Sys_write (fs ! q) buf" and r: "r = kern E (w_history s) c"
  obtains s' now where "write_frame E q v buf s = Inr s'"
    "w_tunnel s' = set_stats (nat v) (ss[q := count_rx r now (ss ! q)]) (w_tunnel s)"
    "traffic (w_history s') = traffic (w_history s) @ [(c, r)]"
    "w_lock s' = w_lock s"
proof -
  let ?t = "w_tunnel s" and ?h1 = "w_history s @ [(c, r)]"
  let ?now = "kern E ?h1 Sys_time"
  let ?s' = "s\<lparr>w_history := ?h1 @ [(Sys_time, ?now)],
    w_tunnel := set_stats (nat v) (ss[q := count_rx r (ret ?now) (ss ! q)]) ?t\<rparr>"
  obtain fs' ss' where dq: "dev_queue ?t v q = Inr (devs ?t ! nat v, fs' ! q, ss', ss' ! q)"
      "stats (devs ?t ! nat v) = Live ss'" "tap_fds (devs ?t ! nat v) = Live fs'"
    using dev_queue_ok [OF wf v q] by metis
  then have "ss' = ss" "fs' = fs" using fds by simp_all
  with dq(1) have "write_frame E q v buf s = Inr ?s'"
    by (simp add: write_frame_def wsys_def sys_def Let_def put_stats_def count_rx_def set_stats_def
        c [symmetric] r [symmetric])
  then show thesis by (rule that) (simp_all add: traffic_append c)
qed

section \<open>All frames of a device\<close>

fun frames_of :: "tap_input list \<Rightarrow> u8 list list" where
  "frames_of (Frame f # is) = f # frames_of is"
| "frames_of (Read_Error # is) = []"
| "frames_of [] = []"

text \<open>What transfers have moved, and how many failed, modulo \<open>2\<close> to the \<open>64\<close>.\<close>

definition bytes_moved :: "history \<Rightarrow> u64" where
  "bytes_moved es = sum_list (map (\<lambda>e. if ret (snd e) < 0 then 0 else word_of_int (ret (snd e))) es)"

definition failed_calls :: "history \<Rightarrow> u64" where
  "failed_calls es = sum_list (map (\<lambda>e. if ret (snd e) < 0 then 1 else 0) es)"

lemma count_tx_counts:
  "txc (count_tx r now st) = txc st + bytes_moved [(c, r)]"
  "errorc (count_tx r now st) = errorc st + failed_calls [(c, r)]"
  "rxc (count_tx r now st) = rxc st"
  by (simp_all add: count_tx_def bytes_moved_def failed_calls_def)

lemma counts_Cons:
  "bytes_moved (e # es) = bytes_moved [e] + bytes_moved es"
  "failed_calls (e # es) = failed_calls [e] + failed_calls es"
  by (simp_all add: bytes_moved_def failed_calls_def)

text \<open>The tunnel with the counters of one queue of one device replaced.\<close>

definition recount :: "int \<Rightarrow> nat \<Rightarrow> tunnel_stats list \<Rightarrow> tunnel_stats \<Rightarrow> tap_dev list \<Rightarrow> tap_dev list" where
  "recount v q ss st ds = ds[nat v := (ds ! nat v)\<lparr>stats := Live (ss[q := st])\<rparr>]"

lemma recount_recount:
  "nat v < length ds \<Longrightarrow> recount v q (ss[q := st]) st' (recount v q ss st ds) = recount v q ss st' ds"
  by (simp add: recount_def)

lemma recount_same:
  "nat v < length ds \<Longrightarrow> stats (ds ! nat v) = Live ss \<Longrightarrow> recount v q ss (ss ! q) ds = ds"
  by (cases "ds ! nat v") (simp add: recount_def list_update_same_conv)

lemma tap_loop_ok:
  assumes "t_wf (w_tunnel s)" and v: "0 \<le> v" "nat v < num_tap_devs (w_tunnel s)"
    and q: "q < num_queues (w_tunnel s)"
    and "stats (devs (w_tunnel s) ! nat v) = Live ss"
  shows "\<exists>s' es st. tap_loop E q v is s = Inr s' \<and>
    traffic (w_history s') = traffic (w_history s) @ es \<and>
    map fst es = map (\<lambda>f. Sys_sendto (udp_fds (w_tunnel s) ! q) (take (buf_size (w_tunnel s)) f)
      (remote_ip (devs (w_tunnel s) ! nat v)) (remote_port (devs (w_tunnel s) ! nat v))) (frames_of is) \<and>
    t_wf (w_tunnel s') \<and> routing (w_tunnel s') = routing (w_tunnel s) \<and> w_lock s' = w_lock s \<and>
    devs (w_tunnel s') = recount v q ss st (devs (w_tunnel s)) \<and>
    txc st = txc (ss ! q) + bytes_moved es \<and> errorc st = errorc (ss ! q) + failed_calls es \<and>
    rxc st = rxc (ss ! q)"
  using assms
proof (induction "is" arbitrary: s ss)
  case Nil
  note v = Nil.prems(2,3) and q = Nil.prems(4)
  have w: "devs_wf (w_tunnel s)" using Nil.prems(1) by (simp add: t_wf_def)
  obtain fs ss' where "dev_queue (w_tunnel s) v q = Inr (devs (w_tunnel s) ! nat v, fs ! q, ss', ss' ! q)"
    using dev_queue_ok [OF w v q] by metis
  then show ?case
    using Nil.prems devs_wfD(6) [OF w]
    by (intro exI [of _ s] exI [of _ "[]"] exI [of _ "ss ! q"])
      (simp add: bytes_moved_def failed_calls_def recount_same)
next
  case (Cons i "is")
  note v = Cons.prems(2,3) and q = Cons.prems(4)
  let ?t = "w_tunnel s"
  have w: "devs_wf ?t" using Cons.prems(1) by (simp add: t_wf_def)
  have len: "nat v < length (devs ?t)" using v(2) devs_wfD(6) [OF w] by simp
  show ?case
  proof (cases i)
    case Read_Error
    obtain fs ss' where "dev_queue ?t v q = Inr (devs ?t ! nat v, fs ! q, ss', ss' ! q)"
      using dev_queue_ok [OF w v q] by metis
    with len Cons.prems show ?thesis
      by (intro exI [of _ s] exI [of _ "[]"] exI [of _ "ss ! q"])
        (simp add: Read_Error bytes_moved_def failed_calls_def recount_same)
  next
    case (Frame f)
    let ?send = "\<lambda>f. Sys_sendto (udp_fds ?t ! q) (take (buf_size ?t) f)
      (remote_ip (devs ?t ! nat v)) (remote_port (devs ?t ! nat v))"
    let ?r = "kern E (w_history s) (?send f)"
    obtain s1 now where s1: "send_frame E q v f s = Inr s1"
      "w_tunnel s1 = set_stats (nat v) (ss[q := count_tx ?r now (ss ! q)]) ?t"
      "traffic (w_history s1) = traffic (w_history s) @ [(?send f, ?r)]" "w_lock s1 = w_lock s"
      using send_frame_ok [OF w Cons.prems(2-5) refl refl] by metis
    let ?ss = "ss[q := count_tx ?r now (ss ! q)]"
    have lss: "length ?ss = num_queues ?t"
      using dev_queue_ok [OF w v q] Cons.prems(5) by (metis length_list_update ptr.inject)
    note u = set_stats_wf [OF Cons.prems(1) v(2) lss, folded s1(2)]
    note r = routingD [OF u(2)]
    have d1: "devs (w_tunnel s1) = recount v q ss (count_tx ?r now (ss ! q)) (devs ?t)"
      by (simp add: u(4) recount_def)
    have dv: "remote_ip (devs (w_tunnel s1) ! nat v) = remote_ip (devs ?t ! nat v)"
      "remote_port (devs (w_tunnel s1) ! nat v) = remote_port (devs ?t ! nat v)"
      "stats (devs (w_tunnel s1) ! nat v) = Live ?ss"
      using len by (simp_all add: d1 recount_def)
    from Cons.IH [OF u(1) v(1) _ _ dv(3)] u(3) v(2) r(1) q obtain s' es st where
      IH: "tap_loop E q v is s1 = Inr s'" "traffic (w_history s') = traffic (w_history s1) @ es"
        "map fst es = map ?send (frames_of is)" "t_wf (w_tunnel s')"
        "routing (w_tunnel s') = routing (w_tunnel s1)" "w_lock s' = w_lock s1"
        "devs (w_tunnel s') = recount v q ?ss st (devs (w_tunnel s1))"
        "txc st = txc (?ss ! q) + bytes_moved es" "errorc st = errorc (?ss ! q) + failed_calls es"
        "rxc st = rxc (?ss ! q)"
      unfolding dv(1,2) r(2,8) by auto
    have "?ss ! q = count_tx ?r now (ss ! q)" using q lss by simp
    moreover have "recount v q ?ss st (devs (w_tunnel s1)) = recount v q ss st (devs ?t)"
      unfolding d1 using len by (rule recount_recount)
    ultimately show ?thesis
      using IH s1 u(2)
      by (intro exI [of _ s'] exI [of _ "(?send f, ?r) # es"] exI [of _ st])
        (simp add: Frame counts_Cons [of "(?send f, ?r)" es] count_tx_counts(1,2) [of ?r now "ss ! q" "?send f"]
          count_tx_counts(3) add.assoc)
  qed
qed

section \<open>A datagram from a known endpoint\<close>

lemma udp_known:
  assumes wf: "t_wf (w_tunnel s)" and m: "tun_map (w_tunnel s) = Live m"
    and known: "em_abs m (from_addr d, from_port d) = Some v"
    and q: "q < num_queues (w_tunnel s)" and fam: "from_family d = AF_INET6"
  shows "\<exists>s' fs r. udp_packet E q d s = Inr s' \<and> 0 \<le> v \<and> nat v < length (devs (w_tunnel s)) \<and>
    dev_key (devs (w_tunnel s) ! nat v) = (from_addr d, from_port d) \<and>
    tap_fds (devs (w_tunnel s) ! nat v) = Live fs \<and>
    traffic (w_history s') = traffic (w_history s) @
      [(Sys_write (fs ! q) (take (buf_size (w_tunnel s)) (payload d)), r)] \<and>
    t_wf (w_tunnel s') \<and> routing (w_tunnel s') = routing (w_tunnel s) \<and> w_lock s' = w_lock s"
proof -
  let ?t = "w_tunnel s" and ?k = "(from_addr d, from_port d)"
  have w: "devs_wf ?t" and em: "em_wf m" and rt: "routes (em_abs m) (map dev_key (devs ?t))"
    using wf m by (auto simp: t_wf_def)
  have look: "endpoint_map_lookup m (from_addr d) (from_port d) = v"
    using em.lookup_abs [OF em, of ?k] known by simp
  note R = routesD [OF rt known]
  from R have v: "0 \<le> v" "nat v < num_tap_devs ?t" "nat v < length (devs ?t)"
    using devs_wfD(6) [OF w] by simp_all
  have key: "dev_key (devs ?t ! nat v) = ?k" using R(3) v(3) by simp
  obtain fs ss where d: "tap_fds (devs ?t ! nat v) = Live fs" "stats (devs ?t ! nat v) = Live ss"
    "length ss = num_queues ?t"
    using dev_queue_ok [OF w v(1,2) q] by metis
  let ?c = "Sys_write (fs ! q) (take (buf_size ?t) (payload d))"
  obtain s' now where s': "write_frame E q v (take (buf_size ?t) (payload d)) s = Inr s'"
    "w_tunnel s' = set_stats (nat v) (ss[q := count_rx (kern E (w_history s) ?c) now (ss ! q)]) ?t"
    "traffic (w_history s') = traffic (w_history s) @ [(?c, kern E (w_history s) ?c)]"
    "w_lock s' = w_lock s"
    using write_frame_ok [OF w v(1,2) q d(1,2) refl refl] by metis
  have "udp_packet E q d s = Inr s'"
    using s'(1) look v(1) m fam by (simp add: udp_packet_def find_tap_def Let_def)
  with s' v(1,3) key d set_stats_wf [OF wf v(2), of "ss[q := count_rx (kern E (w_history s) ?c) now (ss ! q)]"]
  show ?thesis by auto
qed

section \<open>A new endpoint\<close>

text \<open>Every device can be found through the map, not only the other way round.\<close>

definition t_full :: "tunnel \<Rightarrow> bool" where
  "t_full t \<longleftrightarrow> t_wf t \<and>
     (\<forall>m. tun_map t = Live m \<longrightarrow>
        (\<forall>i < length (devs t). em_abs m (dev_key (devs t ! i)) = Some (int i)))"

text \<open>A tunnel only grows: its configuration and the devices there are stay.\<close>

definition extends :: "tunnel \<Rightarrow> tunnel \<Rightarrow> bool" where
  "extends t t' \<longleftrightarrow> num_queues t' = num_queues t \<and> tun_mtu t' = tun_mtu t \<and>
     allowed_addr_list t' = allowed_addr_list t \<and> udp_fds t' = udp_fds t \<and> epoll_fds t' = epoll_fds t \<and>
     (\<exists>ks. map dev_route (devs t') = map dev_route (devs t) @ ks)"

lemma extends_refl [simp]: "extends t t"
  by (simp add: extends_def)

lemma extends_trans: "extends s t \<Longrightarrow> extends t u \<Longrightarrow> extends s u"
  by (auto simp: extends_def)

lemma routing_extends: "routing t' = routing t \<Longrightarrow> extends t t'"
  using routingD [of t' t] by (simp add: extends_def)

lemma extends_nth:
  assumes "extends t t'" "i < length (devs t)"
  shows "i < length (devs t') \<and> dev_key (devs t' ! i) = dev_key (devs t ! i) \<and>
    tap_fds (devs t' ! i) = tap_fds (devs t ! i)"
proof -
  obtain ks where ks: "map dev_route (devs t') = map dev_route (devs t) @ ks"
    using assms(1) by (auto simp: extends_def)
  from arg_cong [OF ks, of length] assms(2) have i: "i < length (devs t')" by simp
  from arg_cong [OF ks, of "\<lambda>xs. xs ! i"] i assms(2) show ?thesis by (simp add: nth_append)
qed

lemma routing_full:
  assumes "t_full t" "t_wf t'" "routing t' = routing t"
  shows "t_full t'" "extends t t'"
proof -
  note r = routingD [OF assms(3)]
  have "dev_key (devs t' ! i) = dev_key (devs t ! i)" if "i < length (devs t)" for i
    using routing_nth(1) [OF assms(3) that] .
  with assms(1,2) r show "t_full t'" by (simp add: t_full_def)
  show "extends t t'" by (rule routing_extends [OF assms(3)])
qed

text \<open>No two devices of a tunnel in full correspondence have the same endpoint.\<close>

lemma full_distinct:
  assumes "t_full t"
  shows "distinct (map dev_key (devs t))"
proof -
  obtain m where "tun_map t = Live m"
    using assms by (auto simp: t_full_def t_wf_def split: ptr.splits)
  with assms have at: "em_abs m (dev_key (devs t ! i)) = Some (int i)" if "i < length (devs t)" for i
    using that by (simp add: t_full_def)
  show ?thesis
    unfolding distinct_conv_nth using at by (metis length_map nth_map of_nat_eq_iff option.inject)
qed

text \<open>
  An allocator that always has memory, extends a block where it is and hands it out without
  entries in it. (The program relies on all three without checking.)
\<close>

definition in_place :: "surroundings \<Rightarrow> bool" where
  "in_place E \<longleftrightarrow>
     (\<forall>h m. fresh_clean (heap E h m) m \<and> env_malloc_ok (heap E h m) \<and>
        env_realloc (heap E h m) \<noteq> None \<and> \<not> env_moves (heap E h m))"

lemma add_in_place:
  assumes "endpoint_map_add env rnd r m addr p v = Some res"
    and "env_malloc_ok env" "env_realloc env \<noteq> None" "\<not> env_moves env"
  shows "add_nonnull res \<and> \<not> add_moved res"
  using assms
  by (auto simp: endpoint_map_add_def rebuild_def Let_def split: if_splits option.splits prod.splits)

lemma new_endpoint_outcome:
  assumes fresh: "fresh_fds (kern E)" and place: "in_place E"
    and full: "t_full (w_tunnel s)" and room: "num_tap_devs (w_tunnel s) + 1 < 2 ^ 30"
    and m: "tun_map (w_tunnel s) = Live m" and new: "em_abs m (addr, p) = None"
    and res: "new_endpoint E addr p s = Inr (tap, s')"
  shows "t_full (w_tunnel s') \<and> traffic (w_history s') = traffic (w_history s) \<and> w_lock s' = w_lock s \<and>
    extends (w_tunnel s) (w_tunnel s') \<and>
    (tap = None \<and> devs (w_tunnel s') = devs (w_tunnel s) \<or>
     (\<exists>fds name. tap = Some (int (length (devs (w_tunnel s)))) \<and>
        devs (w_tunnel s') = devs (w_tunnel s) @ [new_dev (num_queues (w_tunnel s)) (addr, p) fds name]))"
proof -
  let ?t = "w_tunnel s" and ?A = "tunnel_alloc_new_tap (kern E) (w_tunnel s) addr p (w_history s)"
  have w: "devs_wf ?t" and em: "em_wf m" and rt: "routes (em_abs m) (map dev_key (devs ?t))"
    and all: "\<And>i. i < length (devs ?t) \<Longrightarrow> em_abs m (dev_key (devs ?t ! i)) = Some (int i)"
    using full m by (auto simp: t_full_def t_wf_def)
  have len: "length (devs ?t) = num_tap_devs ?t" by (rule devs_wfD(6) [OF w])
  obtain v t1 h1 where A: "?A = Inr ((v, t1), h1)"
    using res by (cases ?A) (auto simp: new_endpoint_def)
  have quiet: "traffic h1 = traffic (w_history s)" by (rule alloc_new_tap_quiet [OF A])
  from fresh w room A show ?thesis
  proof (cases rule: alloc_new_tap_outcome)
    case (failure fds)
    then have s': "tap = None" "s' = s\<lparr>w_tunnel := t1, w_history := h1\<rparr>"
      using res A by (auto simp: new_endpoint_def)
    note c = same_but_devsD [OF failure(4)]
    have "t_full t1" using full failure(2,3) c m by (auto simp: t_full_def t_wf_def)
    with s' quiet failure(2) c show ?thesis by (simp add: extends_def)
  next
    case (success fds name)
    let ?d = "new_dev (num_queues ?t) (addr, p) fds name"
    note c = same_but_devsD [OF success(8)]
    have key: "dev_key ?d = (addr, p)" by (simp add: dev_key_def new_dev_def)
    obtain add where add: "endpoint_map_add (heap E h1 m) (rands E) (w_rand s) m addr p v = Some add"
      and s': "tap = Some v" "s' = s\<lparr>w_tunnel := t1\<lparr>tun_map := (if add_moved add then Dangling
        else Live (add_map add))\<rparr>, w_history := h1, w_rand := add_rand add\<rparr>"
      using res A success(1) c(2) m by (auto simp: new_endpoint_def Let_def split: option.splits)
    have ok: "add_nonnull add \<and> \<not> add_moved add"
      using add_in_place [OF add] place by (simp add: in_place_def)
    have st: "em_stores m (addr, p) v (add_map add)"
      unfolding em_stores_def using add ok place by (auto simp: in_place_def)
    have v: "v = int (length (devs ?t))" "0 \<le> v" "v < 2 ^ 30" using success(1) room len by simp_all
    have abs: "em_abs (add_map add) = (em_abs m)((addr, p) \<mapsto> v)"
      by (rule em.stores_abs [OF em st v(2,3)])
    let ?t' = "t1\<lparr>tun_map := Live (add_map add)\<rparr>"
    have devs': "devs ?t' = devs ?t @ [?d]" using success(2) by (simp add: devs_def)
    have "routes (em_abs (add_map add)) (map dev_key (devs ?t) @ [(addr, p)])"
      using em.routes_stored [OF em rt, of "(addr, p)" "add_map add"] st v by simp
    then have "routes (em_abs (add_map add)) (map dev_key (devs ?t'))"
      by (simp add: devs' key)
    moreover have "devs_wf ?t'" using success(7) by (simp add: devs_wf_def)
    ultimately have "t_wf ?t'"
      using em.stores_inv [OF em st] by (intro t_wfI [of _ "add_map add"]) simp_all
    moreover have "em_abs (add_map add) (dev_key (devs ?t' ! i)) = Some (int i)"
      if "i < length (devs ?t')" for i
    proof (cases "i < length (devs ?t)")
      case True
      with all [OF True] new show ?thesis by (auto simp: devs' nth_append abs)
    next
      case False
      with that have "i = length (devs ?t)" by (simp add: devs')
      then show ?thesis by (simp add: devs' key abs v)
    qed
    ultimately have "t_full ?t'" by (simp add: t_full_def)
    with s' ok quiet c devs' v show ?thesis by (simp add: extends_def) blast
  qed
qed

section \<open>Any datagram\<close>

text \<open>
  What other threads do while the lock is given up: they keep the tunnel in full correspondence and
  only extend it, by at most \<open>n\<close> devices at a time.
\<close>

definition others_ok :: "surroundings \<Rightarrow> bool" where
  "others_ok E \<longleftrightarrow> (\<forall>h t. t_full t \<longrightarrow> t_full (others E h t) \<and> extends t (others E h t))"

definition others_add :: "surroundings \<Rightarrow> nat \<Rightarrow> bool" where
  "others_add E n \<longleftrightarrow> (\<forall>h t. t_full t \<longrightarrow> length (devs (others E h t)) \<le> length (devs t) + n)"

lemma others_okD:
  assumes "others_ok E" "t_full (w_tunnel s)"
  shows "t_full (w_tunnel (unlock_lock E l s))" "extends (w_tunnel s) (w_tunnel (unlock_lock E l s))"
  using assms by (simp_all add: others_ok_def unlock_lock_def)

lemma t_full_map:
  assumes "t_full t"
  obtains m where "tun_map t = Live m" "em_wf m" "routes (em_abs m) (map dev_key (devs t))" "devs_wf t"
  using assms by (auto simp: t_full_def t_wf_def split: ptr.splits)

text \<open>
  What \<open>find_tap\<close> and its parts give: a tunnel that is still full, and the sender's device. The lock
  is given up at most \<open>c\<close> times.
\<close>

definition found :: "surroundings \<Rightarrow> nat \<Rightarrow> worker \<Rightarrow> endpoint \<Rightarrow> int option \<Rightarrow> worker \<Rightarrow> bool" where
  "found E c s k tap s' \<longleftrightarrow> t_full (w_tunnel s') \<and> traffic (w_history s') = traffic (w_history s) \<and>
     extends (w_tunnel s) (w_tunnel s') \<and>
     (\<forall>n. others_add E n \<longrightarrow>
        length (devs (w_tunnel s')) \<le> length (devs (w_tunnel s)) + (c * n + 1)) \<and>
     (\<forall>v. tap = Some v \<longrightarrow> 0 \<le> v \<and> nat v < length (devs (w_tunnel s')) \<and>
        dev_key (devs (w_tunnel s') ! nat v) = k)"

lemma found_trans_unlock:
  assumes f: "found E c (unlock_lock E l s) k tap s'" and full: "t_full (w_tunnel s)"
    and ext: "extends (w_tunnel s) (w_tunnel (unlock_lock E l s))"
  shows "found E (Suc c) s k tap s'"
proof -
  have "length (devs (w_tunnel s')) \<le> length (devs (w_tunnel s)) + (Suc c * n + 1)" if "others_add E n" for n
  proof -
    have "length (devs (w_tunnel s')) \<le> length (devs (w_tunnel (unlock_lock E l s))) + (c * n + 1)"
      using f that by (simp add: found_def)
    moreover have "length (devs (w_tunnel (unlock_lock E l s))) \<le> length (devs (w_tunnel s)) + n"
      using full that by (simp add: others_add_def unlock_lock_def)
    ultimately show ?thesis by simp
  qed
  with f extends_trans [OF ext] show ?thesis by (auto simp: found_def unlock_lock_def)
qed

lemma under_write_lock_found:
  assumes fresh: "fresh_fds (kern E)" and place: "in_place E" and oth: "others_ok E"
    and full: "t_full (w_tunnel s)" and room: "num_tap_devs (w_tunnel s) + 1 < 2 ^ 30"
    and res: "under_write_lock E addr p s = Inr (tap, s')"
  shows "found E 1 s (addr, p) tap s'"
proof -
  let ?k = "(addr, p)"
  obtain m where m: "tun_map (w_tunnel s) = Live m" "em_wf m"
      "routes (em_abs m) (map dev_key (devs (w_tunnel s)))"
    using full by (rule t_full_map)
  let ?v = "endpoint_map_lookup m addr p"
  show ?thesis
  proof (cases "?v < 0")
    case True
    then have new: "em_abs m ?k = None"
      using em.lookup_neg_iff [OF m(2,3), of ?k] by simp
    from True res m(1) have "new_endpoint E addr p s = Inr (tap, s')"
      by (simp add: under_write_lock_def Let_def)
    from new_endpoint_outcome [OF fresh place full room m(1) new this] show ?thesis
      by (auto simp: found_def dev_key_def new_dev_def)
  next
    case False
    from False res m(1) have s': "tap = Some ?v" "s' = unlock_lock E Read_Locked s"
      by (simp_all add: under_write_lock_def Let_def)
    note o = others_okD [OF oth full, of Read_Locked]
    from em.lookup_routes [OF m(2,3), of ?k] False
    have v: "nat ?v < length (devs (w_tunnel s))" "dev_key (devs (w_tunnel s) ! nat ?v) = ?k"
      by auto
    from extends_nth [OF o(2) v(1)] v(2) o False show ?thesis
      by (auto simp: found_def s' unlock_lock_def full others_add_def le_SucI)
  qed
qed

lemma find_tap_found:
  assumes fresh: "fresh_fds (kern E)" and place: "in_place E" and oth: "others_ok E"
    and full: "t_full (w_tunnel s)"
    and room: "num_tap_devs (others E (w_history s) (w_tunnel s)) + 1 < 2 ^ 30"
    and res: "find_tap E addr p s = Inr (tap, s')"
  shows "found E 2 s (addr, p) tap s'"
proof -
  let ?k = "(addr, p)"
  obtain m where m: "tun_map (w_tunnel s) = Live m" "em_wf m"
      "routes (em_abs m) (map dev_key (devs (w_tunnel s)))"
    using full by (rule t_full_map)
  let ?v = "endpoint_map_lookup m addr p"
  consider "\<not> ?v < 0" "tap = Some ?v" "s' = s" | "tap = None" "s' = s"
    | "under_write_lock E addr p (unlock_lock E Write_Locked s) = Inr (tap, s')"
  proof (cases "?v < 0")
    case True
    then have u: "unknown_sender E addr p s = Inr (tap, s')"
      using res m(1) by (simp add: find_tap_def Let_def)
    show thesis
    proof (cases "allowed (w_tunnel s) addr")
      case True
      with u have "under_write_lock E addr p (unlock_lock E Write_Locked s) = Inr (tap, s')"
        by (simp add: unknown_sender_def split: option.splits)
      then show thesis by (rule that(3))
    next
      case False
      with u have "tap = None" "s' = s" by (simp_all add: unknown_sender_def split: option.splits)
      then show thesis by (rule that(2))
    qed
  next
    case False
    with res m(1) have "tap = Some ?v" "s' = s" by (simp_all add: find_tap_def Let_def)
    with False show thesis by (rule that(1))
  qed
  then show ?thesis
  proof cases
    case 1
    with em.lookup_routes [OF m(2,3), of ?k] full show ?thesis by (auto simp: found_def)
  next
    case 2
    with full show ?thesis by (simp add: found_def)
  next
    case 3
    note o = others_okD [OF oth full, of Write_Locked]
    have "num_tap_devs (w_tunnel (unlock_lock E Write_Locked s)) + 1 < 2 ^ 30"
      using room by (simp add: unlock_lock_def)
    from found_trans_unlock [OF under_write_lock_found [OF fresh place oth o(1) this 3] full o(2)]
    show ?thesis by (simp add: numeral_2_eq_2)
  qed
qed

lemma t_full_recount:
  assumes "t_full t" "i < num_tap_devs t" "length ss = num_queues t"
  shows "t_full (set_stats i ss t)"
proof -
  have wf: "t_wf t" using assms(1) by (simp add: t_full_def)
  note u = set_stats_wf [OF wf assms(2,3)]
  from assms(1) u(1) routingD(6,7) [OF u(2)] routing_nth(1) [OF u(2)] show ?thesis
    by (simp add: t_full_def)
qed

text \<open>The one frame that a datagram may cause to be written: its payload, to its sender's device.\<close>

definition to_sender :: "tunnel \<Rightarrow> nat \<Rightarrow> datagram \<Rightarrow> call \<Rightarrow> bool" where
  "to_sender t q d c \<longleftrightarrow>
     (\<exists>i fds. i < length (devs t) \<and> dev_key (devs t ! i) = (from_addr d, from_port d) \<and>
        tap_fds (devs t ! i) = Live fds \<and> q < length fds \<and>
        c = Sys_write (fds ! q) (take (buf_size t) (payload d)))"

lemma extends_buf_size: "extends t t' \<Longrightarrow> buf_size t' = buf_size t"
  by (simp add: extends_def buf_size_def)

lemma to_sender_mono: "to_sender t q d c \<Longrightarrow> extends t t' \<Longrightarrow> to_sender t' q d c"
  unfolding to_sender_def by (metis extends_nth extends_buf_size)

lemma udp_packet_outcome:
  assumes fresh: "fresh_fds (kern E)" and place: "in_place E" and oth: "others_ok E"
    and full: "t_full (w_tunnel s)" and q: "q < num_queues (w_tunnel s)"
    and room: "num_tap_devs (others E (w_history s) (w_tunnel s)) + 1 < 2 ^ 30"
    and res: "udp_packet E q d s = Inr s'"
  shows "t_full (w_tunnel s') \<and> extends (w_tunnel s) (w_tunnel s') \<and>
    (\<forall>n. others_add E n \<longrightarrow> length (devs (w_tunnel s')) \<le> length (devs (w_tunnel s)) + (2 * n + 1)) \<and>
    (traffic (w_history s') = traffic (w_history s) \<or>
     (\<exists>c r. from_family d = AF_INET6 \<and> to_sender (w_tunnel s') q d c \<and>
        traffic (w_history s') = traffic (w_history s) @ [(c, r)]))"
proof (cases "from_family d = AF_INET6")
  case False
  with res full show ?thesis by (simp add: udp_packet_def Let_def)
next
  case fam: True
  let ?k = "(from_addr d, from_port d)" and ?buf = "take (buf_size (w_tunnel s)) (payload d)"
  from res fam obtain tap s1 where tap: "find_tap E (from_addr d) (from_port d) s = Inr (tap, s1)"
    by (auto simp: udp_packet_def Let_def)
  have f: "found E 2 s ?k tap s1" by (rule find_tap_found [OF fresh place oth full room tap])
  show ?thesis
  proof (cases tap)
    case None
    with res fam tap f show ?thesis by (simp add: udp_packet_def found_def)
  next
    case (Some v)
    let ?t = "w_tunnel s1"
    from f Some have v: "0 \<le> v" "nat v < length (devs ?t)" "dev_key (devs ?t ! nat v) = ?k"
      and full1: "t_full ?t" and ext: "extends (w_tunnel s) ?t" and q1: "q < num_queues ?t"
      using q by (simp_all add: found_def extends_def)
    have wf: "t_wf ?t" and w: "devs_wf ?t" using full1 by (simp_all add: t_full_def t_wf_def)
    from w have v': "nat v < num_tap_devs ?t" using v(2) devs_wfD(6) by simp
    obtain fs ss where d: "tap_fds (devs ?t ! nat v) = Live fs" "stats (devs ?t ! nat v) = Live ss"
      "length fs = num_queues ?t" "length ss = num_queues ?t"
      using dev_queue_ok [OF w v(1) v' q1] by metis
    let ?c = "Sys_write (fs ! q) ?buf" and ?r = "kern E (w_history s1) (Sys_write (fs ! q) ?buf)"
    obtain s2 now where s2: "write_frame E q v ?buf s1 = Inr s2"
      "w_tunnel s2 = set_stats (nat v) (ss[q := count_rx ?r now (ss ! q)]) ?t"
      "traffic (w_history s2) = traffic (w_history s1) @ [(?c, ?r)]"
      using write_frame_ok [OF w v(1) v' q1 d(1,2) refl refl] by metis
    have "s' = s2" using res fam tap Some s2(1) by (simp add: udp_packet_def Let_def)
    have l: "length (ss[q := count_rx ?r now (ss ! q)]) = num_queues ?t" using d(4) by simp
    note u = set_stats_wf [OF wf v' l, folded s2(2)]
    have "to_sender ?t q d ?c"
      unfolding to_sender_def using v d(1,3) q1 extends_buf_size [OF ext] by auto
    then have "to_sender (w_tunnel s2) q d ?c"
      by (rule to_sender_mono [OF _ routing_extends [OF u(2)]])
    moreover have "t_full (w_tunnel s2)" unfolding s2(2) by (rule t_full_recount [OF full1 v' l])
    moreover have "extends (w_tunnel s) (w_tunnel s2)"
      by (rule extends_trans [OF ext routing_extends [OF u(2)]])
    ultimately show ?thesis
      using s2(3) f fam routingD(7) [OF u(2)] \<open>s' = s2\<close> by (auto simp: found_def)
  qed
qed

section \<open>Failures\<close>

lemma set_stats_map: "tun_map (set_stats i ss t) = tun_map t"
  by (simp add: set_stats_def set_dev_def)

lemma dangling_map_faults:
  "tun_map (w_tunnel s) = Dangling \<Longrightarrow> from_family d = AF_INET6 \<Longrightarrow>
     udp_packet E q d s = Inl Use_After_Free"
  by (simp add: udp_packet_def find_tap_def Let_def)

text \<open>A sender that is looked up twice in vain, no other thread coming between.\<close>

lemma unknown_goes_to_new_endpoint:
  assumes m: "tun_map (w_tunnel s) = Live m" "em_wf m" "em_abs m (addr, p) = None"
    and ok: "allowed (w_tunnel s) addr" "printed E addr \<noteq> None"
    and alone: "others E (w_history s) (w_tunnel s) = w_tunnel s"
  shows "find_tap E addr p s = new_endpoint E addr p (s\<lparr>w_lock := Write_Locked\<rparr>)"
proof -
  have "endpoint_map_lookup m addr p = - 1"
    using em.lookup_abs [OF m(2), of "(addr, p)"] m(3) by simp
  with m(1) ok alone show ?thesis
    by (auto simp: find_tap_def unknown_sender_def under_write_lock_def unlock_lock_def Let_def)
qed

lemma moved_map_faults:
  assumes fresh: "fresh_fds (kern E)" and wf: "t_wf (w_tunnel s)" and q: "q < num_queues (w_tunnel s)"
    and room: "num_tap_devs (w_tunnel s) + 1 < 2 ^ 30"
    and m: "tun_map (w_tunnel s) = Live m" "em_abs m (from_addr d, from_port d) = None"
    and ok: "allowed (w_tunnel s) (from_addr d)" "printed E (from_addr d) \<noteq> None"
    and alone: "others E (w_history s) (w_tunnel s) = w_tunnel s"
    and alloc: "tunnel_alloc_new_tap (kern E) (w_tunnel s) (from_addr d) (from_port d) (w_history s) =
      Inr ((v, t), h)" "0 \<le> v"
    and add: "endpoint_map_add (heap E h m) (rands E) (w_rand s) m (from_addr d) (from_port d) v = Some res"
      "add_moved res"
    and fam: "from_family d = AF_INET6" "from_family d' = AF_INET6"
  shows "udp_loop E q (Datagram d # Datagram d' # is) s = Inl Use_After_Free"
proof -
  have w: "devs_wf (w_tunnel s)" and em: "em_wf m" using wf m(1) by (auto simp: t_wf_def)
  note k = alloc_new_tap_keeps [OF fresh w room alloc(1)]
  have t: "devs_wf t \<and> num_queues t = num_queues (w_tunnel s) \<and> tun_map t = Live m \<and>
      nat v < length (devs t)"
    using k alloc(2) m(1) same_but_devsD [of "w_tunnel s" t] devs_wfD(6) [of t] by simp
  let ?t = "t\<lparr>tun_map := Dangling\<rparr>"
  let ?s = "s\<lparr>w_tunnel := ?t, w_history := h, w_rand := add_rand res, w_lock := Write_Locked\<rparr>"
  have find: "find_tap E (from_addr d) (from_port d) s = Inr (Some v, ?s)"
    unfolding unknown_goes_to_new_endpoint [OF m(1) em m(2) ok alone]
    using alloc add t by (simp add: new_endpoint_def Let_def)
  have "devs_wf t" using t by blast
  then have t': "devs_wf ?t" "devs ?t = devs t" by (simp_all add: devs_wf_def devs_def)
  have v: "nat v < num_tap_devs (w_tunnel ?s)" using t devs_wfD(6) [of t] by simp
  have w': "devs_wf (w_tunnel ?s)" and q': "q < num_queues (w_tunnel ?s)" using t' q t by simp_all
  obtain fs ss where d: "tap_fds (devs (w_tunnel ?s) ! nat v) = Live fs"
      "stats (devs (w_tunnel ?s) ! nat v) = Live ss"
    using dev_queue_ok [OF w' alloc(2) v q'] by metis
  let ?buf = "take (buf_size (w_tunnel s)) (payload d)"
  obtain s2 where s2: "write_frame E q v ?buf ?s = Inr s2"
      "\<exists>ss'. w_tunnel s2 = set_stats (nat v) ss' (w_tunnel ?s)"
    using write_frame_ok [OF w' alloc(2) v q' d refl refl] by metis
  then have "tun_map (w_tunnel s2) = Dangling" by (auto simp: set_stats_map)
  from dangling_map_faults [OF this fam(2)] s2(1) find fam(1) show ?thesis
    by (simp add: udp_packet_def Let_def)
qed

lemma third_v4_absent:
  assumes "em_wf m" "alloc_entries m \<le> 128"
    and "(v4_mapped x, p) \<in> dom (em_abs m)" "(v4_mapped y, p) \<in> dom (em_abs m)"
    and "x \<noteq> y" "z \<noteq> x" "z \<noteq> y"
    and cls: "\<And>w. same_class (alloc_entries m) (v4_mapped x, p) (v4_mapped w, p)"
    and inj: "\<And>a b. v4_mapped a = v4_mapped b \<longleftrightarrow> a = b"
  shows "em_abs m (v4_mapped z, p) = None"
proof (rule ccontr)
  assume "em_abs m (v4_mapped z, p) \<noteq> None"
  then have "(v4_mapped z, p) \<in> dom (em_abs m)" by blast
  from three_in_class [OF assms(1,3,4) this cls cls] assms(5-7) show False by (simp add: inj)
qed

end
