(* ===== verification/Endpoint_Properties.thy ===== *)
theory Endpoint_Properties
  imports Endpoint_Map
begin

text \<open>
  The properties of the endpoint map (\<^verbatim>\<open>src/src/endpoint_map.c\<close>): lookup and insertion refine a
  finite map, when insertion returns and when it never does, what growing takes in, and what
  removal keeps. The concrete tables of the witnesses are computed by the model's own operations.
\<close>

section \<open>IPv4 peers with one port\<close>

lemma byte_of_v4_mapped: "i < 4 \<Longrightarrow> byte_of i (v4_mapped w) = 0"
  by (rule bit_word_eqI) (simp add: bit_byte_of bit_v4_mapped)

lemma hash_small_v4: "hash_small (v4_mapped x) p n = hash_small (v4_mapped y) p n"
proof -
  have "fold (\<lambda>i h. h XOR byte_of i (v4_mapped x)) [0..<4] b =
      fold (\<lambda>i h. h XOR byte_of i (v4_mapped y)) [0..<4] b" for b
    by (rule List.fold_cong) (auto simp: byte_of_v4_mapped)
  then show ?thesis by (simp add: hash_small_def)
qed

lemma same_class_v4:
  "alloc \<le> 256 \<Longrightarrow> same_class alloc (v4_mapped x, p) (v4_mapped y, p)"
  by (simp add: same_class_def table_index_def hash_small_v4 [of x p 0 y])

lemma v4_mapped_inj: "v4_mapped x = v4_mapped y \<longleftrightarrow> x = y"
  using dword_v4_mapped by metis

lemma third_peer_diverges:
  assumes "em_wf m" and "alloc_entries m \<le> 128"
    and "(v4_mapped x, p) \<in> dom (em_abs m)" and "(v4_mapped y, p) \<in> dom (em_abs m)"
    and "x \<noteq> y" and "z \<noteq> x" and "z \<noteq> y"
    and "env_malloc_ok env" and "env_realloc env = Some fresh" and "length fresh = alloc_entries m"
  shows "endpoint_map_add env rnd r m (v4_mapped z) p v = None"
proof (rule add_third_of_class_diverges [OF assms(1,3,4)])
  fix n assume "n \<in> {alloc_entries m, alloc_entries m * 2}"
  with assms(2) have "n \<le> 256" by auto
  then show "same_class n (v4_mapped x, p) (v4_mapped y, p) \<and>
      same_class n (v4_mapped x, p) (v4_mapped z, p)"
    by (simp add: same_class_v4)
qed (use assms(5-10) in \<open>auto simp: v4_mapped_inj\<close>)

section \<open>A table with two IPv4 peers\<close>

definition example_rand :: rand where
  "example_rand n = word_of_nat n"

definition example_env :: alloc_env where
  "example_env = \<lparr>env_realloc = Some (replicate 32 zero_entry), env_moves = True,
                  env_malloc_ok = True\<rparr>"

text \<open>Under the nonces 0 and 1 every IPv4 peer with port 1234 has the slots 22 and 23.\<close>

definition peer_entry :: "u32 \<Rightarrow> int \<Rightarrow> endpoint_map_entry" where
  "peer_entry w v = \<lparr>remote_addr = v4_mapped w, ent_port = 0xD204, present = True,
                     ent_tap_id = word_of_int v\<rparr>"

definition example_table :: "nat \<Rightarrow> endpoint_map_entry \<Rightarrow> endpoint_map_entry \<Rightarrow> endpoint_map" where
  "example_table n e1 e2 =
     \<lparr>num_entries = n, alloc_entries = 32, nonce_a = 0, nonce_b = 1,
      entries = (replicate 32 zero_entry)[22 := e1, 23 := e2]\<rparr>"

definition example_empty :: endpoint_map where
  "example_empty = example_table 0 zero_entry zero_entry"

definition example_one :: endpoint_map where
  "example_one = example_table 1 (peer_entry 1 0) zero_entry"

definition example_two :: endpoint_map where
  "example_two = example_table 2 (peer_entry 1 0) (peer_entry 2 1)"

lemma example_slots: "hash_slots (example_table n e1 e2) (v4_mapped w) 0xD204 = [22, 23]"
proof -
  have "table_index 32 (v4_mapped 0) 0xD204 0 = 22" "table_index 32 (v4_mapped 0) 0xD204 1 = 23"
    by code_simp+
  then show ?thesis
    using hash_small_v4 [of w "0xD204" _ 0]
    by (simp add: hash_slots_def example_table_def table_index_def)
qed

lemma example_nth:
  "entries (example_table n e1 e2) ! 22 = e1" "entries (example_table n e1 e2) ! 23 = e2"
  by (simp_all add: example_table_def)

lemma example_upd:
  "(example_table n e1 e2)\<lparr>entries := (entries (example_table n e1 e2))[22 := e], num_entries := k\<rparr>
     = example_table k e e2"
  "(example_table n e1 e2)\<lparr>entries := (entries (example_table n e1 e2))[23 := e], num_entries := k\<rparr>
     = example_table k e1 e"
  by (simp_all add: example_table_def list_update_swap)

lemma example_sizes:
  "num_entries (example_table n e1 e2) = n" "alloc_entries (example_table n e1 e2) = 32"
  by (simp_all add: example_table_def)

lemma example_two_count: "example_table (Suc (Suc 0)) = example_table 2"
  by (simp add: numeral_2_eq_2)

lemmas example_simps =
  try_insert_def endpoint_map_remove_def endpoint_map_lookup_def
  example_slots example_nth example_upd example_sizes Let_def

lemma create_wf:
  assumes "endpoint_map_create True rnd r = Some m"
  shows "em_wf m" and "em_abs m = Map.empty" and "alloc_entries m = 32" and "num_entries m = 0"
proof -
  let ?m = "\<lparr>num_entries = 0, alloc_entries = 32, nonce_a = 0, nonce_b = 0, entries = []\<rparr>"
  from assms have m: "m = reset_table ?m (rnd r) (rnd (r + 1))"
    by (simp add: endpoint_map_create_def reset_table_def)
  have "alloc_entries ?m = 2 ^ 5" by simp
  from reset_table_wf [OF this] show "em_wf m" "em_abs m = Map.empty" unfolding m by blast+
  show "alloc_entries m = 32" "num_entries m = 0" by (simp_all add: m reset_table_def)
qed

lemma example_empty_create: "endpoint_map_create True example_rand 0 = Some example_empty"
proof -
  have "(replicate 32 zero_entry)[22 := zero_entry, 23 := zero_entry] = replicate 32 zero_entry"
    by (simp add: list_eq_iff_nth_eq nth_list_update)
  then show ?thesis
    by (simp add: endpoint_map_create_def example_empty_def example_table_def example_rand_def)
qed

lemma example_one_insert:
  "try_insert example_empty (v4_mapped 1) 0xD204 0 = (True, example_one)"
  by (simp add: example_empty_def example_one_def example_simps)
    (simp add: zero_entry_def peer_entry_def)

lemma example_two_insert:
  "try_insert example_one (v4_mapped 2) 0xD204 1 = (True, example_two)"
  by (simp add: example_one_def example_two_def example_simps)
    (simp add: zero_entry_def peer_entry_def v4_mapped_inj example_two_count)

lemma example_two_facts:
  "em_wf example_two" "alloc_entries example_two = 32"
  "em_abs example_two = [(v4_mapped 1, 0xD204) \<mapsto> 0, (v4_mapped 2, 0xD204) \<mapsto> 1]"
proof -
  note c = create_wf [OF example_empty_create]
  note i1 = try_insert_ok [OF c(1) example_one_insert]
  note i2 = try_insert_ok [OF i1(1) example_two_insert]
  show "em_wf example_two" by (rule i2(1))
  show "alloc_entries example_two = 32" using i2(3) i1(3) c(3) by simp
  show "em_abs example_two = [(v4_mapped 1, 0xD204) \<mapsto> 0, (v4_mapped 2, 0xD204) \<mapsto> 1]"
    using i2(2) i1(2) c(2) by simp
qed

section \<open>A full table\<close>

definition full_entry :: "nat \<Rightarrow> endpoint_map_entry" where
  "full_entry i = \<lparr>remote_addr = word_of_nat i, ent_port = 0, present = True,
                   ent_tap_id = word_of_nat i\<rparr>"

definition example_full :: endpoint_map where
  "example_full = \<lparr>num_entries = 32, alloc_entries = 32, nonce_a = 0, nonce_b = 0,
                   entries = map full_entry [0..<32]\<rparr>"

text \<open>Appended bytes that happen to read as an entry.\<close>

definition example_fresh :: "endpoint_map_entry list" where
  "example_fresh = full_entry 40 # replicate 31 zero_entry"

definition example_dirty_env :: alloc_env where
  "example_dirty_env = \<lparr>env_realloc = Some example_fresh, env_moves = True, env_malloc_ok = True\<rparr>"

lemma example_full_wf: "em_wf example_full"
proof -
  have idx: "table_index 32 (word_of_nat i) 0 0 = i" if "i < 32" for i
  proof -
    have "\<forall>i \<in> set [0..<32]. table_index 32 (word_of_nat i) 0 0 = i" by code_simp
    with that show ?thesis by simp
  qed
  have nth: "entries example_full ! i = full_entry i" if "i < 32" for i
    using that by (simp add: example_full_def)
  have all: "\<forall>e \<in> set (entries example_full). present e"
    by (simp add: example_full_def full_entry_def del: upt_rec_numeral)
  have sizes: "alloc_entries example_full = 32" "length (entries example_full) = 32"
    "num_entries example_full = 32"
    by (simp_all add: example_full_def)
  have "placed example_full (entry_key (full_entry i)) i" if "i < 32" for i
    using idx [OF that]
    by (simp add: placed_def sizes) (simp add: example_full_def full_entry_def entry_key_def)
  moreover have "filter present (entries example_full) = entries example_full"
    using all by (simp add: filter_id_conv)
  moreover have "\<exists>k. (32 :: nat) = 2 ^ k" by (rule exI [of _ 5]) simp
  ultimately show ?thesis by (simp add: em_wf_def sizes nth)
qed

lemma example_full_attempt:
  "fst (rehash_attempt (entries example_full @ example_fresh) 41 0 41
     (grown example_full example_fresh) 0 0)"
  by code_simp

section \<open>Removal\<close>

lemma remove_slots_eq:
  assumes wf: "em_wf m"
    and hit: "(addr, p) \<in> dom (em_abs m) \<Longrightarrow>
      i < alloc_entries m \<and> present (entries m ! i) \<and> entry_key (entries m ! i) = (addr, p)"
  shows "endpoint_map_remove m addr p =
    (if (addr, p) \<in> dom (em_abs m) then
       (True, m\<lparr>entries := (entries m)[i := (entries m ! i)\<lparr>present := False\<rparr>],
               num_entries := num_entries m - 1\<rparr>)
     else (False, m))"
proof -
  let ?k = "(addr, p)"
  let ?hit = "\<lambda>j. present (entries m ! j) \<and> entry_key (entries m ! j) = ?k"
  let ?drop = "\<lambda>j. (True, m\<lparr>entries := (entries m)[j := (entries m ! j)\<lparr>present := False\<rparr>],
               num_entries := num_entries m - 1\<rparr>)"
  have *: "endpoint_map_remove m addr p =
      (if ?hit (slot_a m ?k) then ?drop (slot_a m ?k)
       else if ?hit (slot_b m ?k) then ?drop (slot_b m ?k) else (False, m))"
    by (auto simp: endpoint_map_remove_def hash_slots_def Let_def entry_key_def)
  note b = slot_bounds [OF wf, of ?k]
  show ?thesis
  proof (cases "?k \<in> dom (em_abs m)")
    case True
    with hit have i: "i < alloc_entries m" "?hit i" by auto
    have same: "j = i" if "?hit j" "j < alloc_entries m" for j
      using em_wf_unique [OF wf that(2) _ i(1)] that i by auto
    from em_wf_slots [OF wf i(1)] i(2) have "i = slot_a m ?k \<or> i = slot_b m ?k" by blast
    then have "?hit (slot_a m ?k) \<or> ?hit (slot_b m ?k)" using i(2) by auto
    then have "endpoint_map_remove m addr p = ?drop i"
      unfolding * using same [OF _ b(1)] same [OF _ b(2)] by (auto split: if_splits)
    with True show ?thesis by simp
  next
    case False
    then have "em_abs m ?k = None" by blast
    then have "\<not> ?hit j" if "j < alloc_entries m" for j
      using that by (simp add: em_abs_None_iff [OF wf])
    with b False show ?thesis unfolding * by auto
  qed
qed

lemma endpoint_map_remove_lookup:
  assumes wf: "em_wf m"
  shows "endpoint_map_lookup (snd (endpoint_map_remove m addr p)) addr p = - 1"
proof (cases "(addr, p) \<in> dom (em_abs m)")
  case True
  then obtain i where i: "i < alloc_entries m" "present (entries m ! i)"
    "entry_key (entries m ! i) = (addr, p)"
    using em_abs_SomeD [OF wf] by blast
  let ?m = "m\<lparr>entries := (entries m)[i := (entries m ! i)\<lparr>present := False\<rparr>],
    num_entries := num_entries m - 1\<rparr>"
  have m: "snd (endpoint_map_remove m addr p) = ?m"
    using remove_slots_eq [OF wf, of addr p i] i True by simp
  have "\<not> (present (entries ?m ! j) \<and> entry_key (entries ?m ! j) = (addr, p))"
    if "j < alloc_entries m" for j
    using em_wf_unique [OF wf that _ i(1,2)] that i em_wfD(2) [OF wf]
    by (auto simp: nth_list_update entry_key_def)
  from this [OF slot_bounds(1) [OF wf, of "(addr, p)"]]
    this [OF slot_bounds(2) [OF wf, of "(addr, p)"]]
  show ?thesis
    unfolding m by (auto simp: endpoint_map_lookup_def hash_slots_def Let_def entry_key_def)
next
  case False
  then have "em_abs m (addr, p) = None" by blast
  with False show ?thesis
    using remove_slots_eq [OF wf, of addr p 0] lookup_correct [OF wf, of addr p] by simp
qed

section \<open>Properties\<close>

text \<open>
  C9. Lookup refines the map: it returns the stored id of the endpoint, and \<open>-1\<close> for an endpoint
  that is not in the table. A table fresh from \<^verbatim>\<open>endpoint_map_create\<close> holds none.
\<close>

theorem endpoint_map_lookup_refines:
  assumes "em_wf m"
  shows "endpoint_map_lookup m addr p = (case em_abs m (addr, p) of None \<Rightarrow> - 1 | Some v \<Rightarrow> v)"
  using em.lookup_abs [OF assms, of "(addr, p)"] by simp

theorem endpoint_map_lookup_refines_witness:
  "em_wf example_two \<and> endpoint_map_lookup example_two (v4_mapped 2) 0xD204 = 1 \<and>
   endpoint_map_lookup example_two (v4_mapped 3) 0xD204 = - 1"
  using example_two_facts
    endpoint_map_lookup_refines [OF example_two_facts(1), of "v4_mapped 2" "0xD204"]
    endpoint_map_lookup_refines [OF example_two_facts(1), of "v4_mapped 3" "0xD204"]
  by (simp add: v4_mapped_inj)



text \<open>
  C20. Insertion of an endpoint whose two slots are taken returns exactly when some later pair of
  random values is a pair of nonces under which the whole table and the new endpoint find places;
  the loop has no other way out.
\<close>

theorem endpoint_map_add_returns_iff:
  assumes "em_wf m" and "num_entries m < alloc_entries m" and "env_malloc_ok env"
    and "\<not> fst (try_insert m addr p v)"
  shows "(\<exists>res. endpoint_map_add env rnd r m addr p v = Some res) \<longleftrightarrow>
    (\<exists>j. fst (rehash_attempt (entries m) addr p v m (rnd (r + 2 * j)) (rnd (r + 2 * j + 1))))"
proof -
  obtain m1 where ins: "try_insert m addr p v = (False, m1)"
    using assms(4) by (cases "try_insert m addr p v") auto
  then have m1: "m1 = m" by (rule try_insert_full(1) [OF assms(1)])
  obtain k where k: "alloc_entries m = 2 ^ k" using em_wf_pow2 [OF assms(1)] by blast
  have "endpoint_map_add env rnd r m addr p v = rebuild env rnd r m False addr p v"
    using assms(2) ins m1 by (simp add: endpoint_map_add_def)
  then have "(\<exists>res. endpoint_map_add env rnd r m addr p v = Some res) \<longleftrightarrow>
      (\<exists>res. rehash_loop rnd (entries m) addr p v m r 0 = Some res)"
    using assms(3) em_wfD(2) [OF assms(1)] by (auto simp: rebuild_def split: option.splits)
  also have "\<dots> \<longleftrightarrow>
      (\<exists>j. fst (rehash_attempt (entries m) addr p v m (rnd (r + 2 * j)) (rnd (r + 2 * j + 1))))"
    using rehash_loop_returns [OF _ k] rehash_loop_terminates [OF k] by (metis fst_conv prod_cases3)
  finally show ?thesis .
qed

theorem endpoint_map_add_returns_iff_witness:
  "\<not> (\<exists>res. endpoint_map_add example_env example_rand 2 example_two (v4_mapped 3) 0xD204 2 = Some res) \<and>
   \<not> (\<exists>j. fst (rehash_attempt (entries example_two) (v4_mapped 3) 0xD204 2 example_two
          (example_rand (2 + 2 * j)) (example_rand (2 + 2 * j + 1))))"
proof -
  have num: "num_entries example_two < alloc_entries example_two"
    by (simp add: example_two_def example_sizes)
  have full: "\<not> fst (try_insert example_two (v4_mapped 3) 0xD204 2)"
    by (simp add: example_two_def example_simps) (simp add: peer_entry_def v4_mapped_inj)
  have "endpoint_map_add example_env example_rand 2 example_two (v4_mapped 3) 0xD204 2 = None"
  proof (rule third_peer_diverges [of example_two 1 "0xD204" 2 3])
    show "length (replicate 32 zero_entry) = alloc_entries example_two"
      by (simp add: example_two_facts)
  qed (simp_all add: example_two_facts example_env_def)
  with endpoint_map_add_returns_iff [OF example_two_facts(1) num _ full,
      of example_env example_rand 2]
  show ?thesis by (simp add: example_env_def)
qed

text \<open>
  C12. Insertion never returns for the third of three IPv4 peers with the same port, whatever
  \<^verbatim>\<open>rand()\<close> yields, in a table of up to 128 entries: \<^verbatim>\<open>hash_small\<close> reads four bytes that are zero
  in every IPv4-mapped address, so the three share both slots under all nonces.
\<close>

theorem third_ipv4_peer_diverges:
  assumes "em_wf m" and "alloc_entries m \<le> 128"
    and "(v4_mapped x, p) \<in> dom (em_abs m)" and "(v4_mapped y, p) \<in> dom (em_abs m)"
    and "x \<noteq> y" and "z \<noteq> x" and "z \<noteq> y"
    and "env_malloc_ok env" and "env_realloc env = Some fresh" and "length fresh = alloc_entries m"
  shows "endpoint_map_add env rnd r m (v4_mapped z) p v = None"
  by (rule third_peer_diverges [OF assms])

theorem third_ipv4_peer_diverges_witness:
  "endpoint_map_add example_env example_rand 2 example_two (v4_mapped 3) 0xD204 2 = None"
proof (rule third_ipv4_peer_diverges [of example_two 1 "0xD204" 2 3])
  show "length (replicate 32 zero_entry) = alloc_entries example_two"
    by (simp add: example_two_facts)
qed (simp_all add: example_two_facts example_env_def)

text \<open>
  C23. Growing the table takes in what the bytes appended by \<^verbatim>\<open>realloc\<close> happen to hold: after an
  insertion into a full table the endpoints are the old ones, the new one, and every entry that
  those uninitialised bytes read as present, because the copy of the table is made with the new
  size.
\<close>

theorem growth_takes_in_appended_bytes:
  assumes "em_wf m" and "num_entries m \<ge> alloc_entries m"
    and "env_realloc env = Some fresh" and "length fresh = alloc_entries m"
    and "endpoint_map_add env rnd r m addr p v = Some res" and "add_nonnull res"
  shows "dom (em_abs (add_map res)) =
    dom (em_abs m) \<union> entry_key ` {e \<in> set fresh. present e} \<union> {(addr, p)}"
proof -
  have len: "length f = alloc_entries m" if "env_realloc env = Some f" for f
    using that assms(3,4) by simp
  have "dom (table_map fresh) = entry_key ` {e \<in> set fresh. present e}"
    by (auto simp: table_map_def dom_map_of_conv_image_fst image_image)
  with endpoint_map_add_ok(2) [OF assms(1,5,6) len] assms(2,3) show ?thesis by auto
qed

theorem growth_takes_in_appended_bytes_witness:
  "\<exists>res. endpoint_map_add example_dirty_env (\<lambda>_. 0) 0 example_full 41 0 41 = Some res \<and>
     (40, 0) \<in> dom (em_abs (add_map res)) \<and> (40, 0) \<notin> dom (em_abs example_full)"
proof -
  let ?g = "grown example_full example_fresh"
  have pow: "alloc_entries ?g = 2 ^ 6" by (simp add: grown_def example_full_def)
  have tab: "take (alloc_entries ?g) (entries ?g) = entries example_full @ example_fresh"
    by (simp add: grown_def example_full_def example_fresh_def)
  have add_eq: "endpoint_map_add example_dirty_env (\<lambda>_. 0) 0 example_full 41 0 41 =
      rebuild example_dirty_env (\<lambda>_. 0) 0 ?g True 41 0 41"
    by (simp add: endpoint_map_add_def example_dirty_env_def grown_def)
      (simp add: example_full_def)
  have "\<exists>res. rehash_loop (\<lambda>_. 0) (entries example_full @ example_fresh) 41 0 41 ?g 0 0 = Some res"
    by (rule rehash_loop_terminates [OF pow, of _ _ _ _ _ _ 0]) (simp add: example_full_attempt)
  then obtain m' r' n where
    "rehash_loop (\<lambda>_. 0) (entries example_full @ example_fresh) 41 0 41 ?g 0 0 = Some (m', r', n)"
    by auto
  then have add: "endpoint_map_add example_dirty_env (\<lambda>_. 0) 0 example_full 41 0 41 =
      Some \<lparr>add_nonnull = True, add_map = m', add_moved = True, add_rand = r'\<rparr>" (is "_ = Some ?res")
    unfolding add_eq rebuild_def tab by (simp add: example_dirty_env_def)
  have dom: "dom (em_abs (add_map ?res)) = dom (em_abs example_full) \<union>
      entry_key ` {e \<in> set example_fresh. present e} \<union> {(41, 0)}"
    by (rule growth_takes_in_appended_bytes [OF example_full_wf _ _ _ add])
      (simp_all add: example_full_def example_dirty_env_def example_fresh_def)
  have "full_entry 40 \<in> set example_fresh" and "present (full_entry 40)"
    and "entry_key (full_entry 40) = (40, 0)"
    by (simp_all add: example_fresh_def full_entry_def entry_key_def)
  then have "(40, 0) \<in> dom (em_abs (add_map ?res))" unfolding dom by force
  moreover have "em_abs example_full (40, 0) = None" by code_simp
  ultimately show ?thesis using add by (intro exI [of _ ?res]) (auto simp: domIff)
qed

text \<open>
  C30. Removal from a well-formed table reports whether the endpoint was there, takes exactly it out
  of all later lookups, and counts it.
\<close>

theorem endpoint_map_remove_correct:
  assumes "em_wf m" and "endpoint_map_remove m addr p = (ok, m')"
  shows "(ok \<longleftrightarrow> (addr, p) \<in> dom (em_abs m)) \<and>
    endpoint_map_lookup m' addr p = - 1 \<and>
    (\<forall>a q. (a, q) \<noteq> (addr, p) \<longrightarrow> endpoint_map_lookup m' a q = endpoint_map_lookup m a q) \<and>
    num_entries m' + (if ok then 1 else 0) = num_entries m"
proof (cases "(addr, p) \<in> dom (em_abs m)")
  case True
  then obtain i where i: "i < alloc_entries m" "present (entries m ! i)"
    "entry_key (entries m ! i) = (addr, p)"
    using em_abs_SomeD [OF assms(1)] by blast
  let ?e = "(entries m ! i)\<lparr>present := False\<rparr>"
  have m': "ok" "m' = m\<lparr>entries := (entries m)[i := ?e], num_entries := num_entries m - 1\<rparr>"
    using remove_slots_eq [OF assms(1), of addr p i] i True assms(2) by auto
  note D = em_wfD [OF assms(1)]
  have nth: "entries m' ! j = (if j = i then ?e else entries m ! j)" if "j < alloc_entries m" for j
    using that i D(2) by (simp add: m')
  have hold: "holds m' k j \<longleftrightarrow> k \<noteq> (addr, p) \<and> holds m k j" if j: "j < alloc_entries m" for j k
  proof (cases "j = i")
    case True
    with nth [OF j] i show ?thesis by auto
  next
    case False
    with em_wf_unique [OF assms(1) j _ i(1,2)] i(3) have "\<not> holds m (addr, p) j" by auto
    with False nth [OF j] show ?thesis by auto
  qed
  have tap: "entry_tap (entries m' ! j) = entry_tap (entries m ! j)" if "j < alloc_entries m" for j
    using nth [OF that] by (simp add: entry_tap_def)
  have "endpoint_map_lookup m' a q = (if (a, q) = (addr, p) then - 1 else endpoint_map_lookup m a q)"
    for a q
  proof -
    let ?k = "(a, q)"
    have s: "slot_a m' ?k = slot_a m ?k" "slot_b m' ?k = slot_b m ?k" by (simp_all add: m')
    note b = slot_bounds [OF assms(1), of ?k]
    show ?thesis
      unfolding lookup_slots_eq [of m' a q] lookup_slots_eq [of m a q] s
        hold [OF b(1)] hold [OF b(2)] tap [OF b(1)] tap [OF b(2)] by auto
  qed
  moreover have "num_entries m' + 1 = num_entries m"
    using length_filter_remove [of i "entries m" present ?e] i D(2,3) by (simp add: m')
  ultimately show ?thesis using m'(1) True by simp
next
  case False
  then have "\<not> ok" "m' = m"
    using remove_slots_eq [OF assms(1), of addr p 0] assms(2) by auto
  moreover have "em_abs m (addr, p) = None" using False by blast
  ultimately show ?thesis using False lookup_correct [OF assms(1), of addr p] by simp
qed

theorem endpoint_map_remove_correct_witness:
  "\<exists>m'. endpoint_map_remove example_two (v4_mapped 1) 0xD204 = (True, m') \<and>
     endpoint_map_lookup m' (v4_mapped 1) 0xD204 = - 1 \<and>
     endpoint_map_lookup m' (v4_mapped 2) 0xD204 = 1"
proof -
  obtain ok m' where r: "endpoint_map_remove example_two (v4_mapped 1) 0xD204 = (ok, m')"
    by fastforce
  from r endpoint_map_remove_correct [OF example_two_facts(1) r]
    lookup_correct [OF example_two_facts(1), of "v4_mapped 2" "0xD204"]
  show ?thesis by (auto simp: example_two_facts(3) v4_mapped_inj)
qed

text \<open>
  C31. Removal does not keep the table well-formed: after removing one of two endpoints that share
  their slots, inserting the other again stores it twice, and removing it then uncovers the old
  id instead of leaving it absent. (No part of the program calls \<^verbatim>\<open>endpoint_map_remove\<close>.)
\<close>

theorem remove_then_add_leaves_stale_entry:
  "let m1 = snd (endpoint_map_remove example_two (v4_mapped 1) 0xD204);
       m2 = add_map (the (endpoint_map_add example_env example_rand 2 m1 (v4_mapped 2) 0xD204 7));
       m3 = snd (endpoint_map_remove m2 (v4_mapped 2) 0xD204)
   in endpoint_map_lookup m2 (v4_mapped 2) 0xD204 = 7 \<and>
      endpoint_map_lookup m3 (v4_mapped 2) 0xD204 = 1 \<and> \<not> em_wf m1"
proof -
  let ?m1 = "example_table 1 ((peer_entry 1 0)\<lparr>present := False\<rparr>) (peer_entry 2 1)"
  let ?m2 = "example_table 2 (peer_entry 2 7) (peer_entry 2 1)"
  let ?m3 = "example_table 1 ((peer_entry 2 7)\<lparr>present := False\<rparr>) (peer_entry 2 1)"
  have m1: "endpoint_map_remove example_two (v4_mapped 1) 0xD204 = (True, ?m1)"
    by (simp add: example_two_def example_simps) (simp add: peer_entry_def)
  have ins: "try_insert ?m1 (v4_mapped 2) 0xD204 7 = (True, ?m2)"
    by (simp add: example_simps) (simp add: peer_entry_def example_two_count)
  have m3: "endpoint_map_remove ?m2 (v4_mapped 2) 0xD204 = (True, ?m3)"
    by (simp add: example_simps) (simp add: peer_entry_def)
  have l2: "endpoint_map_lookup ?m2 (v4_mapped 2) 0xD204 = 7"
    and l3: "endpoint_map_lookup ?m3 (v4_mapped 2) 0xD204 = 1"
    by (simp_all add: example_simps) (simp_all add: peer_entry_def)
  have "\<not> em_wf ?m1"
  proof
    assume "em_wf ?m1"
    then have "em_wf ?m2" using ins by (rule try_insert_ok(1))
    from endpoint_map_remove_lookup [OF this, of "v4_mapped 2" "0xD204"] m3 l3 show False by simp
  qed
  with m1 ins m3 l2 l3 show ?thesis
    by (simp add: Let_def endpoint_map_add_def example_sizes)
qed

end
