(* ===== verification/Lifecycle.thy ===== *)
theory Lifecycle
  imports Worker Endpoint_Properties
begin

text \<open>
  The life of a tunnel in \<^verbatim>\<open>src/src/tunnel.c\<close>: \<^verbatim>\<open>tunnel_create\<close> with \<^verbatim>\<open>setup_epoll_fds\<close>, \<^verbatim>\<open>tunnel_wait\<close>
  and \<^verbatim>\<open>tunnel_delete\<close>, and \<^verbatim>\<open>tunnel_params\<close> of \<^verbatim>\<open>src/src/tunnel.h\<close>. What a failed step leaves behind,
  \<^verbatim>\<open>tunnel_delete\<close> takes down, so its model comes first.
\<close>

section \<open>Deletion\<close>

fun free_block :: "'a ptr \<Rightarrow> 'a ptr res" where
  "free_block Null = Inr Null"
| "free_block (Live x) = Inr Dangling"
| "free_block Dangling = Inl Double_Free"

text \<open>The inner loop, over \<open>js\<close>: it closes one queue and frees both arrays each time.\<close>

fun delete_dev :: "kernel \<Rightarrow> nat list \<Rightarrow> tap_dev \<Rightarrow> history \<Rightarrow> history res" where
  "delete_dev K [] d h = Inr h"
| "delete_dev K (j # js) d h =
     bind_res (deref (tap_fds d)) (\<lambda>fds. bind_res (at_index fds j) (\<lambda>fd.
     bind_res (free_block (tap_fds d)) (\<lambda>fds'. bind_res (free_block (stats d)) (\<lambda>stats'.
       delete_dev K js (d\<lparr>tap_fds := fds', stats := stats'\<rparr>) (close_positive K [fd] h)))))"

text \<open>The outer loop; its bound, the number of devices, is the bound of the inner one as well.\<close>

fun delete_devs :: "kernel \<Rightarrow> tunnel \<Rightarrow> nat list \<Rightarrow> history \<Rightarrow> history res" where
  "delete_devs K t [] h = Inr h"
| "delete_devs K t (i # is) h =
     bind_res (cell_at (tap_devs t) i) (\<lambda>d.
       bind_res (delete_dev K [0..<num_tap_devs t] d h) (delete_devs K t is))"

text \<open>
  Until they are joined the workers go on (\<open>others\<close>). An array that was not allocated is empty, so
  its loop has nothing to close. The map was freed before if it dangles.
\<close>

definition stop_workers :: "surroundings \<Rightarrow> tunnel \<Rightarrow> history \<Rightarrow> (tunnel \<times> history) res" where
  "stop_workers E t h =
     (let ws = filter (\<lambda>w. w \<noteq> 0) (workers t) in
      if ws = [] then Inr (t, h)
      else bind_res (for_threads (kern E) Sys_thread_cancel ws h) (\<lambda>h.
        bind_res (for_threads (kern E) Sys_thread_join ws h) (\<lambda>h'. Inr (others E h t, h'))))"

definition tunnel_delete :: "surroundings \<Rightarrow> tunnel option \<Rightarrow> history \<Rightarrow> history res" where
  "tunnel_delete E tun h =
     (case tun of
        None \<Rightarrow> Inr h
      | Some t \<Rightarrow>
          bind_res (stop_workers E t h) (\<lambda>(t, h).
          let h = close_positive (kern E) (udp_fds t) h in
          bind_res (delete_devs (kern E) t [0..<num_tap_devs t] h) (\<lambda>h.
          let h = close_positive (kern E) (epoll_fds t) h in
          bind_res (free_block (tun_map t)) (\<lambda>_. Inr h))))"

section \<open>Waiting\<close>

definition tunnel_wait :: "surroundings \<Rightarrow> tunnel \<Rightarrow> history \<Rightarrow> (tunnel \<times> history) res" where
  "tunnel_wait E t h =
     bind_res (for_threads (kern E) Sys_thread_join (workers t) h) (\<lambda>h'. Inr (others E h t, h'))"

section \<open>Parameters\<close>

record tunnel_params =
  p_num_queues :: int
  default_remote_host :: "string option"
  default_remote_port :: int
  allowed_remote_hosts :: "string option"
  bind_iface :: "string option"
  bind_port :: int
  p_mtu :: int
  p_tunnel_name :: "string option"
  p_tap_base_name :: "string option"
  p_bridge_name :: "string option"
  post_exec :: "string option"

definition zero_params :: tunnel_params where
  "zero_params = \<lparr>p_num_queues = 0, default_remote_host = None, default_remote_port = 0,
     allowed_remote_hosts = None, bind_iface = None, bind_port = 0, p_mtu = 0, p_tunnel_name = None,
     p_tap_base_name = None, p_bridge_name = None, post_exec = None\<rparr>"

section \<open>Creation\<close>

text \<open>\<^verbatim>\<open>malloc\<close> and \<^verbatim>\<open>calloc\<close>; \<^verbatim>\<open>must_strdup\<close> and \<^verbatim>\<open>must_asprintf\<close>, which exit when they fail.\<close>

definition alloc :: "kernel \<Rightarrow> history \<Rightarrow> bool \<times> history" where
  "alloc K h = (let (r, h) = sys K Sys_alloc h in (\<not> ret r < 0, h))"

definition must_dup :: "kernel \<Rightarrow> string option \<Rightarrow> history \<Rightarrow> (string \<times> history) res" where
  "must_dup K s h =
     (case s of
        None \<Rightarrow> Inl Null_Deref
      | Some s \<Rightarrow> (case alloc K h of (ok, h) \<Rightarrow> if ok then Inr (s, h) else Inl Exit_Failure))"

definition dup_if :: "kernel \<Rightarrow> string option \<Rightarrow> history \<Rightarrow> (string option \<times> history) res" where
  "dup_if K s h =
     (if s = None then Inr (None, h) else bind_res (must_dup K s h) (\<lambda>(s, h). Inr (Some s, h)))"

text \<open>The structure cleared by \<^verbatim>\<open>memset\<close>, with the name and the number of queues.\<close>

definition new_tunnel :: "string \<Rightarrow> int \<Rightarrow> tunnel" where
  "new_tunnel name n =
     \<lparr>queue_ids = 0, workers = [], num_queues = nat n, num_tap_devs = 0, tap_devs_allocated = 0,
      tun_map = Null, allowed_addr_list = None, tap_devs = [], udp_fds = replicate (nat n) 0,
      epoll_fds = [], tun_name = name, tap_base_name = None, bridge_name = None, tun_mtu = 0\<rparr>"

text \<open>The size of the frames and the names of the devices and the bridge.\<close>

definition name_tunnel :: "kernel \<Rightarrow> tunnel_params \<Rightarrow> tunnel \<Rightarrow> history \<Rightarrow> (tunnel \<times> history) res" where
  "name_tunnel K ps t h =
     bind_res (dup_if K (p_tap_base_name ps) h) (\<lambda>(base, h).
     bind_res (must_dup K (case p_bridge_name ps of Some b \<Rightarrow> Some b | None \<Rightarrow> Some (''br-'' @ tun_name t)) h)
       (\<lambda>(bridge, h).
       Inr (t\<lparr>tun_mtu := (if p_mtu ps > 0 then p_mtu ps else 1500), tap_base_name := base,
              bridge_name := Some bridge\<rparr>, h)))"

text \<open>The loop of \<^verbatim>\<open>setup_epoll_fds\<close>.\<close>

definition register_udp :: "kernel \<Rightarrow> int \<Rightarrow> int \<Rightarrow> history \<Rightarrow> bool \<times> history" where
  "register_udp K epfd fd h =
     (let (ok, h) = net_set_nonblocking K fd h in
      if \<not> ok then (False, h)
      else (let (r, h) = sys K (Sys_epoll_add epfd fd (tunnel_epoll_event False 0 fd)) h in
            (\<not> ret r < 0, h)))"

fun epoll_loop :: "kernel \<Rightarrow> int list \<Rightarrow> nat list \<Rightarrow> int list \<Rightarrow> history \<Rightarrow> ((bool \<times> int list) \<times> history) res" where
  "epoll_loop K udp [] eps h = Inr ((True, eps), h)"
| "epoll_loop K udp (i # is) eps h =
     (let (r, h) = sys K Sys_epoll_create1 h in
      if ret r < 0 then Inr ((False, eps), h)
      else
        (let eps = eps[i := ret r] in
         bind_res (at_index udp i) (\<lambda>fd.
           case register_udp K (ret r) fd h of (ok, h) \<Rightarrow>
             if ok then epoll_loop K udp is eps h else Inr ((False, eps), h))))"

definition setup_epoll_fds :: "kernel \<Rightarrow> tunnel \<Rightarrow> history \<Rightarrow> ((bool \<times> tunnel) \<times> history) res" where
  "setup_epoll_fds K t h =
     (case alloc K h of (ok, h) \<Rightarrow>
        if \<not> ok then Inr ((False, t), h)
        else bind_res (epoll_loop K (udp_fds t) [0..<num_queues t] (replicate (num_queues t) 0) h)
          (\<lambda>((ok, eps), h). Inr ((ok, t\<lparr>epoll_fds := eps\<rparr>), h)))"

text \<open>The allow list, of which there must be one unless there is a default endpoint.\<close>

definition set_allow_list ::
  "kernel \<Rightarrow> pton \<Rightarrow> tunnel_params \<Rightarrow> tunnel \<Rightarrow> history \<Rightarrow> ((bool \<times> tunnel) \<times> history) res"
where
  "set_allow_list K pton ps t h =
     (case allowed_remote_hosts ps of
        None \<Rightarrow> Inr ((default_remote_host ps \<noteq> None, t), h)
      | Some hosts \<Rightarrow>
          (let (malloc_ok, h) = alloc K h; (strdup_ok, h) = (if malloc_ok then alloc K h else (True, h)) in
           bind_res (ip_addr_cidr_list_create_from_str pton malloc_ok strdup_ok hosts) (\<lambda>l.
             Inr ((l \<noteq> None, t\<lparr>allowed_addr_list := l\<rparr>), h))))"

text \<open>An empty map; a failed allocation is not looked at.\<close>

definition set_map :: "surroundings \<Rightarrow> tunnel \<Rightarrow> nat \<Rightarrow> history \<Rightarrow> tunnel \<times> nat \<times> history" where
  "set_map E t r h =
     (let (ok, h) = alloc (kern E) h in
      case endpoint_map_create ok (rands E) r of
        None \<Rightarrow> (t, r, h)
      | Some m \<Rightarrow> (t\<lparr>tun_map := Live m\<rparr>, r + 2, h))"

text \<open>The default endpoint has id \<open>0\<close>; the pointer that is returned is kept here.\<close>

definition add_default ::
  "surroundings \<Rightarrow> ip_addr \<Rightarrow> u16 \<Rightarrow> tunnel \<Rightarrow> nat \<Rightarrow> history \<Rightarrow> ((bool \<times> tunnel \<times> nat) \<times> history) res"
where
  "add_default E addr p t r h =
     bind_res (deref (tun_map t)) (\<lambda>m.
       case endpoint_map_add (heap E h m) (rands E) r m addr p 0 of
         None \<Rightarrow> Inl Never_Returns
       | Some res \<Rightarrow>
           if \<not> add_nonnull res then
             Inr ((False, t\<lparr>tun_map := (if add_moved res then Dangling else Live (add_map res))\<rparr>,
                   add_rand res), h)
           else bind_res (tunnel_alloc_new_tap (kern E) (t\<lparr>tun_map := Live (add_map res)\<rparr>) addr p h)
             (\<lambda>((tap_id, t), h). Inr ((\<not> tap_id < 0, t, add_rand res), h)))"

text \<open>
  The rest of the surroundings of a creation: \<^verbatim>\<open>inet_pton\<close>, whether \<^verbatim>\<open>inet_ntop\<close> succeeds on an
  entry, and what the uninitialised address of the default host happens to hold.
\<close>

record resolver =
  to_addr :: pton
  to_text_ok :: "addrinfo \<Rightarrow> bool"
  junk_addr :: ip_addr

definition default_endpoint ::
  "surroundings \<Rightarrow> resolver \<Rightarrow> tunnel_params \<Rightarrow> tunnel \<Rightarrow> nat \<Rightarrow> history \<Rightarrow>
     ((bool \<times> tunnel \<times> nat) \<times> history) res"
where
  "default_endpoint E R ps t r h =
     (case default_remote_host ps of
        None \<Rightarrow> Inr ((True, t, r), h)
      | Some host \<Rightarrow>
          bind_res (net_lookup_remote_host (kern E) (to_text_ok R) host (junk_addr R) h) (\<lambda>((ok, addr), h).
            if \<not> ok then Inr ((False, t, r), h)
            else add_default E addr (htons (word_of_int (default_remote_port ps))) t r h))"

text \<open>A step that failed ends the construction.\<close>

definition and_then ::
  "((bool \<times> tunnel) \<times> history) res \<Rightarrow> nat \<Rightarrow> (tunnel \<Rightarrow> history \<Rightarrow> ((bool \<times> tunnel \<times> nat) \<times> history) res) \<Rightarrow>
     ((bool \<times> tunnel \<times> nat) \<times> history) res"
where
  "and_then res r k = bind_res res (\<lambda>((ok, t), h). if ok then k t h else Inr ((False, t, r), h))"

definition build_tunnel ::
  "surroundings \<Rightarrow> resolver \<Rightarrow> tunnel_params \<Rightarrow> tunnel \<Rightarrow> nat \<Rightarrow> history \<Rightarrow>
     ((bool \<times> tunnel \<times> nat) \<times> history) res"
where
  "build_tunnel E R ps t r h =
     bind_res (name_tunnel (kern E) ps t h) (\<lambda>(t, h).
     and_then (setup_epoll_fds (kern E) t h) r (\<lambda>t h.
     and_then (set_allow_list (kern E) (to_addr R) ps t h) r (\<lambda>t h.
       case set_map E t r h of (t, r, h) \<Rightarrow> default_endpoint E R ps t r h)))"

text \<open>
  The threads, in order. When one cannot be created the tunnel is deleted, and then the threads
  before it are looked up in the array that the deletion freed.
\<close>

fun start_workers ::
  "surroundings \<Rightarrow> nat list \<Rightarrow> tunnel \<Rightarrow> history \<Rightarrow> (tunnel option \<times> history) res"
where
  "start_workers E [] t h = Inr (Some t, h)"
| "start_workers E (i # is) t h =
     (let (r, h) = sys (kern E) Sys_thread_create h in
      if ret r \<noteq> 0 then
        bind_res (tunnel_delete E (Some t) h) (\<lambda>h. if i > 0 then Inl Use_After_Free else Inr (None, h))
      else start_workers E is (t\<lparr>workers := (workers t)[i := r_out r]\<rparr>) h)"

definition run_tunnel ::
  "surroundings \<Rightarrow> tunnel_params \<Rightarrow> tunnel \<Rightarrow> history \<Rightarrow> (tunnel option \<times> history) res"
where
  "run_tunnel E ps t h =
     (case alloc (kern E) h of (ok, h) \<Rightarrow>
        if \<not> ok then bind_res (tunnel_delete E (Some t) h) (\<lambda>h. Inr (None, h))
        else bind_res (start_workers E [0..<num_queues t] (t\<lparr>workers := replicate (num_queues t) 0\<rparr>) h)
          (\<lambda>(t, h). case (t, post_exec ps) of
             (Some t, Some cmd) \<Rightarrow> Inr (Some t, sys0 (kern E) (Sys_system cmd) h)
           | _ \<Rightarrow> Inr (t, h)))"

definition finish_tunnel ::
  "surroundings \<Rightarrow> resolver \<Rightarrow> tunnel_params \<Rightarrow> tunnel \<Rightarrow> nat \<Rightarrow> history \<Rightarrow>
     ((tunnel option \<times> nat) \<times> history) res"
where
  "finish_tunnel E R ps t r h =
     bind_res (build_tunnel E R ps t r h) (\<lambda>((ok, t, r), h).
       bind_res (if ok then run_tunnel E ps t h
                 else bind_res (tunnel_delete E (Some t) h) (\<lambda>h. Inr (None, h)))
         (\<lambda>(t, h). Inr ((t, r), h)))"

text \<open>The number of queues, and the structure with its sockets; a negative number cannot be allocated.\<close>

definition queue_count :: "kernel \<Rightarrow> tunnel_params \<Rightarrow> history \<Rightarrow> int \<times> history" where
  "queue_count K ps h =
     (if p_num_queues ps = 0 then (let (r, h) = sys K Sys_nprocessors h in (ret r, h))
      else (p_num_queues ps, h))"

definition open_tunnel ::
  "surroundings \<Rightarrow> resolver \<Rightarrow> tunnel_params \<Rightarrow> string \<Rightarrow> int \<Rightarrow> nat \<Rightarrow> history \<Rightarrow>
     ((tunnel option \<times> nat) \<times> history) res"
where
  "open_tunnel E R ps name n r h =
     (let t = new_tunnel name n in
      bind_res (net_create_udp_sock_fds (kern E) (bind_iface ps) (bind_port ps) (num_queues t) (udp_fds t) 0 h)
        (\<lambda>((ok, fds, if_mtu), h).
          let t = t\<lparr>udp_fds := fds\<rparr> in
          if \<not> ok then bind_res (tunnel_delete E (Some t) h) (\<lambda>h. Inr ((None, r), h))
          else if if_mtu - 66 < - (2 ^ 31) then Inl Signed_Overflow
          else finish_tunnel E R ps t r h))"

definition tunnel_create ::
  "surroundings \<Rightarrow> resolver \<Rightarrow> tunnel_params \<Rightarrow> nat \<Rightarrow> history \<Rightarrow> ((tunnel option \<times> nat) \<times> history) res"
where
  "tunnel_create E R ps r h =
     (case alloc (kern E) h of (ok, h) \<Rightarrow>
        if \<not> ok then Inr ((None, r), h)
        else bind_res (must_dup (kern E) (p_tunnel_name ps) h) (\<lambda>(name, h).
          case queue_count (kern E) ps h of (n, h) \<Rightarrow>
          case alloc (kern E) h of (ok, h) \<Rightarrow>
            if n < 0 \<or> \<not> ok then Inr ((None, r), h)
            else open_tunnel E R ps name n r h))"

section \<open>What deletion does\<close>

lemma delete_dev_live:
  assumes "tap_fds d = Live fs" "stats d = Live ss" "0 < length fs"
  shows "delete_dev K [0..<n] d h =
    (if n = 0 then Inr h else if n = 1 then Inr (close_positive K [fs ! 0] h) else Inl Use_After_Free)"
proof -
  consider "n = 0" | "n = 1" | k where "n = Suc (Suc k)"
    by (metis One_nat_def not0_implies_Suc)
  then show ?thesis
    by cases (use assms in \<open>simp_all add: upt_conv_Cons del: upt_Suc\<close>)
qed

text \<open>The positive descriptors of an array, which are those that are closed.\<close>

definition pos :: "int list \<Rightarrow> int set" where
  "pos fds = {fd \<in> set fds. 0 < fd}"

lemma close_pos [fds]: "open_fds (close_positive K fs h) = open_fds h - pos fs"
  by (simp add: fds pos_def)

lemma pos_simps [simp]:
  "pos [] = {}" "pos (replicate n 0) = {}"
  by (auto simp: pos_def)

lemma stop_workers_ok:
  assumes "set (filter (\<lambda>w. w \<noteq> 0) (workers t)) \<subseteq> live_threads h" "distinct (filter (\<lambda>w. w \<noteq> 0) (workers t))"
  obtains t' h' where "stop_workers E t h = Inr (t', h')" "open_fds h' = open_fds h"
    "t' = t \<or> (\<exists>h1. t' = others E h1 t)" "filter (\<lambda>w. w \<noteq> 0) (workers t) = [] \<Longrightarrow> t' = t"
proof (cases "filter (\<lambda>w. w \<noteq> 0) (workers t) = []")
  case True
  then show ?thesis by (intro that [of t h]) (simp_all add: stop_workers_def)
next
  case False
  let ?ws = "filter (\<lambda>w. w \<noteq> 0) (workers t)"
  obtain h1 where h1: "for_threads (kern E) Sys_thread_cancel ?ws h = Inr h1"
      "live_threads h1 = live_threads h" "open_fds h1 = open_fds h"
    using cancel_threads [OF assms(1)] by metis
  obtain h2 where h2: "for_threads (kern E) Sys_thread_join ?ws h1 = Inr h2" "open_fds h2 = open_fds h1"
    using join_threads [OF _ assms(2), of h1] assms(1) h1(2) by metis
  with h1 False show ?thesis
    by (intro that [of "others E h1 t" h2]) (auto simp: stop_workers_def)
qed

lemma tunnel_delete_bare:
  assumes "filter (\<lambda>w. w \<noteq> 0) (workers t) = []" "num_tap_devs t = 0" "tun_map t \<noteq> Dangling"
  obtains h' where "tunnel_delete E (Some t) h = Inr h'"
    "open_fds h' = open_fds h - (pos (udp_fds t) \<union> pos (epoll_fds t))"
  using assms
  by (intro that) (cases "tun_map t", auto simp: tunnel_delete_def stop_workers_def Let_def
      close_pos)

lemma tunnel_delete_idle:
  assumes "t_wf t" "0 < num_queues t" and idle: "\<And>h. others E h t = t"
    and "set (filter (\<lambda>w. w \<noteq> 0) (workers t)) \<subseteq> live_threads h" "distinct (filter (\<lambda>w. w \<noteq> 0) (workers t))"
  shows "(num_tap_devs t = 0 \<longrightarrow> (\<exists>h'. tunnel_delete E (Some t) h = Inr h' \<and>
      open_fds h' = open_fds h - (pos (udp_fds t) \<union> pos (epoll_fds t)))) \<and>
    (num_tap_devs t = 1 \<longrightarrow> (\<exists>fs h'. tap_fds (devs t ! 0) = Live fs \<and> tunnel_delete E (Some t) h = Inr h' \<and>
      open_fds h' = open_fds h - (pos (udp_fds t) \<union> pos [fs ! 0] \<union> pos (epoll_fds t)))) \<and>
    (2 \<le> num_tap_devs t \<longrightarrow> tunnel_delete E (Some t) h = Inl Use_After_Free)"
proof -
  obtain m where w: "devs_wf t" "tun_map t = Live m" using assms(1) by (rule t_wfE)
  obtain h1 where h1: "stop_workers E t h = Inr (t, h1)" "open_fds h1 = open_fds h"
    using stop_workers_ok [OF assms(4,5), of E] idle by metis
  let ?h2 = "close_positive (kern E) (udp_fds t) h1"
  show ?thesis
  proof (cases "num_tap_devs t = 0")
    case True
    with h1 w show ?thesis by (auto simp: tunnel_delete_def Let_def close_pos)
  next
    case False
    note d = devs_wf_dev [OF w(1), of 0]
    obtain fs ss where fs: "tap_fds (devs t ! 0) = Live fs" "length fs = num_queues t"
        "stats (devs t ! 0) = Live ss"
      using d(2) False by (auto elim: dev_okE)
    have cell: "cell_at (tap_devs t) 0 = Inr (devs t ! 0)"
      using d(1) False devs_wfD(1,2) [OF w(1)] by simp
    have dev: "delete_dev (kern E) [0..<num_tap_devs t] (devs t ! 0) ?h2 =
        (if num_tap_devs t = 1 then Inr (close_positive (kern E) [fs ! 0] ?h2) else Inl Use_After_Free)"
      using delete_dev_live [OF fs(1,3), of "kern E" "num_tap_devs t" ?h2] fs(2) assms(2) False by simp
    have "[0..<num_tap_devs t] = 0 # [1..<num_tap_devs t]" using False by (simp add: upt_conv_Cons)
    with h1 w cell dev False fs(1) show ?thesis
      by (auto simp: tunnel_delete_def Let_def close_pos simp del: close_positive.simps)
  qed
qed

section \<open>What the steps of a creation do\<close>

lemma alloc_fds: "alloc K h = (ok, h') \<Longrightarrow> open_fds h' = open_fds h \<and> set h \<subseteq> set h' \<and> live_threads h' = live_threads h"
  by (auto simp: alloc_def sys_def fds live_threads_append)

lemma must_dup_fds:
  "must_dup K s h = Inr (s', h') \<Longrightarrow> s = Some s' \<and> open_fds h' = open_fds h \<and> set h \<subseteq> set h'"
  by (auto simp: must_dup_def split: option.splits prod.splits if_splits dest: alloc_fds)

lemma dup_if_fds:
  "dup_if K s h = Inr (s', h') \<Longrightarrow> s' = s \<and> open_fds h' = open_fds h \<and> set h \<subseteq> set h'"
  by (auto simp: dup_if_def split: if_splits dest: must_dup_fds)

lemma name_tunnel_outcome:
  assumes "name_tunnel K ps t h = Inr (t', h')"
  shows "t' = t\<lparr>tun_mtu := (if p_mtu ps > 0 then p_mtu ps else 1500), tap_base_name := p_tap_base_name ps,
      bridge_name := Some (case p_bridge_name ps of Some b \<Rightarrow> b | None \<Rightarrow> ''br-'' @ tun_name t)\<rparr>"
    and "open_fds h' = open_fds h" "set h \<subseteq> set h'"
proof -
  obtain base h1 where b: "dup_if K (p_tap_base_name ps) h = Inr (base, h1)"
    using assms by (auto simp: name_tunnel_def)
  obtain bridge where d: "must_dup K (case p_bridge_name ps of Some b \<Rightarrow> Some b
        | None \<Rightarrow> Some (''br-'' @ tun_name t)) h1 = Inr (bridge, h')"
      "t' = t\<lparr>tun_mtu := (if p_mtu ps > 0 then p_mtu ps else 1500), tap_base_name := base,
        bridge_name := Some bridge\<rparr>"
    using assms b by (auto simp: name_tunnel_def)
  note dup_if_fds [OF b] must_dup_fds [OF d(1)]
  with d(2) show "t' = t\<lparr>tun_mtu := (if p_mtu ps > 0 then p_mtu ps else 1500),
      tap_base_name := p_tap_base_name ps,
      bridge_name := Some (case p_bridge_name ps of Some b \<Rightarrow> b | None \<Rightarrow> ''br-'' @ tun_name t)\<rparr>"
    and "open_fds h' = open_fds h" "set h \<subseteq> set h'"
    by (auto split: option.splits)
qed

lemma register_udp_outcome:
  assumes "register_udp K epfd fd h = (ok, h')"
  shows "open_fds h' = open_fds h \<and> set h \<subseteq> set h' \<and>
    (ok \<longrightarrow> done_ok (Sys_epoll_add epfd fd (tunnel_epoll_event False 0 fd)) h')"
proof -
  obtain nb h1 where nb: "net_set_nonblocking K fd h = (nb, h1)" by fastforce
  let ?c = "Sys_epoll_add epfd fd (tunnel_epoll_event False 0 fd)"
  note h1 = set_nonblocking_fds [OF nb]
  from assms nb have "\<not> ok \<and> h' = h1 \<or> h' = h1 @ [(?c, K h1 ?c)] \<and> (ok \<longrightarrow> \<not> ret (K h1 ?c) < 0)"
    by (auto simp: register_udp_def sys_def split: if_splits)
  with h1 show ?thesis
    by (auto simp: fds done_ok_def intro!: exI [of _ "K h1 ?c"])
qed

text \<open>The UDP socket of a queue is watched by the queue's epoll descriptor.\<close>

definition watched :: "int list \<Rightarrow> int list \<Rightarrow> history \<Rightarrow> nat \<Rightarrow> bool" where
  "watched eps udp h i \<longleftrightarrow>
     done_ok (Sys_epoll_add (eps ! i) (udp ! i) (tunnel_epoll_event False 0 (udp ! i))) h"

lemma pos_update:
  assumes "i < length eps" "eps ! i = 0" "0 < fd"
  shows "pos (eps[i := fd]) = insert fd (pos eps)"
proof -
  have "eps = take i eps @ 0 # drop (Suc i) eps"
    using id_take_nth_drop [OF assms(1)] assms(2) by simp
  then have "pos eps = pos (take i eps @ 0 # drop (Suc i) eps)" by simp
  with assms(3) show ?thesis
    by (auto simp: upd_conv_take_nth_drop [OF assms(1)] pos_def)
qed

lemma epoll_loop_outcome:
  assumes fresh: "fresh_fds K"
    and "epoll_loop K udp is eps h = Inr ((ok, eps'), h')"
    and "distinct is" "\<forall>i \<in> set is. i < length eps \<and> eps ! i = 0" "pos eps \<subseteq> open_fds h"
  shows "length eps' = length eps \<and> set h \<subseteq> set h' \<and> open_fds h' = open_fds h \<union> pos eps' \<and>
    pos eps' \<inter> open_fds h \<subseteq> pos eps \<and> (\<forall>k. k \<notin> set is \<longrightarrow> eps' ! k = eps ! k) \<and>
    (ok \<longrightarrow> (\<forall>i \<in> set is. watched eps' udp h' i))"
  using assms(2-)
proof (induction "is" arbitrary: eps h)
  case Nil
  then show ?case by auto
next
  case (Cons i "is")
  let ?r = "K h Sys_epoll_create1" and ?h1 = "h @ [(Sys_epoll_create1, K h Sys_epoll_create1)]"
  show ?case
  proof (cases "ret ?r < 0")
    case True
    with Cons.prems show ?thesis by (auto simp: sys_def fds)
  next
    case False
    then have new: "0 < ret ?r" "ret ?r \<notin> open_fds h" using fresh_fdsD [OF fresh, of _ h] by simp_all
    let ?eps = "eps[i := ret ?r]"
    have i: "i < length eps" "eps ! i = 0" "i \<notin> set is" using Cons.prems by simp_all
    have h1: "open_fds ?h1 = insert (ret ?r) (open_fds h)" using False by (simp add: fds)
    have pos: "pos ?eps = insert (ret ?r) (pos eps)" using i new(1) by (simp add: pos_update)
    obtain reg h2 where reg: "register_udp K (ret ?r) (udp ! i) ?h1 = (reg, h2)" by fastforce
    have udp: "i < length udp" using Cons.prems(1) False
      by (auto simp: sys_def at_index_def Let_def split: if_splits)
    note r = register_udp_outcome [OF reg]
    show ?thesis
    proof (cases reg)
      case reg_ok: True
      have rec: "epoll_loop K udp is ?eps h2 = Inr ((ok, eps'), h')"
        using Cons.prems(1) False reg reg_ok udp by (simp add: sys_def Let_def)
      have pre: "distinct is" "pos ?eps \<subseteq> open_fds h2"
          "\<forall>k \<in> set is. k < length ?eps \<and> ?eps ! k = 0"
        using Cons.prems(2-4) i(3) r h1 pos by (auto simp: nth_list_update)
      note IH = Cons.IH [OF rec pre(1,3,2)]
      have "eps' ! i = ret ?r" using IH i by simp
      then have "watched eps' udp h2 i" using r reg_ok by (simp add: watched_def)
      moreover have "set h2 \<subseteq> set h'" using IH by blast
      ultimately have "watched eps' udp h' i" unfolding watched_def by (rule done_ok_mono)
      moreover have "ret ?r \<in> pos eps'"
        using \<open>eps' ! i = ret ?r\<close> i(1) new(1) IH nth_mem [of i eps'] by (simp add: pos_def)
      moreover have "\<forall>k. k \<notin> set (i # is) \<longrightarrow> eps' ! k = eps ! k" using IH by simp
      moreover have "length eps' = length eps" using IH by simp
      moreover have "set h \<subseteq> set h'" using IH r by auto
      moreover have "open_fds h' = open_fds h \<union> pos eps'" using IH r h1 calculation by auto
      moreover have "pos eps' \<inter> open_fds h \<subseteq> pos eps"
      proof
        fix fd assume fd: "fd \<in> pos eps' \<inter> open_fds h"
        then have "fd \<in> pos ?eps" using IH r h1 by auto
        with fd new pos show "fd \<in> pos eps" by auto
      qed
      ultimately show ?thesis using IH by auto
    next
      case reg_no: False
      with Cons.prems(1) False reg udp have "\<not> ok" "eps' = ?eps" "h' = h2"
        by (simp_all add: sys_def Let_def)
      with r h1 pos new i Cons.prems(4) show ?thesis by auto
    qed
  qed
qed

text \<open>A tunnel under construction, with the descriptors it has opened besides those of \<open>A\<close>.\<close>

definition bare :: "tunnel \<Rightarrow> bool" where
  "bare t \<longleftrightarrow> queue_ids t = 0 \<and> workers t = [] \<and> num_tap_devs t = 0 \<and> tap_devs_allocated t = 0 \<and>
     tap_devs t = [] \<and> length (udp_fds t) = num_queues t"

definition holds :: "int set \<Rightarrow> tunnel \<Rightarrow> history \<Rightarrow> bool" where
  "holds A t h \<longleftrightarrow> open_fds h = A \<union> pos (udp_fds t) \<union> pos (epoll_fds t) \<and>
     A \<inter> (pos (udp_fds t) \<union> pos (epoll_fds t)) = {}"

lemma setup_epoll_outcome:
  assumes fresh: "fresh_fds K" and t: "bare t" "epoll_fds t = []" "holds A t h"
    and res: "setup_epoll_fds K t h = Inr ((ok, t'), h')"
  obtains eps where "t' = t\<lparr>epoll_fds := eps\<rparr>" "holds A t' h'" "set h \<subseteq> set h'"
    "ok \<Longrightarrow> length eps = num_queues t \<and> (\<forall>i < num_queues t. watched eps (udp_fds t) h' i)"
proof -
  obtain a h1 where a: "alloc K h = (a, h1)" by fastforce
  note h1 = alloc_fds [OF a]
  show thesis
  proof (cases a)
    case False
    with res a have "\<not> ok" "t' = t" "h' = h1" by (simp_all add: setup_epoll_fds_def)
    with h1 t show thesis by (intro that [of "[]"]) (auto simp: holds_def)
  next
    case True
    with res a obtain eps where
      loop: "epoll_loop K (udp_fds t) [0..<num_queues t] (replicate (num_queues t) 0) h1 = Inr ((ok, eps), h')"
      and t': "t' = t\<lparr>epoll_fds := eps\<rparr>"
      by (auto simp: setup_epoll_fds_def)
    note o = epoll_loop_outcome [OF fresh loop]
    have o: "length eps = num_queues t" "set h1 \<subseteq> set h'" "open_fds h' = open_fds h1 \<union> pos eps"
        "pos eps \<inter> open_fds h1 = {}" "ok \<longrightarrow> (\<forall>i < num_queues t. watched eps (udp_fds t) h' i)"
      using o by auto
    then have "holds A t' h'" using t(2,3) h1 t' by (auto simp: holds_def)
    with o t' h1 show thesis by (intro that [of eps]) auto
  qed
qed

text \<open>The allow list that the hosts of the parameters stand for.\<close>

definition parsed_list :: "pton \<Rightarrow> string option \<Rightarrow> ip_addr_cidr_list option \<Rightarrow> bool" where
  "parsed_list pton hosts l \<longleftrightarrow>
     (case hosts of
        None \<Rightarrow> l = None
      | Some s \<Rightarrow> l \<noteq> None \<and> ip_addr_cidr_list_create_from_str pton True True s = Inr l)"

lemma set_allow_list_outcome:
  assumes "set_allow_list K pton ps t h = Inr ((ok, t'), h')" "allowed_addr_list t = None"
  obtains l where "t' = t\<lparr>allowed_addr_list := l\<rparr>" "open_fds h' = open_fds h" "set h \<subseteq> set h'"
    "ok \<Longrightarrow> parsed_list pton (allowed_remote_hosts ps) l"
    "ok \<Longrightarrow> allowed_remote_hosts ps = None \<Longrightarrow> default_remote_host ps \<noteq> None"
proof (cases "allowed_remote_hosts ps")
  case None
  with assms show thesis
    by (intro that [of None]) (auto simp: set_allow_list_def parsed_list_def)
next
  case (Some s)
  obtain a h1 where a: "alloc K h = (a, h1)" by fastforce
  obtain b h2 where b: "(if a then alloc K h1 else (True, h1)) = (b, h2)" by fastforce
  from assms(1) Some a b obtain l where
    l: "ip_addr_cidr_list_create_from_str pton a b s = Inr l" "ok = (l \<noteq> None)"
      "t' = t\<lparr>allowed_addr_list := l\<rparr>" "h' = h2"
    by (auto simp: set_allow_list_def Let_def)
  moreover have "a \<and> b" if "l \<noteq> None"
    using that l(1) by (auto simp: ip_addr_cidr_list_create_from_str_def Let_def split: if_splits)
  moreover have "open_fds h2 = open_fds h \<and> set h \<subseteq> set h2"
    using alloc_fds [OF a] alloc_fds [of K h1 b h2] b by (cases a) auto
  ultimately show thesis
    using Some by (intro that [of l]) (auto simp: parsed_list_def)
qed

lemma set_map_outcome:
  assumes "set_map E t r h = (t', r', h')"
  shows "open_fds h' = open_fds h" "set h \<subseteq> set h'"
    "(\<exists>m. t' = t\<lparr>tun_map := Live m\<rparr> \<and> em_wf m \<and> em_abs m = Map.empty \<and> num_entries m < alloc_entries m) \<or>
     t' = t \<and> ret (kern E h Sys_alloc) < 0"
proof -
  obtain a h1 where a: "alloc (kern E) h = (a, h1)" by fastforce
  note alloc_fds [OF a]
  moreover have "h' = h1" using assms a by (auto simp: set_map_def split: option.splits)
  ultimately show "open_fds h' = open_fds h" "set h \<subseteq> set h'" by simp_all
  show "(\<exists>m. t' = t\<lparr>tun_map := Live m\<rparr> \<and> em_wf m \<and> em_abs m = Map.empty \<and> num_entries m < alloc_entries m) \<or>
     t' = t \<and> ret (kern E h Sys_alloc) < 0"
  proof (cases a)
    case True
    then obtain m where m: "endpoint_map_create True (rands E) r = Some m"
      by (simp add: endpoint_map_create_def)
    with assms a True create_wf [OF m] show ?thesis by (auto simp: set_map_def)
  next
    case False
    with assms a show ?thesis
      by (auto simp: set_map_def endpoint_map_create_def alloc_def sys_def)
  qed
qed

text \<open>The first endpoint of a map never grows it.\<close>

lemma first_endpoint:
  assumes "em_wf m" "em_abs m = Map.empty" "num_entries m < alloc_entries m"
    and "endpoint_map_add env rnd r m addr p 0 = Some res" "add_nonnull res"
  shows "em_wf (add_map res)" "em_abs (add_map res) = [(addr, p) \<mapsto> 0]"
proof -
  have "rebuild (env\<lparr>env_realloc := None\<rparr>) rnd r m' b addr p 0 = rebuild env rnd r m' b addr p 0"
    for m' b by (simp add: rebuild_def)
  then have "endpoint_map_add (env\<lparr>env_realloc := None\<rparr>) rnd r m addr p 0 = Some res"
    using assms(3,4) by (auto simp: endpoint_map_add_def split: prod.splits if_splits)
  from endpoint_map_add_ok [OF assms(1) this assms(5)] assms(2,3)
  show "em_wf (add_map res)" "em_abs (add_map res) = [(addr, p) \<mapsto> 0]"
    by simp_all
qed

text \<open>What a tunnel is to be, by its parameters, once it is built.\<close>

definition resolved :: "kernel \<Rightarrow> resolver \<Rightarrow> string \<Rightarrow> ip_addr \<Rightarrow> history \<Rightarrow> bool" where
  "resolved K R host addr h \<longleftrightarrow>
     (\<exists>h0. (Sys_getaddrinfo host, K h0 (Sys_getaddrinfo host)) \<in> set h \<and>
        resolved_addr (to_text_ok R) (r_addrs (K h0 (Sys_getaddrinfo host))) (junk_addr R) = Inr (True, addr))"

definition default_dev :: "kernel \<Rightarrow> resolver \<Rightarrow> tunnel_params \<Rightarrow> tunnel \<Rightarrow> history \<Rightarrow> bool" where
  "default_dev K R ps t h \<longleftrightarrow>
     (case default_remote_host ps of
        None \<Rightarrow> devs t = []
      | Some host \<Rightarrow>
          (\<exists>addr fs name. resolved K R host addr h \<and>
             devs t = [new_dev (num_queues t) (addr, htons (word_of_int (default_remote_port ps))) fs name] \<and>
             registered t 0 fs h))"

definition dev_fds :: "tap_dev \<Rightarrow> int set" where
  "dev_fds d = (case tap_fds d of Live fs \<Rightarrow> set fs | _ \<Rightarrow> {})"

definition all_fds :: "tunnel \<Rightarrow> int set" where
  "all_fds t = pos (udp_fds t) \<union> pos (epoll_fds t) \<union> \<Union> (dev_fds ` set (devs t))"

lemma bare_wf: "bare t \<Longrightarrow> length (epoll_fds t) = num_queues t \<Longrightarrow> devs_wf t \<and> devs t = []"
  by (simp add: bare_def devs_wf_def devs_def)

lemma add_default_outcome:
  assumes fresh: "fresh_fds (kern E)" and t: "bare t" "length (epoll_fds t) = num_queues t" "holds A t h"
    and m: "tun_map t = Live m" "em_wf m" "em_abs m = Map.empty" "num_entries m < alloc_entries m"
    and res: "add_default E addr p t r h = Inr ((True, t', r'), h')"
  obtains fs name where "t_full t'" "devs t' = [new_dev (num_queues t) (addr, p) fs name]"
    "registered t' 0 fs h'" "open_fds h' = A \<union> all_fds t'" "queue_ids t' = 0" "workers t' = []"
    "udp_fds t' = udp_fds t" "epoll_fds t' = epoll_fds t" "num_queues t' = num_queues t"
    "tun_mtu t' = tun_mtu t" "allowed_addr_list t' = allowed_addr_list t" "set h \<subseteq> set h'"
proof -
  obtain a where a: "endpoint_map_add (heap E h m) (rands E) r m addr p 0 = Some a"
    using res m(1) by (auto simp: add_default_def split: option.splits)
  let ?t = "t\<lparr>tun_map := Live (add_map a)\<rparr>"
  let ?A = "tunnel_alloc_new_tap (kern E) ?t addr p h"
  obtain v t1 h1 where A: "?A = Inr ((v, t1), h1)"
    using res m(1) a by (cases ?A) (auto simp: add_default_def split: if_splits)
  have ok: "add_nonnull a" "0 \<le> v" "t' = t1" "h' = h1"
    using res m(1) a A by (auto simp: add_default_def split: if_splits)
  note f = first_endpoint [OF m(2-4) a ok(1)]
  have b: "bare ?t" "length (epoll_fds ?t) = num_queues ?t" using t(1,2) by (simp_all add: bare_def)
  note w = bare_wf [OF b]
  have room: "num_tap_devs ?t + 1 < 2 ^ 30" using t(1) by (simp add: bare_def)
  from fresh w [THEN conjunct1] room A show thesis
  proof (cases rule: alloc_new_tap_outcome)
    case failure
    with ok(2) show thesis by simp
  next
    case (success fs name)
    note c = same_but_devsD [OF success(8)]
    have devs: "devs t1 = [new_dev (num_queues t) (addr, p) fs name]" using success(2) w by simp
    have v: "v = 0" using success(1) t(1) by (simp add: bare_def)
    have wf: "t_wf t1"
    proof (rule t_wfI)
      show "tun_map t1 = Live (add_map a)" using c by simp
      show "routes (em_abs (add_map a)) (map dev_key (devs t1))"
        by (auto simp: f devs routes_def dev_key_def new_dev_def split: if_splits)
    qed (use success f in auto)
    then have "t_full t1" using c f by (simp add: t_full_def devs dev_key_def new_dev_def)
    moreover have "registered t1 0 fs h1" using success(4) c v by (simp add: registered_def)
    moreover have "open_fds h1 = A \<union> all_fds t1"
      using success(5) t(3) c by (auto simp: holds_def all_fds_def devs dev_fds_def new_dev_def)
    moreover have "queue_ids t1 = 0" "workers t1 = []"
      using success(8) t(1) by (auto simp: same_but_devs_def bare_def)
    ultimately show thesis using that [of fs name] devs c ok alloc_new_tap_grows [OF A] by simp
  qed
qed

text \<open>
  The construction up to the map: either it stops, or the default endpoint is next, in a tunnel
  with everything but devices and threads.
\<close>

definition prepared :: "surroundings \<Rightarrow> resolver \<Rightarrow> tunnel_params \<Rightarrow> int list \<Rightarrow> tunnel \<Rightarrow> history \<Rightarrow> bool" where
  "prepared E R ps udp t h \<longleftrightarrow> bare t \<and> udp_fds t = udp \<and> length (epoll_fds t) = num_queues t \<and>
     (\<forall>i < num_queues t. watched (epoll_fds t) udp h i) \<and>
     tun_mtu t = (if p_mtu ps > 0 then p_mtu ps else 1500) \<and>
     parsed_list (to_addr R) (allowed_remote_hosts ps) (allowed_addr_list t) \<and>
     (allowed_remote_hosts ps = None \<longrightarrow> default_remote_host ps \<noteq> None) \<and>
     ((\<exists>m. tun_map t = Live m \<and> em_wf m \<and> em_abs m = Map.empty \<and> num_entries m < alloc_entries m) \<or>
      tun_map t = Null \<and> (\<exists>h0. ret (kern E h0 Sys_alloc) < 0))"

lemma watched_mono: "watched eps udp h i \<Longrightarrow> set h \<subseteq> set h' \<Longrightarrow> watched eps udp h' i"
  unfolding watched_def by (rule done_ok_mono)

lemma build_tunnel_outcome:
  assumes fresh: "fresh_fds (kern E)"
    and t: "bare t" "epoll_fds t = []" "holds A t h" "allowed_addr_list t = None" "tun_map t = Null"
    and res: "build_tunnel E R ps t r h = Inr ((ok, t', r'), h')"
  obtains (stop) "\<not> ok" "bare t'" "holds A t' h'" "tun_map t' = Null"
  | (go) t1 r1 h1 where "prepared E R ps (udp_fds t) t1 h1" "holds A t1 h1" "num_queues t1 = num_queues t"
      "set h \<subseteq> set h1" "default_endpoint E R ps t1 r1 h1 = Inr ((ok, t', r'), h')"
proof -
  obtain t1 h1 where n: "name_tunnel (kern E) ps t h = Inr (t1, h1)"
    using res by (auto simp: build_tunnel_def)
  note n' = name_tunnel_outcome [OF n]
  have t1: "bare t1" "epoll_fds t1 = []" "holds A t1 h1"
    using t n' by (simp_all add: bare_def holds_def)
  obtain a t2 h2 where e: "setup_epoll_fds (kern E) t1 h1 = Inr ((a, t2), h2)"
    using res n by (auto simp: build_tunnel_def and_then_def)
  obtain eps where e': "t2 = t1\<lparr>epoll_fds := eps\<rparr>" "holds A t2 h2" "set h1 \<subseteq> set h2"
    "a \<Longrightarrow> length eps = num_queues t1 \<and> (\<forall>i < num_queues t1. watched eps (udp_fds t1) h2 i)"
    using setup_epoll_outcome [OF fresh t1 e] by blast
  have t2: "bare t2" using t1(1) by (simp add: e'(1) bare_def)
  show thesis
  proof (cases a)
    case False
    with res n e have "\<not> ok" "t' = t2" "h' = h2" by (simp_all add: build_tunnel_def and_then_def)
    with t2 e' n' t(5) show thesis by (intro stop) simp_all
  next
    case a: True
    obtain b t3 h3 where l: "set_allow_list (kern E) (to_addr R) ps t2 h2 = Inr ((b, t3), h3)"
      using res n e a by (auto simp: build_tunnel_def and_then_def)
    have "allowed_addr_list t2 = None" using n' t(4) by (simp add: e'(1))
    from set_allow_list_outcome [OF l this] obtain al where
      l': "t3 = t2\<lparr>allowed_addr_list := al\<rparr>" "open_fds h3 = open_fds h2" "set h2 \<subseteq> set h3"
        "b \<Longrightarrow> parsed_list (to_addr R) (allowed_remote_hosts ps) al"
        "b \<Longrightarrow> allowed_remote_hosts ps = None \<Longrightarrow> default_remote_host ps \<noteq> None" by metis
    have t3: "bare t3" "holds A t3 h3" using t2 e'(2) l' by (simp_all add: bare_def holds_def)
    show thesis
    proof (cases b)
      case False
      with res n e a l have "\<not> ok" "t' = t3" "h' = h3"
        by (simp_all add: build_tunnel_def and_then_def)
      with t3 l' e' n' t(5) show thesis by (intro stop) simp_all
    next
      case b: True
      obtain t4 r4 h4 where m: "set_map E t3 r h3 = (t4, r4, h4)" by (metis prod_cases3)
      note m' = set_map_outcome [OF m]
      have "default_endpoint E R ps t4 r4 h4 = Inr ((ok, t', r'), h')"
        using res n e a l b m by (simp add: build_tunnel_def and_then_def)
      moreover have "num_queues t4 = num_queues t" "udp_fds t4 = udp_fds t"
        using m'(3) l'(1) e'(1) n'(1) by auto
      moreover have "holds A t4 h4" using m' t3(2) by (auto simp: holds_def)
      moreover have "set h \<subseteq> set h4" using m'(2) l'(3) e'(3) n'(3) by auto
      moreover have "prepared E R ps (udp_fds t) t4 h4"
      proof -
        have "set h2 \<subseteq> set h4" using m'(2) l'(3) by auto
        then have "\<forall>i < num_queues t1. watched eps (udp_fds t1) h4 i"
          using e'(4) a watched_mono by blast
        with m'(3) l' e'(1,4) a b n' t3(1) t(5) show ?thesis
          by (auto simp: prepared_def bare_def)
      qed
      ultimately show thesis by (intro go) simp_all
    qed
  qed
qed

lemma start_workers_outcome:
  assumes "start_workers E [i..<n] t h = Inr (res, h')" "length (workers t) = n"
    and "set (take i (workers t)) \<subseteq> live_threads h"
  shows "(\<exists>ws. res = Some (t\<lparr>workers := ws\<rparr>) \<and> length ws = n \<and> set ws \<subseteq> live_threads h' \<and>
      open_fds h' = open_fds h \<and> set h \<subseteq> set h') \<or>
    (res = None \<and> i = 0 \<and> (\<exists>h1. open_fds h1 = open_fds h \<and> tunnel_delete E (Some t) h1 = Inr h'))"
  using assms
proof (induction "[i..<n]" arbitrary: i t h)
  case Nil
  then have "n \<le> i" by (metis upt_eq_Nil_conv le0)
  with Nil show ?case by (intro disjI1 exI [of _ "workers t"]) auto
next
  case (Cons j js)
  have j: "j = i" "i < n" "js = [Suc i..<n]" using Cons.hyps(2) [symmetric] by (auto simp: upt_eq_Cons_conv)
  let ?r = "kern E h Sys_thread_create" and ?h1 = "h @ [(Sys_thread_create, kern E h Sys_thread_create)]"
  have fds: "open_fds ?h1 = open_fds h" by (simp add: fds)
  have run: "start_workers E (i # [Suc i..<n]) t h = Inr (res, h')"
    using Cons.prems(1) j(2) by (simp add: upt_conv_Cons)
  show ?case
  proof (cases "ret ?r \<noteq> 0")
    case True
    with run have "res = None" "i = 0" "tunnel_delete E (Some t) ?h1 = Inr h'"
      by (auto simp: sys_def split: if_splits)
    with fds show ?thesis by blast
  next
    case False
    let ?ws = "(workers t)[i := r_out ?r]"
    have rec: "start_workers E [Suc i..<n] (t\<lparr>workers := ?ws\<rparr>) ?h1 = Inr (res, h')"
      using run False by (simp add: sys_def)
    have take: "take (Suc i) ?ws = take i (workers t) @ [r_out ?r]"
      using j(2) Cons.prems(2) by (simp add: take_Suc_conv_app_nth)
    have "live_threads ?h1 = insert (r_out ?r) (live_threads h)"
      using False by (simp add: live_threads_append)
    then have "set (take (Suc i) ?ws) \<subseteq> live_threads ?h1" using Cons.prems(3) take by auto
    with Cons.hyps(1) [OF j(3), of "t\<lparr>workers := ?ws\<rparr>" ?h1] rec Cons.prems(2)
    obtain ws where "res = Some (t\<lparr>workers := ws\<rparr>)" "length ws = n" "set ws \<subseteq> live_threads h'"
        "open_fds h' = open_fds ?h1" "set ?h1 \<subseteq> set h'"
      by auto
    with fds show ?thesis by auto
  qed
qed

lemma run_tunnel_outcome:
  assumes "run_tunnel E ps t h = Inr (res, h')" "workers t = []"
  obtains (runs) ws where "res = Some (t\<lparr>workers := ws\<rparr>)" "length ws = num_queues t"
      "set ws \<subseteq> live_threads h'" "open_fds h' = open_fds h" "set h \<subseteq> set h'"
  | (fails) ws h1 where "res = None" "filter (\<lambda>w. w \<noteq> 0) ws = []" "open_fds h1 = open_fds h"
      "tunnel_delete E (Some (t\<lparr>workers := ws\<rparr>)) h1 = Inr h'"
proof -
  obtain a h1 where a: "alloc (kern E) h = (a, h1)" by fastforce
  note h1 = alloc_fds [OF a]
  show thesis
  proof (cases a)
    case False
    with assms a have "res = None" "tunnel_delete E (Some t) h1 = Inr h'"
      by (auto simp: run_tunnel_def)
    moreover have "t\<lparr>workers := []\<rparr> = t" using assms(2) by simp
    ultimately have "res = None" "tunnel_delete E (Some (t\<lparr>workers := []\<rparr>)) h1 = Inr h'" by simp_all
    with h1 show thesis by (intro fails) auto
  next
    case True
    let ?t = "t\<lparr>workers := replicate (num_queues t) 0\<rparr>"
    obtain t2 h2 where s: "start_workers E [0..<num_queues t] ?t h1 = Inr (t2, h2)"
        and r: "(case (t2, post_exec ps) of
             (Some t, Some cmd) \<Rightarrow> Inr (Some t, sys0 (kern E) (Sys_system cmd) h2)
           | _ \<Rightarrow> Inr (t2, h2)) = (Inr (res, h') :: (tunnel option \<times> history) res)"
      using assms(1) a True by (auto simp: run_tunnel_def)
    from r have res: "res = t2" "h' = h2 \<or> t2 \<noteq> None \<and> (\<exists>cmd. h' = sys0 (kern E) (Sys_system cmd) h2)"
      by (auto split: option.splits)
    then have h': "open_fds h' = open_fds h2 \<and> live_threads h' = live_threads h2 \<and> set h2 \<subseteq> set h'"
      by (auto simp: fds sys0_def sys_def live_threads_append)
    from start_workers_outcome [OF s] consider
      (ok) ws where "t2 = Some (t\<lparr>workers := ws\<rparr>)" "length ws = num_queues t" "set ws \<subseteq> live_threads h2"
        "open_fds h2 = open_fds h1" "set h1 \<subseteq> set h2"
    | (no) h3 where "t2 = None" "open_fds h3 = open_fds h1" "tunnel_delete E (Some ?t) h3 = Inr h2"
      by fastforce
    then show thesis
    proof cases
      case ok
      with res h1 h' show thesis by (intro runs [of ws]) auto
    next
      case no
      with res h1 show thesis by (intro fails [of "replicate (num_queues t) 0" h3]) auto
    qed
  qed
qed

section \<open>Outcomes of a creation\<close>

definition tunnel_built :: "kernel \<Rightarrow> resolver \<Rightarrow> tunnel_params \<Rightarrow> tunnel \<Rightarrow> history \<Rightarrow> bool" where
  "tunnel_built K R ps t h \<longleftrightarrow> t_full t \<and> queue_ids t = 0 \<and>
     length (workers t) = num_queues t \<and> set (workers t) \<subseteq> live_threads h \<and>
     (\<forall>i < num_queues t. 0 < udp_fds t ! i \<and> watched (epoll_fds t) (udp_fds t) h i) \<and>
     distinct (udp_fds t) \<and>
     (\<exists>a. \<forall>i < num_queues t. done_ok (Sys_bind (udp_fds t ! i) a (htons_int (bind_port ps))) h) \<and>
     tun_mtu t = (if p_mtu ps > 0 then p_mtu ps else 1500) \<and>
     parsed_list (to_addr R) (allowed_remote_hosts ps) (allowed_addr_list t) \<and>
     (allowed_remote_hosts ps = None \<longrightarrow> default_remote_host ps \<noteq> None) \<and>
     default_dev K R ps t h"

lemma empty_full:
  assumes "bare t" "length (epoll_fds t) = num_queues t" "tun_map t = Live m" "em_wf m" "em_abs m = Map.empty"
  shows "t_full t" "devs t = []"
proof -
  note w = bare_wf [OF assms(1,2)]
  then show "devs t = []" by simp
  have "t_wf t" by (rule t_wfI [of _ m]) (use w assms in simp_all)
  then show "t_full t" using w by (simp add: t_full_def)
qed

lemma default_endpoint_built:
  assumes fresh: "fresh_fds (kern E)" and mem: "\<And>h. 0 \<le> ret (kern E h Sys_alloc)"
    and p: "prepared E R ps udp t h" "holds A t h"
    and res: "default_endpoint E R ps t r h = Inr ((True, t', r'), h')"
  shows "t_full t' \<and> queue_ids t' = 0 \<and> workers t' = [] \<and> num_queues t' = num_queues t \<and>
    udp_fds t' = udp_fds t \<and> epoll_fds t' = epoll_fds t \<and> tun_mtu t' = tun_mtu t \<and>
    allowed_addr_list t' = allowed_addr_list t \<and> default_dev (kern E) R ps t' h' \<and>
    open_fds h' = A \<union> all_fds t' \<and> set h \<subseteq> set h'"
proof -
  obtain m where m: "tun_map t = Live m" "em_wf m" "em_abs m = Map.empty" "num_entries m < alloc_entries m"
    and b: "bare t" "length (epoll_fds t) = num_queues t"
    using p(1) mem by (auto simp: prepared_def not_less [symmetric])
  show ?thesis
  proof (cases "default_remote_host ps")
    case None
    with res have "t' = t" "h' = h" by (simp_all add: default_endpoint_def)
    with empty_full [OF b m(1-3)] p(2) b None show ?thesis
      by (auto simp: default_dev_def holds_def all_fds_def bare_def)
  next
    case (Some host)
    let ?p = "htons (word_of_int (default_remote_port ps))"
    let ?c = "Sys_getaddrinfo host"
    let ?h1 = "h @ [(?c, kern E h ?c)]"
    from res Some obtain addr where
      addr: "resolved_addr (to_text_ok R) (r_addrs (kern E h ?c)) (junk_addr R) = Inr (True, addr)"
      and add: "add_default E addr ?p t r ?h1 = Inr ((True, t', r'), h')"
      by (auto simp: default_endpoint_def net_lookup_remote_host_def sys_def split: if_splits)
    have "holds A t ?h1" using p(2) by (simp add: holds_def fds)
    from add_default_outcome [OF fresh b this m add] obtain fs name where
      o: "t_full t'" "devs t' = [new_dev (num_queues t) (addr, ?p) fs name]"
      "registered t' 0 fs h'" "open_fds h' = A \<union> all_fds t'" "queue_ids t' = 0" "workers t' = []"
      "udp_fds t' = udp_fds t" "epoll_fds t' = epoll_fds t" "num_queues t' = num_queues t"
      "tun_mtu t' = tun_mtu t" "allowed_addr_list t' = allowed_addr_list t"
      and sub: "set ?h1 \<subseteq> set h'" by metis
    have "resolved (kern E) R host addr h'"
      unfolding resolved_def using addr sub by auto
    then have "default_dev (kern E) R ps t' h'"
      unfolding default_dev_def using Some o by auto
    with o sub show ?thesis by auto
  qed
qed

lemma devs_workers [simp]: "devs (t\<lparr>workers := ws\<rparr>) = devs t"
  by (simp add: devs_def)

lemma new_workers:
  "t_full (t\<lparr>workers := ws\<rparr>) = t_full t" "all_fds (t\<lparr>workers := ws\<rparr>) = all_fds t"
  "default_dev K R ps (t\<lparr>workers := ws\<rparr>) h = default_dev K R ps t h"
  by (simp_all add: t_full_def t_wf_def devs_wf_def all_fds_def default_dev_def registered_def
      cong: ptr.case_cong option.case_cong)

lemma default_dev_mono:
  assumes "default_dev K R ps t h" "set h \<subseteq> set h'"
  shows "default_dev K R ps t h'"
proof (cases "default_remote_host ps")
  case (Some host)
  with assms(1) obtain addr fs name where "resolved K R host addr h" "registered t 0 fs h"
    "devs t = [new_dev (num_queues t) (addr, htons (word_of_int (default_remote_port ps))) fs name]"
    by (auto simp: default_dev_def)
  moreover from this have "registered t 0 fs h'"
    unfolding registered_def using done_ok_mono [OF _ assms(2)] by blast
  moreover have "resolved K R host addr h'"
    using calculation(1) assms(2) by (auto simp: resolved_def)
  ultimately show ?thesis using Some by (auto simp: default_dev_def)
qed (use assms(1) in \<open>simp add: default_dev_def\<close>)

lemma default_endpoint_workers:
  assumes fresh: "fresh_fds (kern E)" and p: "prepared E R ps udp t h"
    and res: "default_endpoint E R ps t r h = Inr ((ok, t', r'), h')"
  shows "workers t' = []"
proof -
  have b: "bare t" "length (epoll_fds t) = num_queues t" using p by (auto simp: prepared_def)
  have add: "workers t1 = []"
    if run: "add_default E addr q t r h1 = Inr ((ok, t1, r1), h2)" for addr q t1 r1 h1 h2
  proof -
    obtain m a where m: "tun_map t = Live m"
        "endpoint_map_add (heap E h1 m) (rands E) r m addr q 0 = Some a"
      using run by (auto simp: add_default_def split: option.splits)
    let ?t = "t\<lparr>tun_map := Live (add_map a)\<rparr>"
    have "bare ?t" "length (epoll_fds ?t) = num_queues ?t" using b by (simp_all add: bare_def)
    then have w: "devs_wf ?t" using bare_wf by blast
    have room: "num_tap_devs ?t + 1 < 2 ^ 30" using b(1) by (simp add: bare_def)
    have "workers t2 = []" if "tunnel_alloc_new_tap (kern E) ?t addr q h1 = Inr ((v, t2), h3)" for v t2 h3
      using alloc_new_tap_keeps [OF fresh w room that] b(1) by (auto simp: same_but_devs_def bare_def)
    with run m b(1) show ?thesis by (auto simp: add_default_def bare_def split: if_splits)
  qed
  show ?thesis
    using res b(1) add
    by (cases "default_remote_host ps")
      (auto simp: default_endpoint_def bare_def split: if_splits)
qed

text \<open>From the sockets on.\<close>

lemma finish_tunnel_outcome:
  assumes fresh: "fresh_fds (kern E)"
    and t: "bare t" "epoll_fds t = []" "holds A t h" "allowed_addr_list t = None" "tun_map t = Null"
    and res: "finish_tunnel E R ps t r h = Inr ((tun, r'), h')"
  shows "(tun = None \<longrightarrow> default_remote_host ps = None \<longrightarrow> open_fds h' = A) \<and>
    (tun \<noteq> None \<longrightarrow> (\<forall>h. 0 \<le> ret (kern E h Sys_alloc)) \<longrightarrow> (\<forall>i < num_queues t. 0 < udp_fds t ! i) \<longrightarrow>
       distinct (udp_fds t) \<longrightarrow>
       (\<exists>a. \<forall>i < num_queues t. done_ok (Sys_bind (udp_fds t ! i) a (htons_int (bind_port ps))) h) \<longrightarrow>
       tunnel_built (kern E) R ps (the tun) h' \<and> open_fds h' = A \<union> all_fds (the tun))"
proof -
  obtain ok t1 r1 h1 where b: "build_tunnel E R ps t r h = Inr ((ok, t1, r1), h1)"
    using res by (auto simp: finish_tunnel_def)
  have closes: "open_fds h3 = A"
    if "bare t2" "holds A t2 h2" "tun_map t2 \<noteq> Dangling" "filter (\<lambda>w. w \<noteq> 0) ws = []"
      "tunnel_delete E (Some (t2\<lparr>workers := ws\<rparr>)) h2 = Inr h3" for t2 h2 h3 ws
    using tunnel_delete_bare [of "t2\<lparr>workers := ws\<rparr>" E h2] that by (auto simp: holds_def bare_def)
  from fresh t b show ?thesis
  proof (cases rule: build_tunnel_outcome)
    case stop
    then have "tun = None" "tunnel_delete E (Some t1) h1 = Inr h'"
      using res b by (auto simp: finish_tunnel_def)
    moreover have "t1\<lparr>workers := []\<rparr> = t1" using stop(2) by (simp add: bare_def)
    ultimately show ?thesis using closes [of t1 h1 "[]" h'] stop by simp
  next
    case (go t2 r2 h2)
    have dangling: "tun_map t2 \<noteq> Dangling" and bare2: "bare t2"
      using go(1) by (auto simp: prepared_def)
    show ?thesis
    proof (cases ok)
      case False
      then have "tun = None" "tunnel_delete E (Some t1) h1 = Inr h'"
        using res b by (auto simp: finish_tunnel_def)
      moreover have "default_remote_host ps = None \<Longrightarrow> ok"
        using go(5) by (simp add: default_endpoint_def)
      ultimately show ?thesis using False by blast
    next
      case True
      have none: "default_remote_host ps = None \<Longrightarrow> t1 = t2 \<and> h1 = h2"
        using go(5) by (simp add: default_endpoint_def)
      have run: "run_tunnel E ps t1 h1 = Inr (tun, h')"
        using res b True by (auto simp: finish_tunnel_def)
      have w1: "workers t1 = []" by (rule default_endpoint_workers [OF fresh go(1,5)])
      from run w1 show ?thesis
      proof (cases rule: run_tunnel_outcome)
        case (fails ws h3)
        have "open_fds h' = A" if "default_remote_host ps = None"
          using closes [of t2 h3 ws h'] fails none that go(2) dangling bare2 by (simp add: holds_def)
        with fails show ?thesis by simp
      next
        case (runs ws)
        have "tunnel_built (kern E) R ps (the tun) h' \<and> open_fds h' = A \<union> all_fds (the tun)"
          if mem: "\<forall>h. 0 \<le> ret (kern E h Sys_alloc)"
            and udp: "\<forall>i < num_queues t. 0 < udp_fds t ! i" "distinct (udp_fds t)"
              "\<exists>a. \<forall>i < num_queues t. done_ok (Sys_bind (udp_fds t ! i) a (htons_int (bind_port ps))) h"
        proof -
          have "default_endpoint E R ps t2 r2 h2 = Inr ((True, t1, r1), h1)" using go(5) True by simp
          note d = default_endpoint_built [OF fresh _ go(1,2) this]
          have d: "t_full t1 \<and> queue_ids t1 = 0 \<and> workers t1 = [] \<and> num_queues t1 = num_queues t2 \<and>
            udp_fds t1 = udp_fds t2 \<and> epoll_fds t1 = epoll_fds t2 \<and> tun_mtu t1 = tun_mtu t2 \<and>
            allowed_addr_list t1 = allowed_addr_list t2 \<and> default_dev (kern E) R ps t1 h1 \<and>
            open_fds h1 = A \<union> all_fds t1 \<and> set h2 \<subseteq> set h1"
            using d mem by blast
          have sub: "set h2 \<subseteq> set h'" "set h1 \<subseteq> set h'" "set h \<subseteq> set h'"
            using d runs(5) go(4) by auto
          obtain a where a: "\<forall>i < num_queues t. done_ok (Sys_bind (udp_fds t ! i) a (htons_int (bind_port ps))) h'"
            using udp(3) done_ok_mono [OF _ sub(3)] by blast
          have "\<forall>i < num_queues t2. watched (epoll_fds t2) (udp_fds t) h' i"
            using go(1) watched_mono [OF _ sub(1)] by (simp add: prepared_def)
          with a d runs go(1,3) udp default_dev_mono [OF _ sub(2)] show ?thesis
            by (auto simp: tunnel_built_def new_workers prepared_def)
        qed
        with runs show ?thesis by simp
      qed
    qed
  qed
qed

lemma new_tunnel_bare:
  "length fs = nat n \<Longrightarrow> bare ((new_tunnel name n)\<lparr>udp_fds := fs\<rparr>)"
  "num_queues (new_tunnel name n) = nat n" "udp_fds (new_tunnel name n) = replicate (nat n) 0"
  by (simp_all add: bare_def new_tunnel_def)

lemma open_tunnel_outcome:
  assumes fresh: "fresh_fds (kern E)"
    and res: "open_tunnel E R ps name n r h = Inr ((tun, r'), h')"
  shows "(tun = None \<longrightarrow> default_remote_host ps = None \<longrightarrow> open_fds h' = open_fds h) \<and>
    (tun \<noteq> None \<longrightarrow> (\<forall>h. 0 \<le> ret (kern E h Sys_alloc)) \<longrightarrow>
       tunnel_built (kern E) R ps (the tun) h' \<and> open_fds h' = open_fds h \<union> all_fds (the tun))"
proof -
  let ?n = "nat n"
  obtain ok fs mtu h1 where u:
    "net_create_udp_sock_fds (kern E) (bind_iface ps) (bind_port ps) ?n (replicate ?n 0) 0 h = Inr ((ok, fs, mtu), h1)"
    using res
    by (cases "net_create_udp_sock_fds (kern E) (bind_iface ps) (bind_port ps) ?n (replicate ?n 0) 0 h")
      (auto simp: open_tunnel_def new_tunnel_bare)
  then obtain iface where "bind_iface ps = Some iface"
    by (auto simp: net_create_udp_sock_fds_def split: option.splits)
  note o = net_create_udp_outcome [OF fresh _ _ u [unfolded this]]
  have o: "length fs = ?n" "open_fds h1 = open_fds h \<union> pos fs" "pos fs \<inter> open_fds h = {}"
      "ok \<Longrightarrow> (\<forall>i < ?n. 0 < fs ! i) \<and> distinct fs \<and>
         (\<exists>addr. \<forall>i < ?n. done_ok (Sys_bind (fs ! i) addr (htons_int (bind_port ps))) h1)"
    using o by (auto simp: pos_def)
  let ?t = "(new_tunnel name n)\<lparr>udp_fds := fs\<rparr>"
  have b: "bare ?t" by (rule new_tunnel_bare(1) [OF o(1)])
  have t: "epoll_fds ?t = []" "holds (open_fds h) ?t h1" "allowed_addr_list ?t = None" "tun_map ?t = Null"
    "num_queues ?t = ?n"
    using o by (auto simp: new_tunnel_def holds_def)
  show ?thesis
  proof (cases ok)
    case False
    with res u have del: "tun = None" "tunnel_delete E (Some ?t) h1 = Inr h'"
      by (auto simp: open_tunnel_def new_tunnel_bare)
    have "filter (\<lambda>w. w \<noteq> 0) (workers ?t) = []" "num_tap_devs ?t = 0" "tun_map ?t \<noteq> Dangling"
      by (simp_all add: new_tunnel_def)
    from tunnel_delete_bare [OF this, of E h1] del t(2) show ?thesis by (auto simp: holds_def)
  next
    case True
    with res u have "finish_tunnel E R ps ?t r h1 = Inr ((tun, r'), h')"
      by (auto simp: open_tunnel_def new_tunnel_bare split: if_splits)
    from finish_tunnel_outcome [OF fresh b t(1-4) this] o(4) [OF True] t(5) show ?thesis by simp
  qed
qed

lemma tunnel_create_outcome:
  assumes fresh: "fresh_fds (kern E)"
    and res: "tunnel_create E R ps r h = Inr ((tun, r'), h')"
  shows "(tun = None \<longrightarrow> default_remote_host ps = None \<longrightarrow> open_fds h' = open_fds h) \<and>
    (tun \<noteq> None \<longrightarrow> (\<forall>h. 0 \<le> ret (kern E h Sys_alloc)) \<longrightarrow>
       tunnel_built (kern E) R ps (the tun) h' \<and> open_fds h' = open_fds h \<union> all_fds (the tun))"
proof -
  obtain a h1 where a: "alloc (kern E) h = (a, h1)" by fastforce
  show ?thesis
  proof (cases a)
    case False
    with res a alloc_fds [OF a] show ?thesis by (auto simp: tunnel_create_def)
  next
    case True
    obtain name h2 where n: "must_dup (kern E) (p_tunnel_name ps) h1 = Inr (name, h2)"
      using res a True by (auto simp: tunnel_create_def)
    obtain nq h3 where q: "queue_count (kern E) ps h2 = (nq, h3)" by fastforce
    obtain b h4 where b: "alloc (kern E) h3 = (b, h4)" by fastforce
    have "open_fds h3 = open_fds h2"
      using q by (auto simp: queue_count_def sys_def fds split: if_splits)
    then have h4: "open_fds h4 = open_fds h"
      using alloc_fds [OF a] must_dup_fds [OF n] alloc_fds [OF b] by simp
    show ?thesis
    proof (cases "nq < 0 \<or> \<not> b")
      case True
      with res a \<open>a\<close> n q b h4 show ?thesis by (auto simp: tunnel_create_def)
    next
      case False
      with res a \<open>a\<close> n q b have "open_tunnel E R ps name nq r h4 = Inr ((tun, r'), h')"
        by (simp add: tunnel_create_def)
      from open_tunnel_outcome [OF fresh this] h4 show ?thesis by simp
    qed
  qed
qed

end
