(* ===== verification/Tunnel_Stats.thy ===== *)
theory Tunnel_Stats
  imports Worker
begin

text \<open>
  The statistics of \<^verbatim>\<open>src/src/tunnel.c\<close>: the sums over the queues of a device, the report of all
  devices and the text for the time since an event, and \<^verbatim>\<open>get_mac_addr\<close> of the debug log. Every
  \<^verbatim>\<open>LOG\<close> is a line of the result.
\<close>

section \<open>The time since an event\<close>

definition day :: int where "day = 3600 * 24"

text \<open>One unit: the text appended and what remains; \<^verbatim>\<open>tmp\<close> has 128 bytes.\<close>

definition unit_part :: "nat \<Rightarrow> int \<Rightarrow> string \<Rightarrow> string \<times> int \<Rightarrow> string \<times> int" where
  "unit_part len size_s name st =
     (let (buf, diff) = st in
      if diff > size_s then
        (strlcat len buf (strlcpy 128 (show_int (diff div size_s) @ name)), diff mod size_s)
      else (buf, diff))"

definition time_since_human_str :: "int \<Rightarrow> nat \<Rightarrow> int \<Rightarrow> string" where
  "time_since_human_str now len diff =
     (if now - diff < day then strlcpy len ''never''
      else
        (let st = ([], diff);
             st = unit_part len day '' day(s) '' st;
             st = unit_part len 3600 '' hour(s) '' st;
             st = unit_part len 60 '' minute(s) '' st;
             (buf, diff) = st;
             buf = (if diff > 0 then strlcat len buf (strlcpy 128 (show_int diff @ '' second(s) ''))
                    else buf)
         in if buf = [] then strlcpy len ''now ( < 1 second)'' else buf))"

section \<open>Sums over the queues\<close>

text \<open>The loop over the queues: sums modulo \<open>2\<close> to the \<open>64\<close>, and the latest times.\<close>

definition add_stats :: "tunnel_stats \<Rightarrow> tunnel_stats \<Rightarrow> tunnel_stats" where
  "add_stats s a =
     \<lparr>txc = txc a + txc s, rxc = rxc a + rxc s, errorc = errorc a + errorc s,
      last_recv_time = (if last_recv_time s > last_recv_time a then last_recv_time s else last_recv_time a),
      last_send_time = (if last_send_time s > last_send_time a then last_send_time s else last_send_time a),
      last_error_time = (if last_error_time s > last_error_time a then last_error_time s
                         else last_error_time a)\<rparr>"

fun total_stats :: "tunnel_stats list \<Rightarrow> nat list \<Rightarrow> tunnel_stats \<Rightarrow> tunnel_stats res" where
  "total_stats ss [] a = Inr a"
| "total_stats ss (j # js) a = bind_res (at_index ss j) (\<lambda>s. total_stats ss js (add_stats s a))"

section \<open>The report\<close>

definition show_word :: "'a::len word \<Rightarrow> string" where
  "show_word w = show_nat (unat w)"

definition since_len :: nat where "since_len = 2048"

text \<open>The lines of a device. \<open>ntop\<close> is \<^verbatim>\<open>ip_addr_to_str\<close>; where it fails there is one line.\<close>

definition report_dev ::
  "kernel \<Rightarrow> (ip_addr \<Rightarrow> string option) \<Rightarrow> tunnel \<Rightarrow> nat \<Rightarrow> history \<Rightarrow> (string list \<times> history) res"
where
  "report_dev K ntop t i h =
     bind_res (cell_at (tap_devs t) i) (\<lambda>d.
       case ntop (remote_ip d) of
         None \<Rightarrow> Inr ([''tunnel_print_stats: ip_addr_to_str''], h)
       | Some ip_str \<Rightarrow>
           bind_res (deref (stats d)) (\<lambda>ss.
           let (now, h) = sys K Sys_time h in
           bind_res (total_stats ss [0..<num_queues t] zero_stats) (\<lambda>a.
           let (now_tx, h) = sys K Sys_time h;
               (now_rx, h) = sys K Sys_time h;
               (now_err, h) = sys K Sys_time h in
           Inr ([tun_name t @ '' '' @ show_nat i @ '': '' @ ip_str @ '':'' @
                   show_word (htons (remote_port d)) @ '' ('' @ tap_name d @ '') rxc '' @
                   show_word (rxc a) @ '' txc '' @ show_word (txc a) @ '' errorc '' @
                   show_word (errorc a),
                 [CHR 0x09] @ ''time since last tx:    '' @
                   time_since_human_str (ret now_tx) since_len (ret now - last_send_time a),
                 [CHR 0x09] @ ''time since last rx:    '' @
                   time_since_human_str (ret now_rx) since_len (ret now - last_recv_time a),
                 [CHR 0x09] @ ''time since last error: '' @
                   time_since_human_str (ret now_err) since_len (ret now - last_error_time a),
                 [CHR 0x0A]], h))))"

fun report_devs ::
  "kernel \<Rightarrow> (ip_addr \<Rightarrow> string option) \<Rightarrow> tunnel \<Rightarrow> nat list \<Rightarrow> history \<Rightarrow> (string list \<times> history) res"
where
  "report_devs K ntop t [] h = Inr ([], h)"
| "report_devs K ntop t (i # is) h =
     bind_res (report_dev K ntop t i h) (\<lambda>(ls, h).
       bind_res (report_devs K ntop t is h) (\<lambda>(ls', h). Inr (ls @ ls', h)))"

definition tunnel_print_stats ::
  "kernel \<Rightarrow> (ip_addr \<Rightarrow> string option) \<Rightarrow> tunnel \<Rightarrow> history \<Rightarrow> (string list \<times> history) res"
where
  "tunnel_print_stats K ntop t h =
     bind_res (report_devs K ntop t [0..<num_tap_devs t] h) (\<lambda>(ls, h).
       Inr ((tun_name t @ '': '' @ show_nat (num_tap_devs t) @ '' tap device(s):'') # ls, h))"

section \<open>MAC addresses in the debug log\<close>

definition hex_digit :: "nat \<Rightarrow> char" where
  "hex_digit n = (if n < 10 then char_of (48 + n) else char_of (87 + n))"

text \<open>\<^verbatim>\<open>%02x:\<close>\<close>

definition hex_byte :: "u8 \<Rightarrow> string" where
  "hex_byte b = [hex_digit (unat b div 16), hex_digit (unat b mod 16), CHR '':'']"

text \<open>\<^verbatim>\<open>sprintf(buf + k, ...)\<close> writes the text and a null character.\<close>

definition put_at :: "nat \<Rightarrow> string \<Rightarrow> string \<Rightarrow> string res" where
  "put_at k s buf =
     (if k + length s < length buf then Inr (take k buf @ s @ CHR 0x00 # drop (k + length s + 1) buf)
      else Inl Out_Of_Bounds)"

definition put_null :: "nat \<Rightarrow> string \<Rightarrow> string res" where
  "put_null k buf = (if k < length buf then Inr (buf[k := CHR 0x00]) else Inl Out_Of_Bounds)"

fun mac_loop :: "u8 list \<Rightarrow> nat list \<Rightarrow> string \<times> string \<Rightarrow> (string \<times> string) res" where
  "mac_loop mac [] bufs = Inr bufs"
| "mac_loop mac (i # is) bufs =
     bind_res (at_index mac i) (\<lambda>a. bind_res (put_at (i * 3) (hex_byte a) (fst bufs)) (\<lambda>from.
     bind_res (at_index mac (i + 6)) (\<lambda>b. bind_res (put_at (i * 3) (hex_byte b) (snd bufs)) (\<lambda>to.
       mac_loop mac is (from, to)))))"

definition get_mac_addr :: "u8 list \<Rightarrow> string \<Rightarrow> string \<Rightarrow> (string \<times> string) res" where
  "get_mac_addr packet from to =
     bind_res (put_null 0 from) (\<lambda>from. bind_res (put_null 0 to) (\<lambda>to.
     bind_res (mac_loop packet [0..<6] (from, to)) (\<lambda>(from, to).
     bind_res (put_null 18 from) (\<lambda>from. bind_res (put_null 18 to) (\<lambda>to. Inr (from, to))))))"

section \<open>Lemmas\<close>

lemma length_show_nat: "n < 10 ^ k \<Longrightarrow> 0 < k \<Longrightarrow> length (show_nat n) \<le> k"
proof (induction k arbitrary: n)
  case (Suc k)
  show ?case
  proof (cases "n < 10")
    case True
    then show ?thesis by (subst show_nat.simps) simp
  next
    case False
    then have "0 < k" using Suc.prems by (cases k) auto
    moreover have "n div 10 < 10 ^ k" using Suc.prems by (simp add: less_mult_imp_div_less mult.commute)
    ultimately have "length (show_nat (n div 10)) \<le> k" using Suc.IH by blast
    with False show ?thesis by (subst show_nat.simps) simp
  qed
qed simp

lemma length_show_int: "0 \<le> v \<Longrightarrow> v < 10 ^ k \<Longrightarrow> 0 < k \<Longrightarrow> length (show_int v) \<le> k"
  by (simp add: show_int_def length_show_nat nat_less_iff)

lemma total_stats_append:
  "total_stats (pre @ ss) [length pre..<length pre + length ss] a = Inr (fold add_stats ss a)"
proof (induction ss arbitrary: pre a)
  case (Cons s ss)
  from Cons.IH [of "pre @ [s]"] show ?case
    by (simp add: upt_conv_Cons nth_append del: upt_Suc)
qed simp

lemma total_stats_all: "total_stats ss [0..<length ss] a = Inr (fold add_stats ss a)"
  using total_stats_append [of "[]" ss a] by simp

text \<open>The sums and the latest times, said without the loop.\<close>

lemma fold_add_stats_sums:
  "txc (fold add_stats ss a) = txc a + sum_list (map txc ss)"
  "rxc (fold add_stats ss a) = rxc a + sum_list (map rxc ss)"
  "errorc (fold add_stats ss a) = errorc a + sum_list (map errorc ss)"
  by (induction ss arbitrary: a) (simp_all add: add_stats_def add.assoc)

lemma fold_add_stats_times:
  "last_recv_time (fold add_stats ss a) = Max (insert (last_recv_time a) (last_recv_time ` set ss))"
  "last_send_time (fold add_stats ss a) = Max (insert (last_send_time a) (last_send_time ` set ss))"
  "last_error_time (fold add_stats ss a) = Max (insert (last_error_time a) (last_error_time ` set ss))"
proof -
  have max: "Max (insert (if x < y then y else x :: int) A) = Max (insert x (insert y A))"
    if "finite A" for x y A
    using that by (cases "A = {}") (auto simp: max_def)
  show "last_recv_time (fold add_stats ss a) = Max (insert (last_recv_time a) (last_recv_time ` set ss))"
    "last_send_time (fold add_stats ss a) = Max (insert (last_send_time a) (last_send_time ` set ss))"
    "last_error_time (fold add_stats ss a) = Max (insert (last_error_time a) (last_error_time ` set ss))"
    by (induction ss arbitrary: a) (simp_all add: add_stats_def max)
qed

text \<open>The text of one unit, left out if there is none of it.\<close>

definition unit_text :: "int \<Rightarrow> string \<Rightarrow> string" where
  "unit_text n name = (if n = 0 then [] else show_int n @ name)"

lemma unit_part_eq:
  assumes "unit_part len u name (buf, diff) = (buf', diff')" and "0 < u" "0 \<le> diff" "diff < 2 ^ 63"
    and "length buf + 19 + length name < len" "length name < 100"
  obtains n where "diff = n * u + diff'" "buf' = buf @ unit_text n name" "0 \<le> n" "0 \<le> diff'"
    "diff' \<le> u" "diff' < u \<or> n = 0" "length buf' \<le> length buf + 19 + length name"
proof (cases "diff > u")
  case True
  let ?n = "diff div u"
  have "0 < ?n" using True assms(2) by (simp add: pos_imp_zdiv_pos_iff)
  have "?n \<le> diff" using zdiv_mono2 [of diff 1 u] assms(2,3) by simp
  then have "?n < 10 ^ 19" using assms(4) by simp
  then have l: "length (show_int ?n) \<le> 19" using \<open>0 < ?n\<close> by (intro length_show_int) simp_all
  then have "strlcpy 128 (show_int ?n @ name) = show_int ?n @ name" using assms(6) by simp
  moreover have "strlcat len buf (show_int ?n @ name) = buf @ show_int ?n @ name"
    using l assms(5) by simp
  ultimately have "buf' = buf @ unit_text ?n name" "diff' = diff mod u"
    using assms(1) True \<open>0 < ?n\<close> by (auto simp: unit_part_def unit_text_def)
  with \<open>0 < ?n\<close> assms(2,3) l show thesis
    by (intro that [of ?n]) (auto simp: unit_text_def pos_mod_bound less_imp_le)
next
  case False
  then have "buf' = buf" "diff' = diff" using assms(1) by (auto simp: unit_part_def)
  with False assms(3) show thesis by (intro that [of 0]) (auto simp: unit_text_def)
qed

lemma time_since_parts:
  assumes "0 \<le> diff" "diff < 2 ^ 63" "\<not> now - diff < day" "200 < len"
  obtains d h m s where "diff = d * day + h * 3600 + m * 60 + s"
    "0 \<le> d" "0 \<le> h" "h \<le> 24" "0 \<le> m" "m \<le> 60" "0 \<le> s" "s \<le> 60"
    "time_since_human_str now len diff =
      (if diff = 0 then ''now ( < 1 second)''
       else unit_text d '' day(s) '' @ unit_text h '' hour(s) '' @ unit_text m '' minute(s) '' @
         unit_text s '' second(s) '')"
proof -
  obtain b1 r1 where p1: "unit_part len day '' day(s) '' ([], diff) = (b1, r1)" by fastforce
  obtain b2 r2 where p2: "unit_part len 3600 '' hour(s) '' (b1, r1) = (b2, r2)" by fastforce
  obtain b3 r3 where p3: "unit_part len 60 '' minute(s) '' (b2, r2) = (b3, r3)" by fastforce
  obtain d where d: "diff = d * day + r1" "b1 = unit_text d '' day(s) ''" "0 \<le> d" "0 \<le> r1"
      "r1 \<le> day" "length b1 \<le> 27"
    by (rule unit_part_eq [OF p1]) (use assms in \<open>auto simp: day_def\<close>)
  have r1: "r1 < 2 ^ 63" using d(5) by (simp add: day_def)
  obtain h where h: "r1 = h * 3600 + r2" "b2 = b1 @ unit_text h '' hour(s) ''" "0 \<le> h" "0 \<le> r2"
      "r2 \<le> 3600" "length b2 \<le> length b1 + 28"
    by (rule unit_part_eq [OF p2]) (use assms d r1 in auto)
  obtain m where m: "r2 = m * 60 + r3" "b3 = b2 @ unit_text m '' minute(s) ''" "0 \<le> m" "0 \<le> r3"
      "r3 \<le> 60" "length b3 \<le> length b2 + 30"
    by (rule unit_part_eq [OF p3]) (use assms d h in auto)
  have bounds: "h \<le> 24" "m \<le> 60" using d h m by (simp_all add: day_def)
  let ?sec = "show_int r3 @ '' second(s) ''"
  have "length (show_int r3) \<le> 2" using m(4,5) by (intro length_show_int) simp_all
  moreover have "length b3 \<le> 85" using d(6) h(6) m(6) by simp
  ultimately have sec: "strlcat len b3 (strlcpy 128 ?sec) = b3 @ ?sec"
    using assms(4) by simp
  have "0 < diff" if "b3 @ unit_text r3 '' second(s) '' \<noteq> []"
    using that d h m assms(1) by (cases "diff = 0") (auto simp: unit_text_def day_def)
  moreover have "b3 @ unit_text r3 '' second(s) '' \<noteq> []" if "diff \<noteq> 0"
    using that d(1,2) h(1,2) m(1,2) by (auto simp: unit_text_def split: if_splits)
  moreover have "time_since_human_str now len diff =
      (if b3 @ unit_text r3 '' second(s) '' = [] then strlcpy len ''now ( < 1 second)''
       else b3 @ unit_text r3 '' second(s) '')"
    using assms(3) m(4) sec
    by (simp add: time_since_human_str_def Let_def p1 p2 p3 unit_text_def)
  ultimately show thesis
    using d h m bounds assms(4) by (intro that [of d h m r3]) auto
qed

section \<open>The report of a well-formed tunnel\<close>

definition dev_report ::
  "int \<Rightarrow> tunnel \<Rightarrow> nat \<Rightarrow> tap_dev \<Rightarrow> string \<Rightarrow> tunnel_stats list \<Rightarrow> string list"
where
  "dev_report now t i d ip_str ss =
     (let since = (\<lambda>f. time_since_human_str now since_len (now - Max (insert 0 (f ` set ss)))) in
      [tun_name t @ '' '' @ show_nat i @ '': '' @ ip_str @ '':'' @
         show_word (htons (remote_port d)) @ '' ('' @ tap_name d @ '') rxc '' @
         show_word (sum_list (map rxc ss)) @ '' txc '' @ show_word (sum_list (map txc ss)) @
         '' errorc '' @ show_word (sum_list (map errorc ss)),
       [CHR 0x09] @ ''time since last tx:    '' @ since last_send_time,
       [CHR 0x09] @ ''time since last rx:    '' @ since last_recv_time,
       [CHR 0x09] @ ''time since last error: '' @ since last_error_time,
       [CHR 0x0A]])"

lemma zero_stats_fields [simp]:
  "txc zero_stats = 0" "rxc zero_stats = 0" "errorc zero_stats = 0" "last_recv_time zero_stats = 0"
  "last_send_time zero_stats = 0" "last_error_time zero_stats = 0"
  by (simp_all add: zero_stats_def)

lemma report_dev_ok:
  assumes "devs_wf t" "i < num_tap_devs t" "\<And>h. ret (K h Sys_time) = now"
    and "ntop (remote_ip (devs t ! i)) = Some ip_str"
  obtains ss h' where "stats (devs t ! i) = Live ss" "length ss = num_queues t"
    "report_dev K ntop t i h = Inr (dev_report now t i (devs t ! i) ip_str ss, h')"
proof -
  note d = devs_wf_dev [OF assms(1,2)]
  from d(2) obtain fds ss where "stats (devs t ! i) = Live ss" "length ss = num_queues t"
    by (rule dev_okE)
  moreover have "i < length (tap_devs t)" using assms(2) devs_wfD(1,2) [OF assms(1)] by simp
  moreover have "total_stats ss [0..<num_queues t] zero_stats = Inr (fold add_stats ss zero_stats)"
    using total_stats_all [of ss zero_stats] \<open>length ss = _\<close> by simp
  ultimately show thesis
    using d(1) assms(3,4)
    by (intro that [of ss]) (auto simp: report_dev_def sys_def Let_def dev_report_def
        fold_add_stats_sums fold_add_stats_times)
qed

lemma report_devs_ok:
  assumes "devs_wf t" "\<And>h. ret (K h Sys_time) = now" "\<And>a. ntop a \<noteq> None"
    and "\<forall>i \<in> set ns. i < num_tap_devs t"
  shows "\<exists>h'. report_devs K ntop t ns h =
    Inr (concat (map (\<lambda>i. let d = devs t ! i in
      dev_report now t i d (the (ntop (remote_ip d))) (case stats d of Live ss \<Rightarrow> ss | _ \<Rightarrow> [])) ns), h')"
  using assms(4)
proof (induction ns arbitrary: h)
  case (Cons i ns)
  obtain ip where ip: "ntop (remote_ip (devs t ! i)) = Some ip" using assms(3) by blast
  have i: "i < num_tap_devs t" using Cons.prems by simp
  obtain ss h1 where "stats (devs t ! i) = Live ss"
      "report_dev K ntop t i h = Inr (dev_report now t i (devs t ! i) ip ss, h1)"
    using report_dev_ok [where K = K and h = h and ntop = ntop, OF assms(1) i assms(2) ip] by metis
  with Cons.IH [of h1] Cons.prems ip show ?case by (auto simp: Let_def)
qed simp

section \<open>Properties\<close>

text \<open>
  C39. The report of a tunnel with the clock at \<open>now\<close> has a line with the number of devices and then,
  for every device in order, its endpoint, name, the sums of its counters over all queues and the
  times since the latest event of each kind on any queue.
\<close>

theorem print_stats_reports_every_device:
  assumes "t_wf t" and "\<And>h. ret (K h Sys_time) = now" and "\<And>a. ntop a \<noteq> None"
  shows "\<exists>h'. tunnel_print_stats K ntop t h =
    Inr ((tun_name t @ '': '' @ show_nat (num_tap_devs t) @ '' tap device(s):'') #
      concat (map (\<lambda>i. let d = devs t ! i in
        dev_report now t i d (the (ntop (remote_ip d))) (case stats d of Live ss \<Rightarrow> ss | _ \<Rightarrow> []))
        [0..<num_tap_devs t]), h')"
proof -
  have "devs_wf t" using assms(1) by (simp add: t_wf_def)
  from report_devs_ok [where K = K and ntop = ntop and ns = "[0..<num_tap_devs t]" and h = h,
      OF this assms(2,3)]
  show ?thesis by (auto simp: tunnel_print_stats_def)
qed

definition clock_kernel :: kernel where
  "clock_kernel h c = (if c = Sys_time then reply_ok\<lparr>ret := 1000000\<rparr> else kind_kernel h c)"

definition busy_dev :: tap_dev where
  "busy_dev = \<lparr>remote_ip = 7, remote_port = 0xD204, tap_fds = Live [11, 12],
     stats = Live [zero_stats\<lparr>txc := 40, last_send_time := 900000\<rparr>,
                   zero_stats\<lparr>txc := 2, last_send_time := 999930\<rparr>], tap_name = ''tap0''\<rparr>"

definition busy_tunnel :: tunnel where
  "busy_tunnel = \<lparr>queue_ids = 2, workers = [101, 102], num_queues = 2, num_tap_devs = 1,
     tap_devs_allocated = 1, tun_map = Live \<lparr>num_entries = 0, alloc_entries = 1, nonce_a = 0,
       nonce_b = 0, entries = [zero_entry]\<rparr>, allowed_addr_list = None,
     tap_devs = [Some busy_dev], udp_fds = [5, 6], epoll_fds = [7, 8], tun_name = ''vpn'',
     tap_base_name = None, bridge_name = Some ''br0'', tun_mtu = 1500\<rparr>"


lemma busy_tunnel_wf: "t_wf busy_tunnel"
  by (simp add: t_wf_def busy_tunnel_def devs_wf_def slot_ok_def dev_ok_def busy_dev_def em_wf_def
      em_abs_def zero_entry_def routes_def exI [of _ 0])

theorem print_stats_reports_every_device_witness:
  "\<exists>h'. tunnel_print_stats clock_kernel (\<lambda>a. Some ''::7'') busy_tunnel [] =
     Inr ([''vpn: 1 tap device(s):'',
           ''vpn 0: ::7:1234 (tap0) rxc 0 txc 42 errorc 0'',
           [CHR 0x09] @ ''time since last tx:    1 minute(s) 10 second(s) '',
           [CHR 0x09] @ ''time since last rx:    never'',
           [CHR 0x09] @ ''time since last error: never'',
           [CHR 0x0A]], h')"
proof -
  have clock: "ret (clock_kernel h Sys_time) = 1000000" for h by (simp add: clock_kernel_def)
  have d: "devs busy_tunnel ! 0 = busy_dev" "num_tap_devs busy_tunnel = 1" "tun_name busy_tunnel = ''vpn''"
    by (simp_all add: devs_def busy_tunnel_def)
  have one: "show_nat (Suc 0) = ''1''" by code_simp
  have report: "dev_report 1000000 busy_tunnel 0 busy_dev ''::7''
      [zero_stats\<lparr>txc := 40, last_send_time := 900000\<rparr>, zero_stats\<lparr>txc := 2, last_send_time := 999930\<rparr>] =
      [''vpn 0: ::7:1234 (tap0) rxc 0 txc 42 errorc 0'',
       [CHR 0x09] @ ''time since last tx:    1 minute(s) 10 second(s) '',
       [CHR 0x09] @ ''time since last rx:    never'',
       [CHR 0x09] @ ''time since last error: never'', [CHR 0x0A]]"
    by code_simp
  from print_stats_reports_every_device [where K = clock_kernel and ntop = "\<lambda>a. Some ''::7''" and h = "[]",
      OF busy_tunnel_wf clock] d report
  show ?thesis by (simp add: busy_dev_def Let_def one)
qed

text \<open>
  C40. The text for a span of time: \<open>never\<close> if the event lies in the first day of the clock; otherwise
  the days, hours, minutes and seconds, those that are zero left out, add up to the span. The
  comparisons are strict, so 24 hours, 60 minutes or 60 seconds can appear.
\<close>

theorem time_since_text:
  assumes "0 \<le> diff" "diff < 2 ^ 63" "200 < len"
  shows "if now - diff < day then time_since_human_str now len diff = ''never''
    else \<exists>d h m s. diff = d * day + h * 3600 + m * 60 + s \<and>
      0 \<le> d \<and> 0 \<le> h \<and> h \<le> 24 \<and> 0 \<le> m \<and> m \<le> 60 \<and> 0 \<le> s \<and> s \<le> 60 \<and>
      time_since_human_str now len diff =
        (if diff = 0 then ''now ( < 1 second)''
         else unit_text d '' day(s) '' @ unit_text h '' hour(s) '' @ unit_text m '' minute(s) '' @
           unit_text s '' second(s) '')"
proof (cases "now - diff < day")
  case True
  then show ?thesis using assms(3) by (simp add: time_since_human_str_def)
next
  case False
  from time_since_parts [OF assms(1,2) False assms(3)] show ?thesis
    using False by (smt (verit))
qed

theorem time_since_text_witness:
  "time_since_human_str 1000000 since_len 86400 = ''24 hour(s) '' \<and>
   (\<exists>d h m s. (86400 :: int) = d * day + h * 3600 + m * 60 + s \<and> h \<le> 24)"
proof -
  have "\<not> 1000000 - 86400 < day" by (simp add: day_def)
  with time_since_text [of 86400 since_len 1000000]
  have "\<exists>d h m s. (86400 :: int) = d * day + h * 3600 + m * 60 + s \<and> h \<le> 24"
    by (auto simp: since_len_def)
  moreover have "time_since_human_str 1000000 since_len 86400 = ''24 hour(s) ''" by code_simp
  ultimately show ?thesis by blast
qed

lemma put_at_behind:
  assumes "length (pre @ rest) = 19" "length pre = k" "k + length s < 19"
  shows "\<exists>rest'. put_at k s (pre @ rest) = Inr ((pre @ s) @ rest') \<and> length ((pre @ s) @ rest') = 19"
  using assms by (auto simp: put_at_def)

lemma mac_loop_ok:
  assumes "k \<le> 6" "12 \<le> length mac" "length f = 3 * k" "length g = 3 * k"
    and "length (f @ rf) = 19" "length (g @ rg) = 19"
  shows "\<exists>x y. mac_loop mac [k..<6] (f @ rf, g @ rg) =
    Inr (f @ concat (map (\<lambda>i. hex_byte (mac ! i)) [k..<6]) @ [x],
      g @ concat (map (\<lambda>i. hex_byte (mac ! (i + 6))) [k..<6]) @ [y])"
  using assms
proof (induction k arbitrary: f rf g rg rule: inc_induct)
  case base
  then show ?case by (auto simp: length_Suc_conv)
next
  case (step k)
  have hex: "length (hex_byte b) = 3" for b by (simp add: hex_byte_def)
  obtain rf' where f: "put_at (k * 3) (hex_byte (mac ! k)) (f @ rf) = Inr ((f @ hex_byte (mac ! k)) @ rf')"
      "length ((f @ hex_byte (mac ! k)) @ rf') = 19"
    using put_at_behind [of f rf "k * 3" "hex_byte (mac ! k)"] step.prems step.hyps hex by auto
  obtain rg' where g: "put_at (k * 3) (hex_byte (mac ! (k + 6))) (g @ rg) =
        Inr ((g @ hex_byte (mac ! (k + 6))) @ rg')"
      "length ((g @ hex_byte (mac ! (k + 6))) @ rg') = 19"
    using put_at_behind [of g rg "k * 3" "hex_byte (mac ! (k + 6))"] step.prems step.hyps hex by auto
  have "[k..<6] = k # [Suc k..<6]" using step.hyps(2) by (rule upt_conv_Cons)
  moreover from step.IH [of "f @ hex_byte (mac ! k)" "g @ hex_byte (mac ! (k + 6))" rf' rg'] f(2) g(2)
    step.prems hex
  obtain x y where "mac_loop mac [Suc k..<6] ((f @ hex_byte (mac ! k)) @ rf', (g @ hex_byte (mac ! (k + 6))) @ rg') =
    Inr ((f @ hex_byte (mac ! k)) @ concat (map (\<lambda>i. hex_byte (mac ! i)) [Suc k..<6]) @ [x],
      (g @ hex_byte (mac ! (k + 6))) @ concat (map (\<lambda>i. hex_byte (mac ! (i + 6))) [Suc k..<6]) @ [y])"
    by auto
  ultimately show ?case
    using f(1) g(1) step.prems(1) step.hyps by (simp del: upt_rec_numeral)
qed

text \<open>
  With a packet of at least 12 bytes and buffers of 19 characters, the MAC addresses are written
  within the buffers: the first six bytes of the packet, which the Ethernet header has for the
  destination, as the address the frame comes from, and the next six as the one it goes to.
\<close>

lemma mac_addresses_in_bounds:
  assumes "12 \<le> length packet" and "length from_buf = 19" "length to_buf = 19"
  shows "get_mac_addr packet from_buf to_buf =
    Inr (concat (map hex_byte (take 6 packet)) @ [CHR 0x00],
         concat (map hex_byte (take 6 (drop 6 packet))) @ [CHR 0x00])"
proof -
  obtain f' g' where "mac_loop packet [0..<6] (from_buf[0 := CHR 0x00], to_buf[0 := CHR 0x00]) =
      Inr (concat (map (\<lambda>i. hex_byte (packet ! i)) [0..<6]) @ [f'],
        concat (map (\<lambda>i. hex_byte (packet ! (i + 6))) [0..<6]) @ [g'])"
    using mac_loop_ok [of 0 packet "[]" "[]" "from_buf[0 := CHR 0x00]" "to_buf[0 := CHR 0x00]"] assms
    by (metis append_Nil le0 length_list_update list.size(3) mult_0_right)
  moreover have "map (\<lambda>i. hex_byte (packet ! i)) [0..<6] = map hex_byte (take 6 packet)"
    and "map (\<lambda>i. hex_byte (packet ! (i + 6))) [0..<6] = map hex_byte (take 6 (drop 6 packet))"
    using assms(1) by (auto intro!: nth_equalityI simp: add.commute simp del: upt_rec_numeral)
  moreover have "length (concat (map hex_byte bs)) = 3 * length bs" for bs
    by (induction bs) (simp_all add: hex_byte_def)
  ultimately show ?thesis
    using assms by (simp add: get_mac_addr_def put_null_def list_update_append del: upt_rec_numeral)
qed

end
