(* ===== verification/Tunnel_List.thy ===== *)
theory Tunnel_List
  imports Interfaces
begin

text \<open>
  The growing list of tunnels at the end of \<^verbatim>\<open>src/src/tunnel.c\<close>. The array is a list of cells,
  none for a cell that \<^verbatim>\<open>realloc\<close> left uninitialised. \<open>tl_wf\<close> is the invariant, \<open>tl_view\<close> the list of
  tunnels it stands for; the interface \<open>append_list\<close> is interpreted on it.
\<close>

section \<open>Operations\<close>

record 'a tunnel_list =
  alloc_size :: int
  num_tunnels :: int
  tunnels :: "'a option list"

definition tunnel_list_create :: "bool \<Rightarrow> 'a tunnel_list option" where
  "tunnel_list_create malloc_ok =
     (if \<not> malloc_ok then None
      else Some \<lparr>alloc_size = 1, num_tunnels = 0, tunnels = []\<rparr>)"

text \<open>
  The pointer the C function returns as a \<^verbatim>\<open>bool\<close> is \<open>NULL\<close> after a failed \<^verbatim>\<open>realloc\<close>, when the
  count has already been incremented.
\<close>

definition tunnel_list_add :: "bool \<Rightarrow> 'a tunnel_list \<Rightarrow> 'a \<Rightarrow> (bool \<times> 'a tunnel_list) res" where
  "tunnel_list_add realloc_ok list t =
     (let next_tunnel = num_tunnels list;
          list' = list\<lparr>num_tunnels := num_tunnels list + 1\<rparr>;
          store = (\<lambda>l. if nat next_tunnel < length (tunnels l)
                       then Inr (True, l\<lparr>tunnels := (tunnels l)[nat next_tunnel := Some t]\<rparr>)
                       else Inl Out_Of_Bounds)
      in
        if num_tunnels list' \<ge> alloc_size list' then
          (let new_size = alloc_size list' * 2 in
           if new_size \<ge> 2 ^ 31 then Inl Signed_Overflow
           else if \<not> realloc_ok then Inr (False, list')
           else store (list'\<lparr>alloc_size := new_size,
                  tunnels := tunnels list' @ replicate (nat new_size - length (tunnels list')) None\<rparr>))
        else store list')"

definition cell :: "'a tunnel_list \<Rightarrow> int \<Rightarrow> 'a res" where
  "cell list i = cell_at (tunnels list) (nat i)"

definition tunnel_list_get :: "'a tunnel_list \<Rightarrow> int \<Rightarrow> 'a option res" where
  "tunnel_list_get list index =
     (if index < 0 \<or> index \<ge> num_tunnels list then Inr None
      else bind_res (cell list index) (\<lambda>t. Inr (Some t)))"

definition tunnel_list_size :: "'a tunnel_list \<Rightarrow> nat" where
  "tunnel_list_size list = nat (num_tunnels list)"

text \<open>Deletion: \<open>del\<close> is \<^verbatim>\<open>tunnel_delete\<close> on a state of its own; no list is the null pointer.\<close>

fun delete_cells :: "('a \<Rightarrow> 'u \<Rightarrow> 'u res) \<Rightarrow> 'a tunnel_list \<Rightarrow> int list \<Rightarrow> 'u \<Rightarrow> 'u res" where
  "delete_cells del list [] u = Inr u"
| "delete_cells del list (i # is) u =
     bind_res (cell list i) (\<lambda>t. bind_res (del t u) (\<lambda>u'. delete_cells del list is u'))"

definition tunnel_list_delete :: "('a \<Rightarrow> 'u \<Rightarrow> 'u res) \<Rightarrow> 'a tunnel_list option \<Rightarrow> 'u \<Rightarrow> 'u res" where
  "tunnel_list_delete del list u =
     (case list of
        None \<Rightarrow> Inr u
      | Some l \<Rightarrow> delete_cells del l [0..num_tunnels l - 1] u)"

section \<open>Invariant and view\<close>

definition tl_wf :: "'a tunnel_list \<Rightarrow> bool" where
  "tl_wf l \<longleftrightarrow> 0 \<le> num_tunnels l \<and> num_tunnels l < alloc_size l \<and> 0 < alloc_size l \<and>
     alloc_size l < 2 ^ 30 \<and>
     (num_tunnels l = 0 \<and> tunnels l = [] \<or> length (tunnels l) = nat (alloc_size l)) \<and>
     (\<forall>i < nat (num_tunnels l). tunnels l ! i \<noteq> None) \<and>
     list_all (\<lambda>c. c = None) (drop (nat (num_tunnels l)) (tunnels l))"

definition tl_view :: "'a tunnel_list \<Rightarrow> 'a list" where
  "tl_view l = map the (take (nat (num_tunnels l)) (tunnels l))"

lemma tl_wfD:
  assumes "tl_wf l"
  shows "0 \<le> num_tunnels l" "num_tunnels l < alloc_size l" "alloc_size l < 2 ^ 30"
    "length (tunnels l) = nat (alloc_size l) \<or> num_tunnels l = 0 \<and> tunnels l = []"
    "i < nat (num_tunnels l) \<Longrightarrow> \<exists>t. tunnels l ! i = Some t"
    "list_all (\<lambda>c. c = None) (drop (nat (num_tunnels l)) (tunnels l))"
  using assms by (auto simp: tl_wf_def)

lemma length_tl_view [simp]: "tl_wf l \<Longrightarrow> length (tl_view l) = nat (num_tunnels l)"
  using tl_wfD [of l] by (auto simp: tl_view_def min_def)

lemma nth_tl_view [simp]:
  "tl_wf l \<Longrightarrow> i < nat (num_tunnels l) \<Longrightarrow> tl_view l ! i = the (tunnels l ! i)"
  using tl_wfD [of l] by (auto simp: tl_view_def)

lemma create_tl_wf [wf_intros]: "tunnel_list_create ok = Some l \<Longrightarrow> tl_wf l \<and> tl_view l = []"
  by (auto simp: tunnel_list_create_def tl_wf_def tl_view_def split: if_splits)

lemma drop_Suc_nth_None:
  "list_all P (drop n xs) \<Longrightarrow> list_all P (drop (Suc n) xs)"
  by (metis list_all_iff set_drop_subset_set_drop subsetD le_SucI order_refl)

text \<open>Storing a tunnel behind the stored ones in a large enough array.\<close>

lemma store_wf:
  assumes "tl_wf l" and n: "n = num_tunnels l" and "length ts = nat a" "n + 1 < a" "a < 2 ^ 30"
    and same: "\<And>i. i < nat n \<Longrightarrow> ts ! i = tunnels l ! i"
    and rest: "list_all (\<lambda>c. c = None) (drop (nat n) ts)"
  shows "tl_wf (l\<lparr>num_tunnels := n + 1, alloc_size := a, tunnels := ts[nat n := Some t]\<rparr>) \<and>
    tl_view (l\<lparr>num_tunnels := n + 1, alloc_size := a, tunnels := ts[nat n := Some t]\<rparr>) =
      tl_view l @ [t]"
    (is "tl_wf ?l \<and> _")
proof
  note D = tl_wfD [OF assms(1)]
  have len: "nat n < length ts" and suc: "nat (n + 1) = Suc (nat n)"
    using D(1) assms(3,4) n by auto
  have old: "ts[nat n := Some t] ! i = (if i = nat n then Some t else tunnels l ! i)"
    if "i < Suc (nat n)" for i
    using that len same by (auto simp: nth_list_update)
  show wf: "tl_wf ?l"
    unfolding tl_wf_def
  proof (intro conjI)
    show "\<forall>i < nat (num_tunnels ?l). tunnels ?l ! i \<noteq> None"
      using D(5) n suc old by (fastforce simp: less_Suc_eq)
    show "list_all (\<lambda>c. c = None) (drop (nat (num_tunnels ?l)) (tunnels ?l))"
      using rest suc len by (simp add: drop_Suc_nth_None)
  qed (use assms(3-5) D(1) n in auto)
  show "tl_view ?l = tl_view l @ [t]"
  proof (rule nth_equalityI)
    show "length (tl_view ?l) = length (tl_view l @ [t])"
      using wf assms(1) n suc by simp
  next
    fix i assume "i < length (tl_view ?l)"
    then have i: "i < Suc (nat n)" using wf suc by simp
    then have "tl_view ?l ! i = the (ts[nat n := Some t] ! i)"
      using nth_tl_view [OF wf, of i] suc by simp
    with i old [OF i] assms(1) n show "tl_view ?l ! i = (tl_view l @ [t]) ! i"
      by (auto simp: nth_append less_Suc_eq)
  qed
qed

lemma tunnel_list_add_ok:
  assumes "tl_wf l" and "tunnel_list_add realloc_ok l t = Inr (ok, l')" and "ok"
    and "alloc_size l < 2 ^ 29"
  shows "tl_wf l' \<and> tl_view l' = tl_view l @ [t]"
proof -
  note D = tl_wfD [OF assms(1)]
  let ?n = "num_tunnels l"
  show ?thesis
  proof (cases "?n + 1 \<ge> alloc_size l")
    case True
    let ?a = "alloc_size l * 2"
    let ?ts = "tunnels l @ replicate (nat ?a - length (tunnels l)) None"
    have l': "l' = l\<lparr>num_tunnels := ?n + 1, alloc_size := ?a, tunnels := ?ts[nat ?n := Some t]\<rparr>"
      using assms(2,3) True by (auto simp: tunnel_list_add_def Let_def split: if_splits)
    have "length ?ts = nat ?a" using D by auto
    moreover have "?ts ! i = tunnels l ! i" if "i < nat ?n" for i
      using that D(1,2,4) by (auto simp: nth_append)
    moreover have "list_all (\<lambda>c. c = None) (drop (nat ?n) ?ts)"
      using D(6) by (auto simp: list_all_iff)
    ultimately show ?thesis
      unfolding l' using D(1,2) assms(4) True by (intro store_wf [OF assms(1) refl]) auto
  next
    case False
    then have "length (tunnels l) = nat (alloc_size l) \<or> nat ?n < length (tunnels l)"
      and l': "l' = l\<lparr>num_tunnels := ?n + 1, alloc_size := alloc_size l,
                     tunnels := (tunnels l)[nat ?n := Some t]\<rparr>"
      and "nat ?n < length (tunnels l)"
      using assms(2,3) by (auto simp: tunnel_list_add_def Let_def split: if_splits)
    then have "length (tunnels l) = nat (alloc_size l)" using D(4) by auto
    then show ?thesis
      unfolding l' using False D(3,6) by (intro store_wf [OF assms(1) refl]) auto
  qed
qed

lemma tunnel_list_get_view:
  assumes "tl_wf l"
  shows "tunnel_list_get l i =
    Inr (if 0 \<le> i \<and> nat i < length (tl_view l) then Some (tl_view l ! nat i) else None)"
proof (cases "0 \<le> i \<and> i < num_tunnels l")
  case True
  note D = tl_wfD [OF assms]
  from True have i: "nat i < nat (num_tunnels l)" by simp
  with D(1,2,4) have "nat i < length (tunnels l)" by auto
  moreover obtain y where "tunnels l ! nat i = Some y" using D(5) [OF i] by blast
  ultimately show ?thesis
    using True i assms by (simp add: tunnel_list_get_def cell_def)
next
  case False
  with assms show ?thesis by (auto simp: tunnel_list_get_def)
qed


interpretation tl: append_list tl_wf tl_view
  "\<lambda>l t l'. alloc_size l < 2 ^ 29 \<and> tunnel_list_add True l t = Inr (True, l')"
  tunnel_list_size tunnel_list_get
proof unfold_locales
  fix l l' :: "'a tunnel_list" and t
  assume "tl_wf l" "alloc_size l < 2 ^ 29 \<and> tunnel_list_add True l t = Inr (True, l')"
  then show "tl_wf l' \<and> tl_view l' = tl_view l @ [t]"
    using tunnel_list_add_ok [of l True t True l'] by simp
qed (simp_all add: tunnel_list_size_def tunnel_list_get_view)

lemma delete_cells_reaches:
  assumes "\<And>i. i \<in> set is \<Longrightarrow> \<exists>t. cell l i = Inr t \<and> (\<forall>u. \<exists>u'. del t u = Inr u')"
    and "cell l j = Inl f"
  shows "delete_cells del l (is @ [j]) u = Inl f"
  using assms(1)
proof (induction "is" arbitrary: u)
  case Nil
  with assms(2) show ?case by simp
next
  case (Cons i "is")
  then obtain t u' where "cell l i = Inr t" "del t u = Inr u'" by force
  with Cons show ?case by simp
qed

lemma failed_add:
  assumes "tl_wf l" and "num_tunnels l + 1 \<ge> alloc_size l"
    and del: "\<And>t u. t \<in> set (tl_view l) \<Longrightarrow> \<exists>u'. del t u = Inr u'"
  shows "\<exists>l'. tunnel_list_add False l t = Inr (False, l') \<and>
    (\<exists>f. tunnel_list_get l' (num_tunnels l) = Inl f) \<and>
    (\<exists>f. tunnel_list_delete del (Some l') u = Inl f)"
proof -
  note D = tl_wfD [OF assms(1)]
  let ?n = "num_tunnels l" and ?l = "l\<lparr>num_tunnels := num_tunnels l + 1\<rparr>"
  have add: "tunnel_list_add False l t = Inr (False, ?l)"
    using assms(2) D(3) by (simp add: tunnel_list_add_def Let_def)
  have bad: "\<exists>f. cell ?l ?n = Inl f"
    using D(1,6) by (auto simp: cell_def cell_at_def at_index_def list_all_iff in_set_conv_nth split: option.splits)
      (metis Cons_nth_drop_Suc list.set_intros(1) option.distinct(1))
  then obtain f where f: "cell ?l ?n = Inl f" by blast
  have "\<exists>t. cell ?l i = Inr t \<and> (\<forall>u. \<exists>u'. del t u = Inr u')" if "i \<in> set [0..?n - 1]" for i
  proof -
    from that have i: "nat i < nat ?n" "0 \<le> i" by auto
    then obtain t where t: "tunnels l ! nat i = Some t" using D(5) by blast
    with i D(1,2,4) have "cell ?l i = Inr t" by (auto simp: cell_def)
    moreover have "t \<in> set (tl_view l)"
      using nth_tl_view [OF assms(1) i(1)] i(1) t assms(1) by (metis length_tl_view nth_mem option.sel)
    ultimately show ?thesis using del by blast
  qed
  from delete_cells_reaches [OF this f] have "delete_cells del ?l ([0..?n - 1] @ [?n]) u = Inl f" .
  moreover have "[0..?n] = [0..?n - 1] @ [?n]" using D(1) by (simp add: upto_rec2)
  ultimately have "tunnel_list_delete del (Some ?l) u = Inl f"
    by (simp add: tunnel_list_delete_def)
  with add f D(1) show ?thesis by (auto simp: tunnel_list_get_def)
qed

section \<open>Properties\<close>

text \<open>
  Adding a tunnel to the list stores it behind the others: the list stays well-formed, the new
  index gives the new tunnel and every other index what it gave before.
\<close>

lemma tunnel_list_add_appends:
  assumes "tl_wf l" and "alloc_size l < 2 ^ 29" and "tunnel_list_add True l t = Inr (True, l')"
  shows "tl_wf l' \<and> tunnel_list_size l' = Suc (tunnel_list_size l) \<and>
    tunnel_list_get l' i =
      (if i = int (tunnel_list_size l) then Inr (Some t) else tunnel_list_get l i)"
  using tl.get_appended [OF assms(1), of t l'] tl.inv_appended [OF assms(1), of t l'] assms(2,3)
  by simp

definition example_list :: "nat tunnel_list" where
  "example_list = \<lparr>alloc_size = 2, num_tunnels = 1, tunnels = [Some 7, None]\<rparr>"

lemma tunnel_list_add_appends_example:
  "\<exists>l'. tunnel_list_add True example_list 8 = Inr (True, l') \<and>
     tunnel_list_get l' 0 = Inr (Some 7) \<and> tunnel_list_get l' 1 = Inr (Some 8)"
proof -
  let ?l = "\<lparr>alloc_size = 4, num_tunnels = 2, tunnels = [Some 7, Some 8, None, None]\<rparr> :: nat tunnel_list"
  have wf: "tl_wf example_list" and small: "alloc_size example_list < 2 ^ 29"
    and add: "tunnel_list_add True example_list 8 = Inr (True, ?l)"
    and first: "tunnel_list_get example_list 0 = Inr (Some 7)" "tunnel_list_size example_list = 1"
    by code_simp+
  from add first tunnel_list_add_appends [OF wf small add, of 0]
    tunnel_list_add_appends [OF wf small add, of 1] show ?thesis by simp
qed

text \<open>
  C38. When the list cannot grow, the addition reports failure but has counted the tunnel: the last
  index then leads out of the array, and deleting the list, as the caller does next, reads there.
\<close>

theorem failed_add_leaves_bad_count:
  assumes "tl_wf l" and "num_tunnels l + 1 \<ge> alloc_size l"
    and "\<And>t u. t \<in> set (tl_view l) \<Longrightarrow> \<exists>u'. del t u = Inr u'"
  shows "\<exists>l'. tunnel_list_add False l t = Inr (False, l') \<and>
    (\<exists>f. tunnel_list_get l' (num_tunnels l) = Inl f) \<and>
    (\<exists>f. tunnel_list_delete del (Some l') u = Inl f)"
  by (rule failed_add [OF assms])

theorem failed_add_leaves_bad_count_witness:
  "\<exists>l'. tunnel_list_add False example_list 8 = Inr (False, l') \<and>
     (\<exists>f. tunnel_list_delete (\<lambda>t u. Inr (t # u)) (Some l') [] = Inl f)"
proof -
  have wf: "tl_wf example_list" and full: "num_tunnels example_list + 1 \<ge> alloc_size example_list"
    by code_simp+
  from failed_add_leaves_bad_count [OF wf full, of "\<lambda>t u. Inr (t # u)" 8 "[]"] show ?thesis by auto
qed

end
