(* ===== verification/Ini.thy ===== *)
theory Ini
  imports C_String
begin

text \<open>
  \<^verbatim>\<open>src/src/ini.c\<close>: the configuration file parser, as a function of the contents of the file and
  of the callback. The callback takes the key and the value (none is a null pointer) and the user
  data, which it returns changed; it may fault. The properties are the round trip of a rendered
  file and that a callback is only ever given single words.
\<close>

section \<open>The parser\<close>

definition iswhitespace :: "char \<Rightarrow> bool" where
  "iswhitespace c \<longleftrightarrow> c = CHR '' '' \<or> c = CHR 0x09 \<or> c = CHR 0x0A \<or> c = CHR 0x0D"

text \<open>The null character written at the first white space ends the string there.\<close>

definition trim_whitespace :: "string \<Rightarrow> string" where
  "trim_whitespace str = takeWhile (\<lambda>c. \<not> iswhitespace c) (dropWhile iswhitespace str)"

type_synonym 'u ini_parse_callback = "string option \<Rightarrow> string option \<Rightarrow> 'u \<Rightarrow> (bool \<times> 'u) res"

text \<open>How one line ends: the next one is read, or one of the three messages is printed.\<close>

datatype line_outcome = Next_Line | Callback_Error | Invalid_Line | Invalid_Section_Header

definition call_back ::
  "'u ini_parse_callback \<Rightarrow> string option \<Rightarrow> string option \<Rightarrow> 'u \<Rightarrow> (line_outcome \<times> 'u) res" where
  "call_back cb key value u =
     bind_res (cb key value u) (\<lambda>(ok, u'). Inr (if ok then Next_Line else Callback_Error, u'))"

definition strip_comment :: "string \<Rightarrow> string" where
  "strip_comment line = (case strchr line CHR '';'' of Some i \<Rightarrow> take i line | None \<Rightarrow> line)"

text \<open>
  The body of the loop. A section name starts behind the opening bracket in the buffer in which
  both brackets have become null characters, in whichever order they came.
\<close>

definition ini_line ::
  "'u ini_parse_callback \<Rightarrow> string \<Rightarrow> 'u \<Rightarrow> (line_outcome \<times> 'u) res" where
  "ini_line cb buf u =
     (let line = strip_comment (cstr buf) in
      case (strchr line CHR ''['', strchr line CHR '']'') of
        (Some open_section, Some close_section) \<Rightarrow>
          (let line' = line[open_section := CHR 0x00, close_section := CHR 0x00];
               section = trim_whitespace (cstr (drop (open_section + 1) line'))
           in call_back cb (Some section) None u)
      | (None, None) \<Rightarrow>
          (case strchr line CHR ''='' of
             Some i \<Rightarrow>
               (let key = trim_whitespace (take i line);
                    value = trim_whitespace (drop (i + 1) line)
                in call_back cb (Some key) (Some value) u)
           | None \<Rightarrow>
               if list_all iswhitespace line then Inr (Next_Line, u) else Inr (Invalid_Line, u))
      | _ \<Rightarrow> Inr (Invalid_Section_Header, u))"

text \<open>The loop, with the number of the line it stopped at, which the messages give.\<close>

fun ini_lines ::
  "'u ini_parse_callback \<Rightarrow> string list \<Rightarrow> nat \<Rightarrow> 'u \<Rightarrow> (line_outcome \<times> nat \<times> 'u) res" where
  "ini_lines cb [] line_no u = Inr (Next_Line, line_no, u)"
| "ini_lines cb (l # ls) line_no u =
     bind_res (ini_line cb l u) (\<lambda>(out, u').
       if out = Next_Line then ini_lines cb ls (line_no + 1) u'
       else Inr (out, line_no + 1, u'))"

datatype ini_result = Parsed | Open_Failed | Stopped line_outcome nat

text \<open>\<^verbatim>\<open>char line[2048]\<close> takes 2047 characters of a line at a time. No contents: \<^verbatim>\<open>fopen\<close> failed.\<close>

definition ini_parse_file ::
  "string option \<Rightarrow> 'u ini_parse_callback \<Rightarrow> 'u \<Rightarrow> (ini_result \<times> 'u) res" where
  "ini_parse_file contents cb u =
     (case contents of
        None \<Rightarrow> Inr (Open_Failed, u)
      | Some text \<Rightarrow>
          bind_res (ini_lines cb (fgets_lines 2047 text) 0 u) (\<lambda>(out, line_no, u').
            if out \<noteq> Next_Line then Inr (Stopped out line_no, u')
            else bind_res (call_back cb None None u') (\<lambda>(out, u'').
              Inr (if out = Next_Line then Parsed else Stopped out line_no, u''))))"

section \<open>Words\<close>

text \<open>A word: what a key, a value or a section name can be.\<close>

definition ini_special :: "char set" where
  "ini_special = {CHR 0x00, CHR '';'', CHR ''['', CHR '']''}"

definition is_word :: "string \<Rightarrow> bool" where
  "is_word s \<longleftrightarrow> (\<forall>c \<in> set s. \<not> iswhitespace c \<and> c \<notin> ini_special)"

definition blank :: "string \<Rightarrow> bool" where
  "blank s \<longleftrightarrow> (\<forall>c \<in> set s. iswhitespace c)"

lemma whitespace_not_special: "iswhitespace c \<Longrightarrow> c \<notin> ini_special \<and> c \<noteq> CHR ''=''"
  by (auto simp: iswhitespace_def ini_special_def)

lemma blank_Nil [simp]: "blank []"
  by (simp add: blank_def)

lemma dropWhile_blank [simp]: "blank p \<Longrightarrow> dropWhile iswhitespace (p @ s) = dropWhile iswhitespace s"
  by (induction p) (auto simp: blank_def)

lemma trim_blank [simp]: "blank p \<Longrightarrow> trim_whitespace (p @ s) = trim_whitespace s"
  by (simp add: trim_whitespace_def)

lemma trim_only_blank [simp]: "blank p \<Longrightarrow> trim_whitespace p = []"
  using trim_blank [of p "[]"] by (simp add: trim_whitespace_def)

text \<open>What may follow a word: nothing, or white space and then anything but the special characters.\<close>

definition tail_ok :: "string \<Rightarrow> bool" where
  "tail_ok s \<longleftrightarrow> (s = [] \<or> iswhitespace (hd s)) \<and> (\<forall>c \<in> set s. c \<notin> ini_special)"

lemma takeWhile_tail: "tail_ok q \<Longrightarrow> takeWhile (\<lambda>c. \<not> iswhitespace c) q = []"
  by (cases q) (auto simp: tail_ok_def)

lemma blank_tail_ok: "blank q \<Longrightarrow> tail_ok q"
  using whitespace_not_special by (cases q) (auto simp: blank_def tail_ok_def)

lemma trim_word [simp]: "is_word w \<Longrightarrow> w \<noteq> [] \<Longrightarrow> tail_ok q \<Longrightarrow> trim_whitespace (w @ q) = w"
proof (cases w)
  case (Cons c cs)
  assume "is_word w" "tail_ok q"
  with Cons have "dropWhile iswhitespace (w @ q) = w @ q"
    and "\<And>c. c \<in> set w \<Longrightarrow> \<not> iswhitespace c"
    by (auto simp: is_word_def)
  with \<open>tail_ok q\<close> show ?thesis
    by (simp add: trim_whitespace_def takeWhile_append2 [of w] takeWhile_tail)
qed simp

lemma trim_no_whitespace: "c \<in> set (trim_whitespace s) \<Longrightarrow> \<not> iswhitespace c \<and> c \<in> set s"
  unfolding trim_whitespace_def by (auto dest: set_takeWhileD set_dropWhileD)

lemma cstr_no_null: "CHR 0x00 \<notin> set (cstr s)"
  by (auto simp: cstr_def dest: set_takeWhileD)

lemma set_cstr: "set (cstr s) \<subseteq> set s"
  by (auto simp: cstr_def dest: set_takeWhileD)

lemma strip_comment_eq: "strip_comment s = takeWhile (\<lambda>c. c \<noteq> CHR '';'') s"
  by (auto simp: strip_comment_def take_strchr takeWhile_notin split: option.splits)

lemma strip_comment_clean: "CHR '';'' \<notin> set (strip_comment s) \<and> set (strip_comment s) \<subseteq> set s"
  by (auto simp: strip_comment_eq dest: set_takeWhileD)

lemma trim_word_blank [simp]: "is_word w \<Longrightarrow> blank q \<Longrightarrow> trim_whitespace (w @ q) = w"
  by (cases "w = []") (auto simp: blank_tail_ok)

section \<open>One line\<close>

text \<open>A comment is empty or starts with a semicolon.\<close>

definition is_comment :: "string \<Rightarrow> bool" where
  "is_comment s \<longleftrightarrow> (s = [] \<or> hd s = CHR '';'')"

lemma strip_comment_append [simp]:
  "CHR '';'' \<notin> set s \<Longrightarrow> is_comment c \<Longrightarrow> strip_comment (s @ c) = s"
  unfolding strip_comment_eq
  by (cases c) (auto simp: is_comment_def takeWhile_notin)

lemma cstr_append_comment:
  "CHR 0x00 \<notin> set s \<Longrightarrow> is_comment c \<Longrightarrow> \<exists>c'. cstr (s @ c) = s @ c' \<and> is_comment c'"
  by (rule exI [of _ "cstr c"], cases c) (auto simp: cstr_def is_comment_def)

lemma line_of_comment:
  "CHR 0x00 \<notin> set s \<Longrightarrow> CHR '';'' \<notin> set s \<Longrightarrow> is_comment c \<Longrightarrow>
     strip_comment (cstr (s @ c)) = s"
  using cstr_append_comment [of s c] by auto

lemma word_chars:
  "is_word w \<Longrightarrow> CHR 0x00 \<notin> set w \<and> CHR '';'' \<notin> set w \<and> CHR ''['' \<notin> set w \<and> CHR '']'' \<notin> set w"
  by (auto simp: is_word_def ini_special_def)

lemma blank_chars:
  "blank w \<Longrightarrow> CHR 0x00 \<notin> set w \<and> CHR '';'' \<notin> set w \<and> CHR ''['' \<notin> set w \<and>
     CHR '']'' \<notin> set w \<and> CHR ''='' \<notin> set w"
  using whitespace_not_special by (auto simp: blank_def ini_special_def)

lemma tail_chars:
  "tail_ok w \<Longrightarrow> CHR 0x00 \<notin> set w \<and> CHR '';'' \<notin> set w \<and> CHR ''['' \<notin> set w \<and> CHR '']'' \<notin> set w"
  by (auto simp: tail_ok_def ini_special_def)

lemma ini_line_entry:
  assumes "is_word key" "CHR ''='' \<notin> set key" "is_word value" "value \<noteq> []"
    and "blank p1" "blank p2" "blank p3" "tail_ok p4" "is_comment c"
  shows "ini_line cb (p1 @ key @ p2 @ ''='' @ p3 @ value @ p4 @ c) u =
    call_back cb (Some key) (Some value) u"
proof -
  let ?l = "p1 @ key @ p2 @ ''='' @ p3 @ value @ p4"
  note chars = word_chars [OF assms(1)] word_chars [OF assms(3)] blank_chars [OF assms(5)]
    blank_chars [OF assms(6)] blank_chars [OF assms(7)] tail_chars [OF assms(8)]
  have line: "strip_comment (cstr (?l @ c)) = ?l"
    by (rule line_of_comment) (use chars assms(9) in auto)
  have eq: "strchr ?l CHR ''='' = Some (length (p1 @ key @ p2))"
    using chars assms(2) strchr_append [of "CHR ''=''" "p1 @ key @ p2" "''='' @ p3 @ value @ p4"]
    by simp
  have "strchr ?l CHR ''['' = None" "strchr ?l CHR '']'' = None"
    by (rule strchr_NoneI, use chars in auto)+
  with line eq assms show ?thesis by (simp add: ini_line_def Let_def del: strchr_None_iff)
qed

lemma ini_line_section:
  assumes "is_word name" "blank p1" "blank p2" "blank p3" "blank p4" "is_comment c"
  shows "ini_line cb (p1 @ ''['' @ p2 @ name @ p3 @ '']'' @ p4 @ c) u = call_back cb (Some name) None u"
proof -
  let ?l = "p1 @ ''['' @ p2 @ name @ p3 @ '']'' @ p4"
  note chars = word_chars [OF assms(1)] blank_chars [OF assms(2)]
    blank_chars [OF assms(3)] blank_chars [OF assms(4)] blank_chars [OF assms(5)]
  have line: "strip_comment (cstr (?l @ c)) = ?l"
    by (rule line_of_comment) (use chars assms(6) in auto)
  have o: "strchr ?l CHR ''['' = Some (length p1)"
    using chars strchr_append [of "CHR ''[''" p1 "''['' @ p2 @ name @ p3 @ '']'' @ p4"] by simp
  have c: "strchr ?l CHR '']'' = Some (length (p1 @ ''['' @ p2 @ name @ p3))"
    using chars strchr_append [of "CHR '']''" "p1 @ ''['' @ p2 @ name @ p3" "'']'' @ p4"] by simp
  have upd: "?l[length p1 := CHR 0x00, length (p1 @ ''['' @ p2 @ name @ p3) := CHR 0x00] =
      p1 @ [CHR 0x00] @ (p2 @ name @ p3) @ [CHR 0x00] @ p4"
    by (simp add: list_update_append)
  have "cstr (drop (length p1 + 1) (p1 @ [CHR 0x00] @ (p2 @ name @ p3) @ [CHR 0x00] @ p4)) =
      p2 @ name @ p3"
    using chars by (simp add: cstr_def)
  then show ?thesis
    using line o c upd assms by (simp add: ini_line_def Let_def)
qed

lemma ini_line_blank:
  assumes "blank p" "is_comment c"
  shows "ini_line cb (p @ c) u = Inr (Next_Line, u)"
proof -
  have "strip_comment (cstr (p @ c)) = p"
    by (rule line_of_comment) (use blank_chars [OF assms(1)] assms(2) in auto)
  then show ?thesis
    using blank_chars [OF assms(1)] assms(1)
    by (simp add: ini_line_def Let_def blank_def list_all_iff)
qed

section \<open>A rendered file\<close>

datatype ini_item = Ini_Section string | Ini_Entry string string | Ini_Nothing

text \<open>The white space around the parts of a line, what follows the last of them, and the comment.\<close>

record ini_layout =
  lay_before :: string
  lay_left :: string
  lay_right :: string
  lay_after :: string
  lay_comment :: string

fun render_item :: "ini_layout \<times> ini_item \<Rightarrow> string" where
  "render_item (l, Ini_Section name) =
     lay_before l @ ''['' @ lay_left l @ name @ lay_right l @ '']'' @ lay_after l @ lay_comment l"
| "render_item (l, Ini_Entry key value) =
     lay_before l @ key @ lay_left l @ ''='' @ lay_right l @ value @ lay_after l @ lay_comment l"
| "render_item (l, Ini_Nothing) = lay_before l @ lay_comment l"

fun item_ok :: "ini_item \<Rightarrow> bool" where
  "item_ok (Ini_Section name) \<longleftrightarrow> is_word name"
| "item_ok (Ini_Entry key value) \<longleftrightarrow>
     is_word key \<and> CHR ''='' \<notin> set key \<and> is_word value \<and> value \<noteq> []"
| "item_ok Ini_Nothing \<longleftrightarrow> True"

definition layout_ok :: "ini_layout \<Rightarrow> bool" where
  "layout_ok l \<longleftrightarrow> blank (lay_before l) \<and> blank (lay_left l) \<and> blank (lay_right l) \<and>
     tail_ok (lay_after l) \<and> is_comment (lay_comment l)"

text \<open>A line also fits the buffer; behind a closing bracket only white space may follow.\<close>

definition line_ok :: "ini_layout \<times> ini_item \<Rightarrow> bool" where
  "line_ok x \<longleftrightarrow> layout_ok (fst x) \<and> item_ok (snd x) \<and> length (render_item x) < 2047 \<and>
     CHR 0x0A \<notin> set (render_item x) \<and> (case snd x of Ini_Section name \<Rightarrow> blank (lay_after (fst x)) | _ \<Rightarrow> True)"

definition render_file :: "(ini_layout \<times> ini_item) list \<Rightarrow> string" where
  "render_file xs = concat (map (\<lambda>x. render_item x @ [CHR 0x0A]) xs)"

type_synonym ini_event = "string option \<times> string option"

fun item_events :: "ini_item \<Rightarrow> ini_event list" where
  "item_events (Ini_Section name) = [(Some name, None)]"
| "item_events (Ini_Entry key value) = [(Some key, Some value)]"
| "item_events Ini_Nothing = []"

text \<open>The callback on a list of events, until it refuses one.\<close>

fun deliver :: "'u ini_parse_callback \<Rightarrow> ini_event list \<Rightarrow> 'u \<Rightarrow> (bool \<times> 'u) res" where
  "deliver cb [] u = Inr (True, u)"
| "deliver cb (e # es) u =
     bind_res (cb (fst e) (snd e) u) (\<lambda>(ok, u'). if ok then deliver cb es u' else Inr (False, u'))"

definition succeeds :: "(line_outcome \<times> 'b) res \<Rightarrow> (bool \<times> 'b) res" where
  "succeeds r = bind_res r (\<lambda>(out, x). Inr (out = Next_Line, x))"

lemma bind_res_assoc: "bind_res (bind_res r k) l = bind_res r (\<lambda>x. bind_res (k x) l)"
  by (cases r) auto

lemma call_back_deliver:
  "bind_res (call_back cb k v u) (\<lambda>(out, u'). if out = Next_Line then f u' else g out u') =
   bind_res (cb k v u) (\<lambda>(ok, u'). if ok then f u' else g Callback_Error u')"
  by (auto simp: call_back_def bind_res_assoc intro!: bind_res_cong)

lemma blank_newline: "blank p \<Longrightarrow> blank (p @ [CHR 0x0A])"
  by (simp add: blank_def iswhitespace_def)

lemma tail_newline: "tail_ok p \<Longrightarrow> tail_ok (p @ [CHR 0x0A])"
  by (cases p) (auto simp: tail_ok_def iswhitespace_def ini_special_def)

text \<open>The newline belongs to the comment if there is one, to the white space otherwise.\<close>

lemma end_of_line:
  assumes "is_comment c"
  obtains a' c' where "a @ c @ [CHR 0x0A] = a' @ c'" "is_comment c'"
    "tail_ok a \<longrightarrow> tail_ok a'" "blank a \<longrightarrow> blank a'"
proof (cases c)
  case Nil
  then show ?thesis
    using that [of "a @ [CHR 0x0A]" "[]"] by (simp add: is_comment_def tail_newline blank_newline)
next
  case (Cons x xs)
  with assms show ?thesis
    using that [of a "c @ [CHR 0x0A]"] by (simp add: is_comment_def)
qed

lemma ini_line_item:
  assumes "line_ok (l, i)"
  shows "ini_line cb (render_item (l, i) @ [CHR 0x0A]) u =
    (case item_events i of [] \<Rightarrow> Inr (Next_Line, u) | e # _ \<Rightarrow> call_back cb (fst e) (snd e) u)"
proof -
  have lay: "layout_ok l" and item: "item_ok i" using assms by (simp_all add: line_ok_def)
  have c: "is_comment (lay_comment l)" using lay by (simp add: layout_ok_def)
  note lay = lay [unfolded layout_ok_def]
  show ?thesis
  proof (cases i)
    case (Ini_Section name)
    obtain a c where ac: "lay_after l @ lay_comment l @ [CHR 0x0A] = a @ c" "is_comment c"
        "blank (lay_after l) \<longrightarrow> blank a"
      using end_of_line [OF c, of "lay_after l"] by blast
    have "blank (lay_after l)" using assms by (simp add: Ini_Section line_ok_def)
    show ?thesis
      using ini_line_section [of name "lay_before l" "lay_left l" "lay_right l" a c cb u]
        ac lay item \<open>blank (lay_after l)\<close>
      by (simp add: Ini_Section)
  next
    case (Ini_Entry k v)
    obtain a c where ac: "lay_after l @ lay_comment l @ [CHR 0x0A] = a @ c" "is_comment c"
        "tail_ok (lay_after l) \<longrightarrow> tail_ok a"
      using end_of_line [OF c, of "lay_after l"] by blast
    show ?thesis
      using ini_line_entry [of k v "lay_before l" "lay_left l" "lay_right l" a c cb u]
        ac lay item
      by (simp add: Ini_Entry)
  next
    case Ini_Nothing
    obtain a c where ac: "lay_before l @ lay_comment l @ [CHR 0x0A] = a @ c" "is_comment c"
        "blank (lay_before l) \<longrightarrow> blank a"
      using end_of_line [OF c, of "lay_before l"] by blast
    show ?thesis
      using ini_line_blank [of a c cb u] ac lay by (simp add: Ini_Nothing)
  qed
qed

lemma ini_lines_items:
  assumes "\<forall>x \<in> set xs. line_ok x"
  shows "bind_res (ini_lines cb (map (\<lambda>x. render_item x @ [CHR 0x0A]) xs) n u)
      (\<lambda>(out, m, u'). if out = Next_Line then deliver cb es u' else Inr (False, u')) =
    deliver cb (concat (map (\<lambda>x. item_events (snd x)) xs) @ es) u"
  using assms
proof (induction xs arbitrary: n u)
  case (Cons x xs)
  then have IH: "bind_res (ini_lines cb (map (\<lambda>x. render_item x @ [CHR 0x0A]) xs) n u)
      (\<lambda>(out, m, u'). if out = Next_Line then deliver cb es u' else Inr (False, u')) =
    deliver cb (concat (map (\<lambda>x. item_events (snd x)) xs) @ es) u" for n u by simp
  obtain l i where x: "x = (l, i)" by fastforce
  with Cons have "line_ok (l, i)" by simp
  note line = ini_line_item [OF this, folded x]
  show ?case
  proof (cases "item_events i")
    case Nil
    with line have "ini_line cb (render_item x @ [CHR 0x0A]) u = Inr (Next_Line, u)" for u
      by simp
    with Nil IH show ?thesis by (simp add: x)
  next
    case (Cons e es')
    then have "es' = []" by (cases i) auto
    with Cons line have ev: "ini_line cb (render_item x @ [CHR 0x0A]) u = call_back cb (fst e) (snd e) u"
      and "item_events (snd x) = [e]" for u by (simp_all add: x)
    then show ?thesis
      by (simp add: call_back_def bind_res_assoc)
        (auto simp: IH intro!: bind_res_cong)
  qed
qed simp

lemma fgets_rendered:
  assumes "\<forall>x \<in> set xs. line_ok x"
  shows "fgets_lines 2047 (render_file xs) = map (\<lambda>x. render_item x @ [CHR 0x0A]) xs"
proof -
  have "fgets_lines 2047 (concat (map (\<lambda>l. l @ [CHR 0x0A]) (map render_item xs))) =
      map (\<lambda>l. l @ [CHR 0x0A]) (map render_item xs)"
    by (rule fgets_lines_concat) (use assms in \<open>auto simp: line_ok_def\<close>)
  then show ?thesis by (simp add: render_file_def comp_def)
qed

lemma ini_parse_rendered:
  assumes "\<forall>x \<in> set xs. line_ok x"
  shows "bind_res (ini_parse_file (Some (render_file xs)) cb u) (\<lambda>(r, u'). Inr (r = Parsed, u')) =
    deliver cb (concat (map (\<lambda>x. item_events (snd x)) xs) @ [(None, None)]) u"
proof -
  note lines = fgets_rendered [OF assms]
  show ?thesis
    unfolding ini_lines_items [OF assms, of cb 0 u "[(None, None)]", symmetric]
    by (simp add: ini_parse_file_def lines)
      (auto simp: call_back_def bind_res_assoc intro!: bind_res_cong)
qed

section \<open>Callbacks see single words\<close>

definition single_word :: "string \<Rightarrow> bool" where
  "single_word s \<longleftrightarrow> (\<forall>c \<in> set s. \<not> iswhitespace c \<and> c \<noteq> CHR '';'' \<and> c \<noteq> CHR 0x00)"

text \<open>A callback that faults on an event that is not made of single words.\<close>

definition words_only :: "'u ini_parse_callback \<Rightarrow> 'u ini_parse_callback" where
  "words_only cb key value u =
     (if pred_option single_word key \<and> pred_option single_word value then cb key value u
      else Inl Assert_Failed)"

lemma single_word_trim:
  "CHR '';'' \<notin> set s \<Longrightarrow> CHR 0x00 \<notin> set s \<Longrightarrow> single_word (trim_whitespace s)"
  by (auto simp: single_word_def dest: trim_no_whitespace)

lemma call_back_words_only:
  "pred_option single_word k \<Longrightarrow> pred_option single_word v \<Longrightarrow>
     call_back (words_only cb) k v u = call_back cb k v u"
  by (simp add: call_back_def words_only_def)

lemma section_clean:
  assumes "CHR '';'' \<notin> set l"
  shows "CHR '';'' \<notin> set (cstr (drop k (l[i := CHR 0x00, j := CHR 0x00])))"
proof
  let ?s = "l[i := CHR 0x00, j := CHR 0x00]"
  assume "CHR '';'' \<in> set (cstr (drop k ?s))"
  then have "CHR '';'' \<in> set ?s"
    using set_cstr [of "drop k ?s"] set_drop_subset [of k ?s] by blast
  moreover have "set ?s \<subseteq> insert (CHR 0x00) (set l)"
    using set_update_subset_insert [of "l[i := CHR 0x00]" j "CHR 0x00"]
      set_update_subset_insert [of l i "CHR 0x00"] by blast
  ultimately show False using assms by auto
qed

lemma ini_line_words_only: "ini_line (words_only cb) buf u = ini_line cb buf u"
proof -
  let ?l = "strip_comment (cstr buf)"
  have clean: "CHR '';'' \<notin> set ?l" "CHR 0x00 \<notin> set ?l"
    using strip_comment_clean [of "cstr buf"] cstr_no_null [of buf] by auto
  have part: "single_word (trim_whitespace s)" if "set s \<subseteq> set ?l" for s
    using clean that by (intro single_word_trim) auto
  have sec: "single_word (trim_whitespace (cstr (drop k (?l[i := CHR 0x00, j := CHR 0x00]))))"
    for k i j by (intro single_word_trim section_clean clean cstr_no_null)
  show ?thesis
    by (simp only: ini_line_def Let_def call_back_words_only part sec set_take_subset set_drop_subset
        option.pred_inject simp_thms cong: option.case_cong)
qed

lemma ini_lines_words_only: "ini_lines (words_only cb) ls n u = ini_lines cb ls n u"
  by (induction ls arbitrary: n u) (auto simp: ini_line_words_only intro!: bind_res_cong)

section \<open>Properties\<close>

text \<open>
  C14. Parsing a rendered file gives the callback exactly the sections and the entries of the file,
  in order, then the end of file, until the callback refuses an event; the parser reports success
  exactly if it refuses none. What follows white space behind a value, and a comment, is not seen.
\<close>

theorem ini_parse_delivers_rendered_events:
  assumes "\<forall>x \<in> set xs. line_ok x"
  shows "bind_res (ini_parse_file (Some (render_file xs)) cb u) (\<lambda>(r, u'). Inr (r = Parsed, u')) =
    deliver cb (concat (map (\<lambda>x. item_events (snd x)) xs) @ [(None, None)]) u"
  by (rule ini_parse_rendered [OF assms])

definition plain_layout :: ini_layout where
  "plain_layout = \<lparr>lay_before = [], lay_left = [], lay_right = [], lay_after = [], lay_comment = []\<rparr>"

text \<open>The example of the README with a command of several words as its value.\<close>

definition example_config :: "(ini_layout \<times> ini_item) list" where
  "example_config =
     [(plain_layout, Ini_Section ''fakeveth1''),
      (plain_layout\<lparr>lay_comment := ''; a comment''\<rparr>, Ini_Entry ''bind_iface'' ''lo''),
      (plain_layout\<lparr>lay_after := '' addr add 10.0.0.2/24 dev br-fakeveth1''\<rparr>,
       Ini_Entry ''post_exec'' ''ip'')]"

definition record_events :: "ini_event list ini_parse_callback" where
  "record_events key value u = Inr (True, u @ [(key, value)])"

lemma example_config_ok: "\<forall>x \<in> set example_config. line_ok x"
  by code_simp

theorem ini_parse_delivers_rendered_events_witness:
  "bind_res (ini_parse_file (Some (render_file example_config)) record_events [])
     (\<lambda>(r, u'). Inr (r = Parsed, u')) =
   Inr (True, [(Some ''fakeveth1'', None), (Some ''bind_iface'', Some ''lo''),
               (Some ''post_exec'', Some ''ip''), (None, None)])"
  unfolding ini_parse_delivers_rendered_events [OF example_config_ok]
  by (simp add: example_config_def record_events_def)

text \<open>
  C34. Every key, value and section name that reaches the callback is a single word, for every
  file: a callback that faults on anything else behaves the same. A value of several words, such
  as a command line for \<^verbatim>\<open>post_exec\<close>, cannot be given.
\<close>

theorem ini_values_are_single_words:
  "ini_parse_file contents (words_only cb) u = ini_parse_file contents cb u"
  by (simp only: ini_parse_file_def ini_lines_words_only call_back_words_only option.pred_inject)

end
