(* ===== verification/Config.thy ===== *)
theory Config
  imports Lifecycle Tunnel_Stats Tunnel_List Ini
begin

text \<open>
  \<^verbatim>\<open>src/src/main.c\<close>: the callback that turns the events of the configuration parser into tunnels, the
  signal handlers and \<^verbatim>\<open>main\<close>. A pointer to a tunnel is its position in the list of all tunnels made,
  which the surroundings of the program keep together with the history of calls.
\<close>

section \<open>State\<close>

record config_parse_state =
  default_num_queues :: int
  seen_values :: bool
  params :: tunnel_params
  parse_list :: "nat tunnel_list option"

record world =
  made :: "tunnel list"
  calls :: history
  draws :: nat    \<comment> \<open>of \<^verbatim>\<open>rand()\<close>\<close>

text \<open>Every string of the parameters is its own block, so all of them can be freed.\<close>

definition reset_tunnel_params :: "tunnel_params \<Rightarrow> tunnel_params" where
  "reset_tunnel_params ps = zero_params"

text \<open>A step that returns false ends a sequence of steps.\<close>

definition go_on :: "(bool \<times> 'a) res \<Rightarrow> ('a \<Rightarrow> (bool \<times> 'a) res) \<Rightarrow> (bool \<times> 'a) res" where
  "go_on r k = bind_res r (\<lambda>(ok, x). if ok then k x else Inr (False, x))"

lemma go_on_assoc: "go_on (go_on r k) l = go_on r (\<lambda>x. go_on (k x) l)"
  by (cases r) (auto simp: go_on_def)

lemma go_on_cong [fundef_cong]:
  "r = r' \<Longrightarrow> (\<And>x. r' = Inr (True, x) \<Longrightarrow> k x = k' x) \<Longrightarrow> go_on r k = go_on r' k'"
  by (cases r') (auto simp: go_on_def)

lemma go_on_simps [simp]:
  "go_on (Inr (True, x)) k = k x" "go_on (Inr (False, x)) k = Inr (False, x)" "go_on (Inl f) k = Inl f"
  "go_on r (\<lambda>x. Inr (True, x)) = r"
  by (cases r; auto simp: go_on_def split: prod.split)+

lemma deliver_go_on: "deliver cb (e # es) u = go_on (cb (fst e) (snd e) u) (deliver cb es)"
  by (simp add: go_on_def)

section \<open>Keys\<close>

definition dup_field ::
  "kernel \<Rightarrow> string \<Rightarrow> (string \<Rightarrow> tunnel_params) \<Rightarrow> history \<Rightarrow> ((bool \<times> tunnel_params) \<times> history) res"
where
  "dup_field K v f h = bind_res (must_dup K (Some v) h) (\<lambda>(s, h). Inr ((True, f s), h))"

text \<open>The host ends at the first colon of the value.\<close>

definition set_default_endpoint ::
  "kernel \<Rightarrow> string \<Rightarrow> tunnel_params \<Rightarrow> history \<Rightarrow> ((bool \<times> tunnel_params) \<times> history) res"
where
  "set_default_endpoint K v ps h =
     bind_res (must_dup K (Some v) h) (\<lambda>(s, h).
       case strchr s CHR '':'' of
         Some colon \<Rightarrow>
           Inr ((True, ps\<lparr>default_remote_host := Some (take colon s),
                          default_remote_port := atoi (drop (colon + 1) s)\<rparr>), h)
       | None \<Rightarrow> Inr ((False, ps\<lparr>default_remote_host := Some s\<rparr>), h))"

definition set_key ::
  "kernel \<Rightarrow> string \<Rightarrow> string \<Rightarrow> tunnel_params \<Rightarrow> history \<Rightarrow> ((bool \<times> tunnel_params) \<times> history) res"
where
  "set_key K key v ps h =
     (if key = ''bind_iface'' then dup_field K v (\<lambda>s. ps\<lparr>bind_iface := Some s\<rparr>) h
      else if key = ''bind_port'' then Inr ((True, ps\<lparr>bind_port := atoi v\<rparr>), h)
      else if key = ''default_endpoint'' then set_default_endpoint K v ps h
      else if key = ''num_queues'' then Inr ((True, ps\<lparr>p_num_queues := atoi v\<rparr>), h)
      else if key = ''tap_base_name'' then dup_field K v (\<lambda>s. ps\<lparr>p_tap_base_name := Some s\<rparr>) h
      else if key = ''bridge_name'' then dup_field K v (\<lambda>s. ps\<lparr>p_bridge_name := Some s\<rparr>) h
      else if key = ''mtu'' then Inr ((True, ps\<lparr>p_mtu := atoi v\<rparr>), h)
      else if key = ''allowed_remote_hosts'' then
        dup_field K v (\<lambda>s. ps\<lparr>allowed_remote_hosts := Some s\<rparr>) h
      else if key = ''post_exec'' then dup_field K v (\<lambda>s. ps\<lparr>post_exec := Some s\<rparr>) h
      else Inr ((False, ps), h))"

section \<open>Sections\<close>

definition delete_made :: "surroundings \<Rightarrow> tunnel list \<Rightarrow> nat \<Rightarrow> history \<Rightarrow> history res" where
  "delete_made E ts i h = bind_res (at_index ts i) (\<lambda>t. tunnel_delete E (Some t) h)"

definition list_memory :: "kernel \<Rightarrow> nat tunnel_list \<Rightarrow> history \<Rightarrow> bool \<times> history" where
  "list_memory K l h = (if num_tunnels l + 1 \<ge> alloc_size l then alloc K h else (True, h))"

text \<open>
  The tunnel is put into the list, which asks for memory if it is full. After a failure the tunnel
  and the list are deleted; no list is a null pointer, which \<^verbatim>\<open>tunnel_list_add\<close> reads.
\<close>

definition append_tunnel ::
  "surroundings \<Rightarrow> tunnel \<Rightarrow> config_parse_state \<times> world \<Rightarrow> (bool \<times> config_parse_state \<times> world) res"
where
  "append_tunnel E t sw =
     (case sw of (st, w) \<Rightarrow>
        let i = length (made w);
            w = w\<lparr>made := made w @ [t]\<rparr> in
        (case parse_list st of
          None \<Rightarrow> Inl Null_Deref
        | Some l \<Rightarrow>
            (case list_memory (kern E) l (calls w) of
               (ok, h) \<Rightarrow>
                 bind_res (tunnel_list_add ok l i) (\<lambda>(added, l).
                   if added then Inr (True, st\<lparr>parse_list := Some l\<rparr>, w\<lparr>calls := h\<rparr>)
                   else bind_res (tunnel_delete E (Some t) h) (\<lambda>h.
                     bind_res (tunnel_list_delete (delete_made E (made w)) (Some l) h) (\<lambda>h.
                       Inr (False, st\<lparr>parse_list := None\<rparr>, w\<lparr>calls := h\<rparr>)))))))"

definition named_params :: "kernel \<Rightarrow> tunnel_params \<Rightarrow> history \<Rightarrow> (tunnel_params \<times> history) res" where
  "named_params K ps h =
     (if p_tunnel_name ps = None then
        bind_res (must_dup K (Some ''default'') h) (\<lambda>(s, h). Inr (ps\<lparr>p_tunnel_name := Some s\<rparr>, h))
      else Inr (ps, h))"

text \<open>The tunnel of the section that ends.\<close>

definition commit_tunnel ::
  "surroundings \<Rightarrow> resolver \<Rightarrow> config_parse_state \<times> world \<Rightarrow> (bool \<times> config_parse_state \<times> world) res"
where
  "commit_tunnel E R sw =
     (case sw of (st, w) \<Rightarrow>
        bind_res (named_params (kern E) (params st) (calls w)) (\<lambda>(ps, h).
        bind_res (tunnel_create E R ps (draws w) h) (\<lambda>((tun, r), h).
          let st = st\<lparr>params := reset_tunnel_params ps\<rparr>;
              w = w\<lparr>calls := h, draws := r\<rparr> in
          case tun of
            None \<Rightarrow> Inr (False, st, w)
          | Some t \<Rightarrow> append_tunnel E t (st, w))))"

text \<open>The name of the section that begins; no name is the end of the file.\<close>

definition new_section ::
  "surroundings \<Rightarrow> string option \<Rightarrow> config_parse_state \<times> world \<Rightarrow> (bool \<times> config_parse_state \<times> world) res"
where
  "new_section E key sw =
     (case (key, sw) of
        (None, st, w) \<Rightarrow> Inr (True, st, w)
      | (Some name, st, w) \<Rightarrow>
          bind_res (must_dup (kern E) (Some name) (calls w)) (\<lambda>(s, h).
            Inr (True, st\<lparr>params := (params st)\<lparr>p_num_queues := default_num_queues st,
                                               p_tunnel_name := Some s\<rparr>\<rparr>, w\<lparr>calls := h\<rparr>)))"

definition key_event ::
  "surroundings \<Rightarrow> string \<Rightarrow> string \<Rightarrow> config_parse_state \<times> world \<Rightarrow> (bool \<times> config_parse_state \<times> world) res"
where
  "key_event E key v sw =
     (case sw of (st, w) \<Rightarrow>
        bind_res (set_key (kern E) key v (params st) (calls w)) (\<lambda>((ok, ps), h).
          Inr (ok, st\<lparr>seen_values := True, params := ps\<rparr>, w\<lparr>calls := h\<rparr>)))"

definition section_event ::
  "surroundings \<Rightarrow> resolver \<Rightarrow> string option \<Rightarrow> config_parse_state \<times> world \<Rightarrow>
     (bool \<times> config_parse_state \<times> world) res"
where
  "section_event E R key sw =
     go_on (if seen_values (fst sw) then commit_tunnel E R sw else Inr (True, sw)) (new_section E key)"

definition config_parse_event ::
  "surroundings \<Rightarrow> resolver \<Rightarrow> (config_parse_state \<times> world) ini_parse_callback"
where
  "config_parse_event E R key v sw =
     (case v of
        Some v \<Rightarrow> (case key of None \<Rightarrow> Inl Null_Deref | Some k \<Rightarrow> key_event E k v sw)
      | None \<Rightarrow> section_event E R key sw)"

section \<open>Main\<close>

definition start_state :: "int \<Rightarrow> nat tunnel_list option \<Rightarrow> config_parse_state" where
  "start_state n l = \<lparr>default_num_queues = n, seen_values = False, params = zero_params, parse_list = l\<rparr>"

fun wait_all :: "surroundings \<Rightarrow> nat tunnel_list \<Rightarrow> nat list \<Rightarrow> world \<Rightarrow> world res" where
  "wait_all E l [] w = Inr w"
| "wait_all E l (i # is) w =
     bind_res (tunnel_list_get l (int i)) (\<lambda>t. case t of
       None \<Rightarrow> wait_all E l is w
     | Some k \<Rightarrow>
         bind_res (at_index (made w) k) (\<lambda>t. bind_res (tunnel_wait E t (calls w)) (\<lambda>(t, h).
           wait_all E l is (w\<lparr>made := (made w)[k := t], calls := h\<rparr>))))"

definition delete_all :: "surroundings \<Rightarrow> nat tunnel_list option \<Rightarrow> world \<Rightarrow> world res" where
  "delete_all E l w =
     bind_res (tunnel_list_delete (delete_made E (made w)) l (calls w)) (\<lambda>h. Inr (w\<lparr>calls := h\<rparr>))"

text \<open>What \<^verbatim>\<open>main\<close> does with the outcome of the parser: the exit status.\<close>

definition after_parse ::
  "surroundings \<Rightarrow> ini_result \<times> config_parse_state \<times> world \<Rightarrow> (int \<times> world) res"
where
  "after_parse E out =
     (case out of (res, st, w) \<Rightarrow>
        if res \<noteq> Parsed then bind_res (delete_all E (parse_list st) w) (\<lambda>w. Inr (1, w))
        else (case parse_list st of
                None \<Rightarrow> Inl Null_Deref
              | Some l \<Rightarrow>
                  bind_res (wait_all E l [0..<tunnel_list_size l] w) (\<lambda>w.
                  bind_res (delete_all E (Some l) w) (\<lambda>w. Inr (0, w)))))"

definition main_program ::
  "surroundings \<Rightarrow> resolver \<Rightarrow> string list \<Rightarrow> world \<Rightarrow> (int \<times> world) res"
where
  "main_program E R argv w =
     (if length argv \<noteq> 2 \<or> take 1 (argv ! 1) = ''-'' then Inr (1, w)
      else
        (let (np, h) = sys (kern E) Sys_nprocessors (calls w);
             (ok, h) = alloc (kern E) h;
             (fp, h) = sys (kern E) (Sys_fopen (argv ! 1)) h;
             contents = (if ret fp < 0 then None else Some (r_contents fp)) in
         bind_res (ini_parse_file contents (config_parse_event E R)
             (start_state (ret np) (tunnel_list_create ok), w\<lparr>calls := h\<rparr>))
           (after_parse E)))"

section \<open>Signals\<close>

text \<open>Status \<open>0\<close>: \<^verbatim>\<open>exit(0)\<close> after the deletion. No list: the signal came before the list was known.\<close>

definition exit_handler :: "surroundings \<Rightarrow> nat tunnel_list option \<Rightarrow> world \<Rightarrow> (int \<times> world) res" where
  "exit_handler E l w = bind_res (delete_all E l w) (\<lambda>w. Inr (0, w))"

fun print_all ::
  "surroundings \<Rightarrow> nat tunnel_list \<Rightarrow> nat list \<Rightarrow> world \<Rightarrow> (string list \<times> world) res"
where
  "print_all E l [] w = Inr ([], w)"
| "print_all E l (i # is) w =
     bind_res (tunnel_list_get l (int i)) (\<lambda>t. case t of
       None \<Rightarrow> print_all E l is w
     | Some k \<Rightarrow>
         bind_res (at_index (made w) k) (\<lambda>t.
         bind_res (tunnel_print_stats (kern E) (printed E) t (calls w)) (\<lambda>(ls, h).
         bind_res (print_all E l is (w\<lparr>calls := h\<rparr>)) (\<lambda>(ls', w). Inr (ls @ ls', w)))))"

definition print_stats_handler ::
  "surroundings \<Rightarrow> nat tunnel_list option \<Rightarrow> world \<Rightarrow> (string list \<times> world) res"
where
  "print_stats_handler E l w =
     (case l of None \<Rightarrow> Inr ([], w) | Some l \<Rightarrow> print_all E l [0..<tunnel_list_size l] w)"

section \<open>Reading section by section\<close>

text \<open>
  The reference: a section sets its name, then its keys in order, and then makes its tunnel. The
  callback has to make the tunnel of a section when the next one begins or the file ends.
\<close>

type_synonym section_text = "string \<times> (string \<times> string) list"

fun read_keys ::
  "surroundings \<Rightarrow> (string \<times> string) list \<Rightarrow> config_parse_state \<times> world \<Rightarrow>
     (bool \<times> config_parse_state \<times> world) res"
where
  "read_keys E [] sw = Inr (True, sw)"
| "read_keys E (kv # kvs) sw = go_on (key_event E (fst kv) (snd kv) sw) (read_keys E kvs)"

definition read_section ::
  "surroundings \<Rightarrow> resolver \<Rightarrow> section_text \<Rightarrow> config_parse_state \<times> world \<Rightarrow>
     (bool \<times> config_parse_state \<times> world) res"
where
  "read_section E R s sw =
     go_on (new_section E (Some (fst s)) sw) (\<lambda>sw. go_on (read_keys E (snd s) sw) (commit_tunnel E R))"

fun read_sections ::
  "surroundings \<Rightarrow> resolver \<Rightarrow> section_text list \<Rightarrow> config_parse_state \<times> world \<Rightarrow>
     (bool \<times> config_parse_state \<times> world) res"
where
  "read_sections E R [] sw = Inr (True, sw)"
| "read_sections E R (s # ss) sw = go_on (read_section E R s sw) (read_sections E R ss)"

definition section_events :: "section_text \<Rightarrow> ini_event list" where
  "section_events s = (Some (fst s), None) # map (\<lambda>kv. (Some (fst kv), Some (snd kv))) (snd s)"

lemma config_parse_event_simps:
  "config_parse_event E R (Some k) (Some v) = key_event E k v"
  "config_parse_event E R key None = section_event E R key"
  by (rule ext, simp add: config_parse_event_def)+

lemma deliver_keys:
  "deliver (config_parse_event E R) (map (\<lambda>kv. (Some (fst kv), Some (snd kv))) kvs @ es) sw =
     go_on (read_keys E kvs sw) (deliver (config_parse_event E R) es)"
  by (induction kvs arbitrary: sw)
    (auto simp: deliver_go_on config_parse_event_simps go_on_assoc simp del: deliver.simps(2)
      intro!: go_on_cong)

lemma deliver_section:
  "deliver (config_parse_event E R) (section_events s @ es) sw =
     go_on (section_event E R (Some (fst s)) sw) (\<lambda>sw.
       go_on (read_keys E (snd s) sw) (deliver (config_parse_event E R) es))"
  unfolding section_events_def append_Cons deliver_go_on fst_conv snd_conv config_parse_event_simps
  by (intro go_on_cong refl deliver_keys)

text \<open>The flag is set by every key and never cleared.\<close>

lemma key_event_seen: "key_event E k v sw = Inr (ok, sw') \<Longrightarrow> seen_values (fst sw')"
  by (auto simp: key_event_def split: prod.splits)

lemma read_keys_seen:
  "read_keys E kvs sw = Inr (ok, sw') \<Longrightarrow> seen_values (fst sw) \<or> kvs \<noteq> [] \<Longrightarrow> seen_values (fst sw')"
proof (induction kvs arbitrary: sw)
  case (Cons kv kvs)
  then obtain b sw1 where one: "key_event E (fst kv) (snd kv) sw = Inr (b, sw1)"
    and rest: "(if b then read_keys E kvs sw1 else Inr (False, sw1)) = Inr (ok, sw')"
    by (auto simp: go_on_def)
  with key_event_seen [OF one] Cons.IH [of sw1] show ?case
    by (auto split: if_splits)
qed simp

lemma new_section_seen: "new_section E key sw = Inr (ok, sw') \<Longrightarrow> seen_values (fst sw') = seen_values (fst sw)"
  by (auto simp: new_section_def split: prod.splits option.splits)

lemma append_tunnel_seen: "append_tunnel E t sw = Inr (ok, sw') \<Longrightarrow> seen_values (fst sw') = seen_values (fst sw)"
  by (auto simp: append_tunnel_def Let_def split: prod.splits option.splits if_splits)

lemma commit_tunnel_seen: "commit_tunnel E R sw = Inr (ok, sw') \<Longrightarrow> seen_values (fst sw') = seen_values (fst sw)"
  by (auto simp: commit_tunnel_def Let_def split: prod.splits option.splits dest!: append_tunnel_seen)

lemma deliver_sections_seen:
  assumes "seen_values (fst sw)" "\<forall>s \<in> set ss. snd s \<noteq> []"
  shows "deliver (config_parse_event E R) (concat (map section_events ss) @ [(None, None)]) sw =
    go_on (commit_tunnel E R sw) (read_sections E R ss)"
  using assms
proof (induction ss arbitrary: sw)
  case Nil
  have "new_section E None sw1 = Inr (True, sw1)" for sw1
    by (cases sw1) (simp add: new_section_def)
  with Nil show ?case
    by (simp add: deliver_go_on config_parse_event_simps section_event_def go_on_assoc
        del: deliver.simps(2))
next
  case (Cons s ss)
  have read: "go_on (read_keys E (snd s) sw1)
        (deliver (config_parse_event E R) (concat (map section_events ss) @ [(None, None)])) =
      go_on (read_keys E (snd s) sw1) (\<lambda>sw. go_on (commit_tunnel E R sw) (read_sections E R ss))" for sw1
    using Cons.prems(2) read_keys_seen [of E "snd s" sw1]
    by (intro go_on_cong refl Cons.IH) auto
  show ?case
    using Cons.prems(1)
    by (simp add: deliver_section section_event_def read read_section_def go_on_assoc)
qed

lemma deliver_sections:
  assumes "\<not> seen_values (fst sw)" "\<forall>s \<in> set ss. snd s \<noteq> []"
  shows "deliver (config_parse_event E R) (concat (map section_events ss) @ [(None, None)]) sw =
    read_sections E R ss sw"
proof (cases ss)
  case Nil
  with assms(1) show ?thesis
    by (cases sw) (simp add: config_parse_event_simps section_event_def new_section_def)
next
  case (Cons s ss')
  have "go_on (read_keys E (snd s) sw1)
        (deliver (config_parse_event E R) (concat (map section_events ss') @ [(None, None)])) =
      go_on (read_keys E (snd s) sw1) (\<lambda>sw. go_on (commit_tunnel E R sw) (read_sections E R ss'))" for sw1
    using assms(2) Cons read_keys_seen [of E "snd s" sw1]
    by (intro go_on_cong refl deliver_sections_seen) auto
  with Cons assms(1) show ?thesis
    by (simp add: deliver_section section_event_def read_section_def go_on_assoc)
qed

end
