(* ===== verification/Worker_Properties.thy ===== *)
theory Worker_Properties
  imports Worker Endpoint_Properties
begin

text \<open>
  The properties of the workers and of \<^verbatim>\<open>tunnel_alloc_new_tap\<close> (\<^verbatim>\<open>src/src/tunnel.c\<close>): the event
  codes, where frames and datagrams go and how they are counted, what a new device leaves behind,
  and the executions that end in a fault or never end. The witnesses run on a tunnel with two
  queues and two IPv4 peers.
\<close>

section \<open>A tunnel with two peers\<close>

definition example_dev :: "u32 \<Rightarrow> int list \<Rightarrow> string \<Rightarrow> tap_dev" where
  "example_dev w fds name = \<lparr>remote_ip = v4_mapped w, remote_port = 0xD204, tap_fds = Live fds,
     stats = Live [zero_stats, zero_stats], tap_name = name\<rparr>"

definition allow_all :: ip_addr_cidr_list where
  "allow_all = \<lparr>cidr_num_entries = 1, cidr_entries = [\<lparr>cidr_mask = - 1, cidr_addr = 0\<rparr>]\<rparr>"

definition example_tunnel :: tunnel where
  "example_tunnel = \<lparr>queue_ids = 2, workers = [101, 102], num_queues = 2, num_tap_devs = 2,
     tap_devs_allocated = 2, tun_map = Live example_two, allowed_addr_list = Some allow_all,
     tap_devs = [Some (example_dev 1 [11, 12] ''tap0''), Some (example_dev 2 [13, 14] ''tap1'')],
     udp_fds = [5, 6], epoll_fds = [7, 8], tun_name = ''default'', tap_base_name = None,
     bridge_name = Some ''br0'', tun_mtu = 1500\<rparr>"

definition example_surroundings :: surroundings where
  "example_surroundings = \<lparr>kern = kind_kernel, rands = example_rand,
     heap = (\<lambda>h m. \<lparr>env_realloc = Some (replicate (alloc_entries m) zero_entry), env_moves = False,
                     env_malloc_ok = True\<rparr>),
     others = (\<lambda>h t. t), printed = (\<lambda>a. Some [])\<rparr>"

definition example_worker :: worker where
  "example_worker = \<lparr>w_tunnel = example_tunnel, w_history = [],
     w_rand = 2, w_lock = Read_Locked\<rparr>"

lemma example_devs:
  "devs example_tunnel = [example_dev 1 [11, 12] ''tap0'', example_dev 2 [13, 14] ''tap1'']"
  by (simp add: devs_def example_tunnel_def)

lemma example_keys:
  "map dev_key (devs example_tunnel) = [(v4_mapped 1, 0xD204), (v4_mapped 2, 0xD204)]"
  by (simp add: example_devs example_dev_def dev_key_def)

lemma example_devs_wf: "devs_wf example_tunnel"
  by (simp add: devs_wf_def example_tunnel_def slot_ok_def dev_ok_def example_dev_def)

lemma example_full: "t_full example_tunnel"
proof -
  have map: "tun_map example_tunnel = Live example_two" by (simp add: example_tunnel_def)
  have "routes (em_abs example_two) (map dev_key (devs example_tunnel))"
    unfolding example_two_facts(3) example_keys
    by (rule routesI) (auto split: if_splits)
  then have "t_wf example_tunnel"
    by (rule t_wfI [OF example_devs_wf map example_two_facts(1)])
  moreover have "em_abs example_two (dev_key (devs example_tunnel ! i)) = Some (int i)"
    if "i < length (devs example_tunnel)" for i
  proof -
    from that have "i = 0 \<or> i = 1" by (auto simp: example_devs)
    then show ?thesis
      by (auto simp: example_two_facts(3) example_devs example_dev_def dev_key_def v4_mapped_inj)
  qed
  ultimately show ?thesis by (simp add: t_full_def map)
qed

lemma example_wf: "t_wf example_tunnel"
  using example_full by (simp add: t_full_def)

lemma example_in_place: "in_place example_surroundings"
  by (simp add: in_place_def example_surroundings_def fresh_clean_def zero_entry_def list_all_iff)

lemma example_others_ok: "others_ok example_surroundings"
  by (simp add: others_ok_def extends_def example_surroundings_def)

lemma example_worker_simps [simp]:
  "w_tunnel example_worker = example_tunnel" "kern example_surroundings = kind_kernel"
  "num_queues example_tunnel = 2" "num_tap_devs example_tunnel = 2"
  "tun_map example_tunnel = Live example_two" "udp_fds example_tunnel = [5, 6]"
  "buf_size example_tunnel = 3000" "w_history example_worker = []" "w_rand example_worker = 2"
  "rands example_surroundings = example_rand" "others example_surroundings = (\<lambda>h t. t)"
  "printed example_surroundings = (\<lambda>a. Some [])"
  by (simp_all add: example_worker_def example_surroundings_def example_tunnel_def buf_size_def)

lemma example_allowed: "allowed example_tunnel (v4_mapped w)"
proof -
  have "v4_mapped w \<noteq> 0"
    using bit_v4_mapped [of w 80] by auto
  then show ?thesis
    by (simp add: allowed_def example_tunnel_def allow_all_def ip_addr_cidr_list_match_def
        ip_addr_cidr_match_def)
qed

section \<open>A third device for the example tunnel\<close>

lemma kind_other: "\<not> opens_fd c \<Longrightarrow> kind_kernel h c = reply_ok"
  by (simp add: kind_kernel_def)

lemma reply_ok_ret [simp]: "ret reply_ok = 0"
  by (simp add: reply_ok_def)

text \<open>A kernel that refuses to watch the descriptors.\<close>

definition no_epoll_kernel :: kernel where
  "no_epoll_kernel h c =
     (case c of Sys_epoll_add e fd v \<Rightarrow> reply_ok\<lparr>ret := - 1\<rparr> | _ \<Rightarrow> kind_kernel h c)"

lemma fresh_no_epoll_kernel: "fresh_fds no_epoll_kernel"
  by (rule fresh_fdsI) (auto simp: no_epoll_kernel_def kind_kernel_def split: call.split)

definition example_create :: "nat \<Rightarrow> kernel \<Rightarrow> ((bool \<times> int list \<times> string) \<times> history) res" where
  "example_create n K = net_create_tap_mq_fds K None 2 1500 (Some ''br0'') []
     (replicate n (Sys_alloc, reply_ok))"

lemma example_create_runs:
  assumes "K \<in> {kind_kernel, no_epoll_kernel}" "n \<in> {1, 2}"
  shows "\<exists>name h. example_create n K = Inr ((True, [3, 4], name), h)"
proof -
  have "\<forall>n \<in> {1, 2}. (case example_create n kind_kernel of
      Inr ((ok, fds, name), h) \<Rightarrow> ok \<and> fds = [3, 4] | Inl f \<Rightarrow> False)"
    and "\<forall>n \<in> {1, 2}. (case example_create n no_epoll_kernel of
      Inr ((ok, fds, name), h) \<Rightarrow> ok \<and> fds = [3, 4] | Inl f \<Rightarrow> False)"
    by code_simp+
  with assms show ?thesis by (auto split: sum.splits prod.splits)
qed

lemma replicate_2: "replicate 2 x = [x, x]"
  by (simp add: numeral_2_eq_2)

lemma example_alloc_steps:
  assumes "\<And>h. K h Sys_alloc = reply_ok"
    and "example_create 2 K = Inr ((True, [3, 4], name), h)"
    and "register_queues K [7, 8] [3, 4] 2 [0..<2] h = Inr (ok, h1)" and "p \<noteq> 0"
  shows "\<exists>t h'. tunnel_alloc_new_tap K example_tunnel addr p [] = Inr ((if ok then 2 else - 1, t), h') \<and>
    num_tap_devs t = (if ok then 3 else 2) \<and> (\<not> ok \<longrightarrow> h' = h1)"
  using assms [unfolded example_create_def replicate_2]
  by (simp add: tunnel_alloc_new_tap_def expand_table_def attach_queues_def example_tunnel_def
      sys0_def sys_def tap_zero_def Let_def set_dev_def)

lemma example_alloc:
  assumes "p \<noteq> 0"
  shows "\<exists>t h. tunnel_alloc_new_tap kind_kernel example_tunnel addr p [] = Inr ((2, t), h) \<and>
    num_tap_devs t = 3"
proof -
  obtain name h where c: "example_create 2 kind_kernel = Inr ((True, [3, 4], name), h)"
    using example_create_runs [of kind_kernel 2] by auto
  obtain h1 where "register_queues kind_kernel [7, 8] [3, 4] 2 [0..<2] h = Inr (True, h1)"
    by (simp add: upt_rec net_set_nonblocking_def sys_def kind_other Let_def at_index_def)
  from example_alloc_steps [OF _ c this assms] show ?thesis by (simp add: kind_other)
qed

lemma example_alloc_fails:
  "\<exists>t h. tunnel_alloc_new_tap no_epoll_kernel example_tunnel 1 80 [] = Inr ((- 1, t), h) \<and>
    open_fds h = {3, 4}"
proof -
  obtain name h where c: "example_create 2 no_epoll_kernel = Inr ((True, [3, 4], name), h)"
    using example_create_runs [of no_epoll_kernel 2] by auto
  obtain h1 where r: "register_queues no_epoll_kernel [7, 8] [3, 4] 2 [0..<2] h = Inr (False, h1)"
    by (simp add: upt_rec net_set_nonblocking_def sys_def no_epoll_kernel_def kind_other Let_def at_index_def)
  have "open_fds h1 = open_fds h" using register_queues_outcome [OF r] by simp
  moreover have "open_fds h = {3, 4}"
    using net_create_tap_outcome(1) [OF fresh_no_epoll_kernel c [unfolded example_create_def replicate_2]]
    by (simp add: open_fds_def fds)
  moreover have "no_epoll_kernel h Sys_alloc = reply_ok" for h
    by (simp add: no_epoll_kernel_def kind_other)
  ultimately show ?thesis
    using example_alloc_steps [OF _ c r, of 80 1] by auto
qed

section \<open>Properties\<close>

text \<open>
  C32. The event registered with epoll reads back as the device id and the descriptor it was made
  of, and as an event of its kind, for all ids of 31 and descriptors of 32 bits.
\<close>

theorem epoll_event_roundtrip:
  assumes "- (2 ^ 30) \<le> v" "v < 2 ^ 30" "- (2 ^ 31) \<le> fd" "fd < 2 ^ 31"
  shows "ev_is_tap (tunnel_epoll_event b v fd) = b \<and> ev_tap_id (tunnel_epoll_event b v fd) = v \<and>
    ev_fd (tunnel_epoll_event b v fd) = fd"
  using event_decode [OF assms] by simp

theorem epoll_event_roundtrip_witness:
  "ev_tap_id (tunnel_epoll_event True 5 1023) = 5 \<and> ev_fd (tunnel_epoll_event True 5 1023) = 1023"
  using epoll_event_roundtrip [of 5 1023 True] by simp

text \<open>
  C4. Frames go from a TAP device to its peer: handling the event of a device sends exactly the
  frames that were pending, in order, each cut to the buffer, on the queue's own UDP socket to the
  device's endpoint, adds what the kernel reports to the queue's counters modulo \<open>2\<close> to the \<open>64\<close>,
  changes no routing, faults nowhere and arms the same event again.
\<close>

theorem tap_frames_are_forwarded:
  assumes "t_wf (w_tunnel s)" and "0 \<le> v" "nat v < num_tap_devs (w_tunnel s)"
    and "q < num_queues (w_tunnel s)" and "- (2 ^ 31) \<le> fd" "fd < 2 ^ 31"
    and "stats (devs (w_tunnel s) ! nat v) = Live ss" and "dev_key (devs (w_tunnel s) ! nat v) = (ip, p)"
    and "ev_data ev = tunnel_epoll_event True v fd"
  shows "\<exists>ok s' es st. worker_event E q ev s = Inr (ok, s') \<and>
    traffic (w_history s') = traffic (w_history s) @ es \<and>
    map fst es = map (\<lambda>f. Sys_sendto (udp_fds (w_tunnel s) ! q) (take (buf_size (w_tunnel s)) f) ip p)
      (frames_of (ev_tap ev)) \<and>
    devs (w_tunnel s') = recount v q ss st (devs (w_tunnel s)) \<and>
    txc st = txc (ss ! q) + bytes_moved es \<and> errorc st = errorc (ss ! q) + failed_calls es \<and>
    t_wf (w_tunnel s') \<and> routing (w_tunnel s') = routing (w_tunnel s) \<and>
    fst (last (w_history s')) = Sys_epoll_mod (epoll_fds (w_tunnel s) ! q) fd (ev_data ev)"
proof -
  have w: "devs_wf (w_tunnel s)" using assms(1) by (simp add: t_wf_def)
  have "nat v < 2 ^ 30" using assms(3) devs_wfD(3) [OF w] by linarith
  then have "v < 2 ^ 30" using assms(2) by simp
  note ev = event_decode [of v fd True, OF _ this assms(5,6)]
  have key: "remote_ip (devs (w_tunnel s) ! nat v) = ip" "remote_port (devs (w_tunnel s) ! nat v) = p"
    using assms(8) by (simp_all add: dev_key_def)
  obtain s1 es st where T: "tap_loop E q v (ev_tap ev) s = Inr s1"
      "traffic (w_history s1) = traffic (w_history s) @ es"
      "map fst es = map (\<lambda>f. Sys_sendto (udp_fds (w_tunnel s) ! q) (take (buf_size (w_tunnel s)) f) ip p)
        (frames_of (ev_tap ev))"
      "t_wf (w_tunnel s1)" "routing (w_tunnel s1) = routing (w_tunnel s)"
      "devs (w_tunnel s1) = recount v q ss st (devs (w_tunnel s))"
      "txc st = txc (ss ! q) + bytes_moved es" "errorc st = errorc (ss ! q) + failed_calls es"
    using tap_loop_ok [OF assms(1-4,7), of E "ev_tap ev"] unfolding key by blast
  let ?c = "Sys_epoll_mod (epoll_fds (w_tunnel s) ! q) fd (ev_data ev)"
  let ?r = "kern E (w_history s1) ?c"
  let ?s' = "s1\<lparr>w_history := w_history s1 @ [(?c, ?r)]\<rparr>"
  have "worker_event E q ev s = Inr (\<not> ret ?r < 0, ?s')"
    using T(1) ev assms(2,4,9) devs_wfD(4) [OF w]
    by (simp add: worker_event_def wsys_def sys_def Let_def)
  with T show ?thesis
    by (intro exI [of _ "\<not> ret ?r < 0"] exI [of _ ?s'] exI [of _ es] exI [of _ st])
      (simp add: traffic_append)
qed

theorem tap_frames_are_forwarded_witness:
  "\<exists>ok s' r. worker_event example_surroundings 1
      \<lparr>ev_data = tunnel_epoll_event True 1 14, ev_tap = [Frame [1, 2, 3]], ev_udp = []\<rparr> example_worker =
      Inr (ok, s') \<and>
    traffic (w_history s') = [(Sys_sendto 6 [1, 2, 3] (v4_mapped 2) 0xD204, r)]"
proof -
  let ?ev = "\<lparr>ev_data = tunnel_epoll_event True 1 14, ev_tap = [Frame [1, 2, 3]], ev_udp = []\<rparr>"
  have d: "stats (devs example_tunnel ! 1) = Live [zero_stats, zero_stats]"
    "dev_key (devs example_tunnel ! 1) = (v4_mapped 2, 0xD204)"
    by (simp_all add: example_devs example_dev_def dev_key_def)
  have "traffic (w_history example_worker) = []" by (simp add: traffic_def example_worker_def)
  with tap_frames_are_forwarded [of example_worker 1 1 14 "[zero_stats, zero_stats]" "v4_mapped 2"
      "0xD204" ?ev example_surroundings] example_wf d
  show ?thesis by (fastforce simp: map_eq_Cons_conv)
qed

text \<open>
  A datagram from a known endpoint is written, cut to the buffer, to the queue of the device
  of exactly that endpoint, and no other call moves a frame; routing and lock stay as they are.
\<close>

lemma known_sender_reaches_its_device:
  assumes "t_wf (w_tunnel s)" and "tun_map (w_tunnel s) = Live m"
    and "em_abs m (from_addr d, from_port d) = Some v"
    and "q < num_queues (w_tunnel s)" and "from_family d = AF_INET6"
  shows "\<exists>s' fs r. udp_packet E q d s = Inr s' \<and>
    dev_key (devs (w_tunnel s) ! nat v) = (from_addr d, from_port d) \<and>
    tap_fds (devs (w_tunnel s) ! nat v) = Live fs \<and>
    traffic (w_history s') = traffic (w_history s) @
      [(Sys_write (fs ! q) (take (buf_size (w_tunnel s)) (payload d)), r)] \<and>
    t_wf (w_tunnel s') \<and> routing (w_tunnel s') = routing (w_tunnel s) \<and> w_lock s' = w_lock s"
  using udp_known [OF assms, of E] by blast

definition example_datagram :: "u32 \<Rightarrow> datagram" where
  "example_datagram w = \<lparr>from_family = AF_INET6, from_addr = v4_mapped w, from_port = 0xD204,
     payload = [9, 9]\<rparr>"

lemma known_sender_reaches_its_device_example:
  "\<exists>s' r. udp_packet example_surroundings 0 (example_datagram 2) example_worker = Inr s' \<and>
     traffic (w_history s') = [(Sys_write 13 [9, 9], r)]"
proof -
  have "em_abs example_two (from_addr (example_datagram 2), from_port (example_datagram 2)) = Some 1"
    by (simp add: example_two_facts(3) example_datagram_def v4_mapped_inj)
  from known_sender_reaches_its_device [OF _ _ this, of example_worker 0 example_surroundings] example_wf
  show ?thesis
    by (auto simp: example_datagram_def example_devs example_dev_def example_worker_def traffic_def)
qed


text \<open>The example peer \<open>3\<close> with another port: its slots are free, so it gets a device.\<close>

definition example_new_datagram :: datagram where
  "example_new_datagram = (example_datagram 3)\<lparr>from_port := 0x3905\<rparr>"

lemma example_slots_3: "hash_slots example_two (v4_mapped 3) 0x3905 = [28, 29]"
proof -
  have "table_index 32 (v4_mapped 0) 0x3905 0 = 28" "table_index 32 (v4_mapped 0) 0x3905 1 = 29"
    by code_simp+
  then show ?thesis
    using hash_small_v4 [of 3 "0x3905" _ 0]
    by (simp add: hash_slots_def example_two_def example_table_def table_index_def)
qed

lemma example_add_3:
  "\<exists>m. endpoint_map_add env rnd r example_two (v4_mapped 3) 0x3905 v =
     Some \<lparr>add_nonnull = True, add_map = m, add_moved = False, add_rand = r\<rparr>"
proof -
  have "\<not> present (entries example_two ! 28)"
    by (simp add: example_two_def example_table_def zero_entry_def)
  moreover have "num_entries example_two < alloc_entries example_two"
    by (simp add: example_two_def example_sizes)
  ultimately show ?thesis
    by (auto simp: endpoint_map_add_def try_insert_def example_slots_3 Let_def)
qed

lemma example_new_datagram_returns:
  "\<exists>s'. udp_packet example_surroundings 0 example_new_datagram example_worker = Inr s' \<and>
     num_tap_devs (w_tunnel s') = 3"
proof -
  let ?k = "(v4_mapped 3, 0x3905)"
  obtain t h where a: "tunnel_alloc_new_tap kind_kernel example_tunnel (v4_mapped 3) 0x3905 [] =
      Inr ((2, t), h)" "num_tap_devs t = 3"
    using example_alloc [of "0x3905" "v4_mapped 3"] by auto
  obtain m where m: "endpoint_map_add (heap example_surroundings h example_two) example_rand 2 example_two
      (v4_mapped 3) 0x3905 2 = Some \<lparr>add_nonnull = True, add_map = m, add_moved = False, add_rand = 2\<rparr>"
    using example_add_3 by blast
  note k = alloc_new_tap_keeps [OF fresh_kind_kernel example_devs_wf _ a(1)]
  have t: "devs_wf t" "tun_map t = Live example_two" "num_queues t = 2"
    using k same_but_devsD [of example_tunnel t] by simp_all
  let ?t = "t\<lparr>tun_map := Live m\<rparr>"
  let ?s = "example_worker\<lparr>w_tunnel := ?t, w_history := h, w_rand := 2,
    w_lock := Write_Locked\<rparr>"
  have "em_abs example_two ?k = None" by (simp add: example_two_facts)
  then have "find_tap example_surroundings (v4_mapped 3) 0x3905 example_worker =
      new_endpoint example_surroundings (v4_mapped 3) 0x3905 (example_worker\<lparr>w_lock := Write_Locked\<rparr>)"
    by (intro unknown_goes_to_new_endpoint [of _ example_two])
      (simp_all add: example_allowed example_two_facts(1))
  moreover have "new_endpoint example_surroundings (v4_mapped 3) 0x3905
      (example_worker\<lparr>w_lock := Write_Locked\<rparr>) = Inr (Some 2, ?s)"
    using a m t by (simp add: new_endpoint_def Let_def)
  ultimately have find: "find_tap example_surroundings (v4_mapped 3) 0x3905 example_worker =
      Inr (Some 2, ?s)" by simp
  have "devs_wf ?t" and "devs ?t = devs t" using t(1) by (simp_all add: devs_wf_def devs_def)
  then have w: "devs_wf (w_tunnel ?s)" "nat 2 < num_tap_devs (w_tunnel ?s)" "0 < num_queues (w_tunnel ?s)"
    using a(2) t(3) by simp_all
  have two: "0 \<le> (2 :: int)" by simp
  obtain fs ss where d: "tap_fds (devs (w_tunnel ?s) ! nat 2) = Live fs"
      "stats (devs (w_tunnel ?s) ! nat 2) = Live ss"
    using dev_queue_ok [OF w(1) two w(2,3)] by metis
  obtain s2 ss' where "write_frame example_surroundings 0 2 [9, 9] ?s = Inr s2"
      "w_tunnel s2 = set_stats (nat 2) ss' (w_tunnel ?s)"
    using write_frame_ok [OF w(1) two w(2,3) d refl refl] by metis
  with find a(2) show ?thesis
    by (simp add: udp_packet_def example_new_datagram_def example_datagram_def Let_def set_stats_def set_dev_def)
qed


text \<open>
  C17. A datagram from a sender that is neither known nor allowed, or that is not an IPv6 (or
  IPv4-mapped) one, has no effect at all: no frame is written, no device made, no lock exchanged.
\<close>

theorem denied_sender_has_no_effect:
  assumes "tun_map (w_tunnel s) = Live m" and "em_wf m"
    and "from_family d \<noteq> AF_INET6 \<or>
      em_abs m (from_addr d, from_port d) = None \<and> \<not> allowed (w_tunnel s) (from_addr d) \<and>
      printed E (from_addr d) \<noteq> None"
  shows "udp_packet E q d s = Inr s"
proof (cases "from_family d = AF_INET6")
  case True
  with assms em.lookup_abs [OF assms(2), of "(from_addr d, from_port d)"]
  have "endpoint_map_lookup m (from_addr d) (from_port d) = - 1" by simp
  with True assms show ?thesis
    by (auto simp: udp_packet_def find_tap_def unknown_sender_def Let_def)
qed (simp add: udp_packet_def Let_def)

definition closed_worker :: worker where
  "closed_worker = example_worker\<lparr>w_tunnel := example_tunnel\<lparr>allowed_addr_list := None\<rparr>\<rparr>"

theorem denied_sender_has_no_effect_witness:
  "udp_packet example_surroundings 0 (example_datagram 3) closed_worker = Inr closed_worker"
proof (rule denied_sender_has_no_effect)
  show "tun_map (w_tunnel closed_worker) = Live example_two" by (simp add: closed_worker_def)
  show "em_wf example_two" by (rule example_two_facts)
  show "from_family (example_datagram 3) \<noteq> AF_INET6 \<or>
      em_abs example_two (from_addr (example_datagram 3), from_port (example_datagram 3)) = None \<and>
      \<not> allowed (w_tunnel closed_worker) (from_addr (example_datagram 3)) \<and>
      printed example_surroundings (from_addr (example_datagram 3)) \<noteq> None"
    by (simp add: example_two_facts example_datagram_def closed_worker_def allowed_def
        example_surroundings_def v4_mapped_inj)
qed

text \<open>
  C15. A new device: on success it is the next one, with the endpoint, zero counters and one queue
  for each worker, registered in the worker's own epoll instance under its id. On failure the
  devices are as they were; the descriptors left open are then none, or all queues of the device
  whose registration failed, which nothing will close.
\<close>

theorem new_tap_device_outcomes:
  assumes "fresh_fds K" and "devs_wf t" and "num_tap_devs t + 1 < 2 ^ 30"
    and "tunnel_alloc_new_tap K t addr p h = Inr ((tap_id, t'), h')"
  shows "devs_wf t' \<and> tun_map t' = tun_map t \<and>
    (if 0 \<le> tap_id then tap_id = int (num_tap_devs t) \<and>
       (\<exists>fds name. devs t' = devs t @ [new_dev (num_queues t) (addr, p) fds name] \<and>
          length fds = num_queues t \<and> registered t tap_id fds h' \<and> open_fds h' = open_fds h \<union> set fds)
     else devs t' = devs t \<and>
       (\<exists>fds. open_fds h' = open_fds h \<union> set fds \<and> set fds \<inter> open_fds h = {} \<and>
          (fds = [] \<or> length fds = num_queues t)))"
  using assms
proof (cases rule: alloc_new_tap_outcome)
  case (success fds name)
  then show ?thesis using same_but_devsD(2) [OF success(8)] by auto
next
  case (failure fds)
  then show ?thesis using same_but_devsD(2) [OF failure(4)] by auto
qed

theorem new_tap_device_outcomes_witness:
  "\<exists>t' h'. tunnel_alloc_new_tap no_epoll_kernel example_tunnel 1 80 [] = Inr ((- 1, t'), h') \<and>
     devs t' = devs example_tunnel \<and> open_fds h' = {3, 4}"
proof -
  obtain t' h' where run: "tunnel_alloc_new_tap no_epoll_kernel example_tunnel 1 80 [] =
      Inr ((- 1, t'), h')" "open_fds h' = {3, 4}"
    using example_alloc_fails by blast
  from new_tap_device_outcomes [OF fresh_no_epoll_kernel example_devs_wf _ run(1)] run
  show ?thesis by simp
qed

text \<open>
  The third of three IPv4 peers with one port hangs the worker that serves it, with the write
  lock held: once its device is allocated, the insertion into the endpoint map does not return.
\<close>

lemma third_ipv4_peer_hangs:
  assumes "fresh_fds (kern E)" and "t_wf (w_tunnel s)" and "num_tap_devs (w_tunnel s) + 1 < 2 ^ 30"
    and "in_place E" and "tun_map (w_tunnel s) = Live m" and "alloc_entries m \<le> 128"
    and "(v4_mapped x, p) \<in> dom (em_abs m)" "(v4_mapped y, p) \<in> dom (em_abs m)"
    and "x \<noteq> y" "z \<noteq> x" "z \<noteq> y"
    and "tunnel_alloc_new_tap (kern E) (w_tunnel s) (v4_mapped z) p (w_history s) = Inr ((v, t), h)"
    and "0 \<le> v"
  shows "under_write_lock E (v4_mapped z) p s = Inl Never_Returns"
proof -
  have w: "devs_wf (w_tunnel s)" and em: "em_wf m" using assms(2,5) by (auto simp: t_wf_def)
  from assms(1) w assms(3,12) have "tun_map t = Live m"
  proof (cases rule: alloc_new_tap_outcome)
    case (success fds name)
    then show ?thesis using same_but_devsD(2) [OF success(8)] assms(5) by simp
  next
    case failure
    then show ?thesis using assms(13) by simp
  qed
  moreover have "same_class (alloc_entries m) (v4_mapped x, p) (v4_mapped w, p)" for w
    using assms(6) by (intro same_class_v4) simp
  then have "em_abs m (v4_mapped z, p) = None"
    using third_v4_absent [OF em assms(6-11)] v4_mapped_inj by blast
  then have "endpoint_map_lookup m (v4_mapped z) p = - 1"
    using em.lookup_abs [OF em, of "(v4_mapped z, p)"] by simp
  moreover obtain fresh where "env_realloc (heap E h m) = Some fresh" "length fresh = alloc_entries m"
      "env_malloc_ok (heap E h m)"
    using assms(4) by (fastforce simp: in_place_def fresh_clean_def split: option.splits)
  then have "endpoint_map_add (heap E h m) (rands E) (w_rand s) m (v4_mapped z) p v = None"
    by (intro third_peer_diverges [OF em assms(6-11)])
  ultimately show ?thesis
    using assms(5,12,13) by (simp add: under_write_lock_def new_endpoint_def Let_def)
qed

lemma example_third_peer:
  "\<exists>t h. tunnel_alloc_new_tap kind_kernel example_tunnel (v4_mapped 3) 0xD204 [] = Inr ((2, t), h)"
  using example_alloc [of "0xD204" "v4_mapped 3"] by auto

text \<open>
  C16. When the insertion of a new endpoint moves the endpoint map, the tunnel keeps the pointer to
  the old block: the next datagram on the same socket reads freed memory.
\<close>

theorem moved_map_is_used_after_free:
  assumes "fresh_fds (kern E)" and "t_wf (w_tunnel s)" and "q < num_queues (w_tunnel s)"
    and "num_tap_devs (w_tunnel s) + 1 < 2 ^ 30"
    and "tun_map (w_tunnel s) = Live m" "em_abs m (from_addr d, from_port d) = None"
    and "allowed (w_tunnel s) (from_addr d)" "printed E (from_addr d) \<noteq> None"
    and "others E (w_history s) (w_tunnel s) = w_tunnel s"
    and "tunnel_alloc_new_tap (kern E) (w_tunnel s) (from_addr d) (from_port d) (w_history s) =
      Inr ((v, t), h)" "0 \<le> v"
    and "endpoint_map_add (heap E h m) (rands E) (w_rand s) m (from_addr d) (from_port d) v = Some res"
      "add_moved res"
    and "from_family d = AF_INET6" "from_family d' = AF_INET6"
  shows "udp_loop E q (Datagram d # Datagram d' # is) s = Inl Use_After_Free"
  by (rule moved_map_faults [OF assms])

text \<open>A tunnel with 32 devices, whose map is full, and an allocator with no room where the map is.\<close>

definition full_dev :: "nat \<Rightarrow> tap_dev" where
  "full_dev i = \<lparr>remote_ip = word_of_nat i, remote_port = 0, tap_fds = Live [0, 0],
     stats = Live [zero_stats, zero_stats], tap_name = []\<rparr>"

definition full_tunnel :: tunnel where
  "full_tunnel = example_tunnel\<lparr>num_tap_devs := 32, tap_devs_allocated := 64,
     tun_map := Live example_full,
     tap_devs := map (\<lambda>i. Some (full_dev i)) [0..<32] @ replicate 32 None\<rparr>"

definition full_worker :: worker where
  "full_worker = example_worker\<lparr>w_tunnel := full_tunnel\<rparr>"

definition moving_surroundings :: surroundings where
  "moving_surroundings = example_surroundings\<lparr>heap := (\<lambda>h m.
     \<lparr>env_realloc = Some (replicate 32 zero_entry), env_moves = True, env_malloc_ok = False\<rparr>)\<rparr>"

lemma full_devs: "devs full_tunnel = map full_dev [0..<32]"
  by (simp add: devs_def full_tunnel_def del: upt_rec_numeral)

lemma full_tunnel_wf: "t_wf full_tunnel"
proof (rule t_wfI [of _ example_full])
  show "devs_wf full_tunnel"
    by (simp add: devs_wf_def full_tunnel_def list_all_iff slot_ok_def dev_ok_def full_dev_def
        example_tunnel_def del: upt_rec_numeral)
  show "tun_map full_tunnel = Live example_full" by (simp add: full_tunnel_def)
  show "em_wf example_full" by (rule example_full_wf)
  show "routes (em_abs example_full) (map dev_key (devs full_tunnel))"
  proof (rule routesI)
    fix k v assume "em_abs example_full k = Some v"
    then obtain i where i: "i < alloc_entries example_full" "entry_key (entries example_full ! i) = k"
        "entry_tap (entries example_full ! i) = v"
      using em_abs_SomeD [OF example_full_wf] by blast
    then have "i < 32" "k = (word_of_nat i, 0)" "v = sint (word_of_nat i :: 31 word)"
      by (auto simp: example_full_def full_entry_def entry_key_def entry_tap_def)
    moreover have "sint (word_of_nat i :: 31 word) = int i"
      using \<open>i < 32\<close> by (simp add: signed_of_nat signed_take_bit_int_eq_self)
    ultimately show "0 \<le> v \<and> nat v < length (map dev_key (devs full_tunnel)) \<and>
        map dev_key (devs full_tunnel) ! nat v = k"
      by (simp add: full_devs dev_key_def full_dev_def del: upt_rec_numeral)
  qed
qed

lemma full_alloc:
  "\<exists>t h. tunnel_alloc_new_tap kind_kernel full_tunnel addr 0x3905 [] = Inr ((32, t), h)"
proof -
  obtain name h where c: "example_create 1 kind_kernel = Inr ((True, [3, 4], name), h)"
    using example_create_runs [of kind_kernel 1] by auto
  obtain h1 where "register_queues kind_kernel [7, 8] [3, 4] 32 [0..<2] h = Inr (True, h1)"
    by (simp add: upt_rec net_set_nonblocking_def sys_def kind_other Let_def at_index_def)
  with c [unfolded example_create_def] show ?thesis
    by (simp add: tunnel_alloc_new_tap_def expand_table_def attach_queues_def full_tunnel_def
        example_tunnel_def sys0_def sys_def tap_zero_def Let_def set_dev_def kind_other
        del: upt_rec_numeral)
qed

theorem moved_map_is_used_after_free_witness:
  "udp_loop moving_surroundings 0 [Datagram example_new_datagram, Datagram (example_datagram 1)]
     full_worker = Inl Use_After_Free"
proof -
  have simps: "w_tunnel full_worker = full_tunnel" "w_history full_worker = []" "w_rand full_worker = 2"
    "kern moving_surroundings = kind_kernel" "others moving_surroundings = (\<lambda>h t. t)"
    "printed moving_surroundings = (\<lambda>a. Some [])" "num_queues full_tunnel = 2"
    "num_tap_devs full_tunnel = 32" "tun_map full_tunnel = Live example_full"
    by (simp_all add: full_worker_def moving_surroundings_def full_tunnel_def)
  have dg: "from_addr example_new_datagram = v4_mapped 3" "from_port example_new_datagram = 0x3905"
    "from_family example_new_datagram = AF_INET6" "from_family (example_datagram 1) = AF_INET6"
    by (simp_all add: example_new_datagram_def example_datagram_def)
  obtain t h where a: "tunnel_alloc_new_tap kind_kernel full_tunnel (v4_mapped 3) 0x3905 [] =
      Inr ((32, t), h)" using full_alloc by blast
  have "em_abs example_full (v4_mapped 3, 0x3905) = None"
    unfolding em_abs_None_iff [OF example_full_wf]
    by (simp add: example_full_def full_entry_def entry_key_def del: upt_rec_numeral)
  moreover have "allowed full_tunnel (v4_mapped 3)"
    using example_allowed [of 3] by (simp add: allowed_def full_tunnel_def)
  moreover have "\<exists>res. endpoint_map_add (heap moving_surroundings h example_full)
      (rands moving_surroundings) 2 example_full (v4_mapped 3) 0x3905 32 = Some res \<and> add_moved res"
    by (simp add: endpoint_map_add_def rebuild_def moving_surroundings_def)
      (simp add: example_full_def)
  then obtain res where "endpoint_map_add (heap moving_surroundings h example_full)
      (rands moving_surroundings) 2 example_full (v4_mapped 3) 0x3905 32 = Some res" "add_moved res"
    by blast
  ultimately show ?thesis
    by (intro moved_map_is_used_after_free [where m = example_full and v = 32 and t = t and h = h
          and res = res])
      (simp_all add: simps dg a fresh_kind_kernel full_tunnel_wf)
qed

text \<open>
  C33. A datagram from an allowed sender with source port \<open>0\<close> aborts the program: the assertion on
  the port in \<^verbatim>\<open>tunnel_alloc_new_tap\<close> fails.
\<close>

theorem source_port_zero_aborts:
  assumes "tun_map (w_tunnel s) = Live m" "em_wf m" "em_abs m (from_addr d, 0) = None"
    and "allowed (w_tunnel s) (from_addr d)" "printed E (from_addr d) \<noteq> None"
    and "others E (w_history s) (w_tunnel s) = w_tunnel s"
    and "expand_table (kern E) (w_tunnel s) (w_history s) = Inr ((True, t), h)"
    and "from_family d = AF_INET6" "from_port d = 0"
  shows "udp_packet E q d s = Inl Assert_Failed"
  using unknown_goes_to_new_endpoint [of s m "from_addr d" 0 E] assms
  by (simp add: udp_packet_def new_endpoint_def tunnel_alloc_new_tap_def Let_def)

theorem source_port_zero_aborts_witness:
  "udp_packet example_surroundings 0 ((example_datagram 3)\<lparr>from_port := 0\<rparr>) example_worker =
     Inl Assert_Failed"
proof -
  have "\<exists>t h. expand_table kind_kernel example_tunnel [] = Inr ((True, t), h)"
    by (simp add: expand_table_def example_tunnel_def sys_def kind_other Let_def)
  then obtain t h where "expand_table kind_kernel example_tunnel [] = Inr ((True, t), h)" by blast
  then show ?thesis
    by (intro source_port_zero_aborts [of _ example_two])
      (simp_all add: example_two_facts example_datagram_def example_allowed)
qed

text \<open>
  The workers take different queues: as many threads as there are queues, in whatever order
  they start, get each queue once.
\<close>

lemma workers_take_each_queue_once:
  assumes "queue_ids t = 0"
  shows "fst (take_queues (num_queues t) t) = [0..<num_queues t]"
  using assms by (simp add: take_queues_eq) (rule map_idI, simp)

end
