(* ===== verification/Lifecycle_Properties.thy ===== *)
theory Lifecycle_Properties
  imports Lifecycle Worker_Properties
begin

text \<open>
  What the creation and the deletion of a tunnel guarantee, with concrete runs.
\<close>

section \<open>Examples\<close>

definition open_params :: tunnel_params where
  "open_params = zero_params\<lparr>p_num_queues := 2, allowed_remote_hosts := Some ''::/1'',
     bind_iface := Some ''wg0'', bind_port := 1234, p_tunnel_name := Some ''vpn''\<rparr>"

definition example_resolver :: resolver where
  "example_resolver = \<lparr>to_addr = (\<lambda>s. Some 0), to_text_ok = (\<lambda>a. True), junk_addr = 0\<rparr>"

lemma example_creation:
  "\<exists>t r h. tunnel_create example_surroundings example_resolver open_params 0 [] = Inr ((Some t, r), h) \<and>
     udp_fds t = [4, 5] \<and> epoll_fds t = [6, 7] \<and> num_queues t = 2 \<and> num_tap_devs t = 0"
proof -
  have "(case tunnel_create example_surroundings example_resolver open_params 0 [] of
      Inr ((Some t, r), h) \<Rightarrow> udp_fds t = [4, 5] \<and> epoll_fds t = [6, 7] \<and> num_queues t = 2 \<and> num_tap_devs t = 0
    | _ \<Rightarrow> False)"
    by code_simp
  then show ?thesis by (auto split: sum.splits prod.splits option.splits)
qed

lemma example_failed_creation:
  "\<exists>r h. tunnel_create (example_surroundings\<lparr>kern := no_epoll_kernel\<rparr>) example_resolver open_params 0 [] =
     Inr ((None, r), h)"
proof -
  have "(case tunnel_create (example_surroundings\<lparr>kern := no_epoll_kernel\<rparr>) example_resolver open_params 0 [] of
      Inr ((None, r), h) \<Rightarrow> True | _ \<Rightarrow> False)"
    by code_simp
  then show ?thesis by (auto split: sum.splits prod.splits option.splits)
qed

section \<open>Properties\<close>



text \<open>
  C18. A creation without a default endpoint that returns no tunnel has closed every descriptor it
  opened, at whichever step it failed.
\<close>

theorem failed_creation_closes_descriptors:
  assumes "fresh_fds (kern E)" and "default_remote_host ps = None"
    and "tunnel_create E R ps r h = Inr ((None, r'), h')"
  shows "open_fds h' = open_fds h"
  using tunnel_create_outcome [OF assms(1,3)] assms(2) by simp

theorem failed_creation_closes_descriptors_witness:
  "\<exists>r h. tunnel_create (example_surroundings\<lparr>kern := no_epoll_kernel\<rparr>) example_resolver open_params 0 [] =
     Inr ((None, r), h) \<and> open_fds h = {}"
proof -
  obtain r h where run: "tunnel_create (example_surroundings\<lparr>kern := no_epoll_kernel\<rparr>) example_resolver
      open_params 0 [] = Inr ((None, r), h)"
    using example_failed_creation by blast
  have "fresh_fds (kern (example_surroundings\<lparr>kern := no_epoll_kernel\<rparr>))"
    by (simp add: fresh_no_epoll_kernel)
  moreover have "default_remote_host open_params = None" by (simp add: open_params_def zero_params_def)
  ultimately have "open_fds h = open_fds []"
    using failed_creation_closes_descriptors [OF _ _ run] by blast
  with run show ?thesis by (auto simp: fds)
qed

text \<open>
  C13. Deleting a tunnel whose workers can be joined: without devices it closes every descriptor of
  the tunnel; with one device it closes the first of the device's queues and leaves the others open;
  with two or more it reads the array of the first device after freeing it, because the inner loop
  frees and is bounded by the number of devices, not of queues.
\<close>

theorem tunnel_deletion_outcomes:
  assumes "t_wf t" and "0 < num_queues t" and "\<And>h. others E h t = t"
    and "set (filter (\<lambda>w. w \<noteq> 0) (workers t)) \<subseteq> live_threads h" "distinct (filter (\<lambda>w. w \<noteq> 0) (workers t))"
  shows "(num_tap_devs t = 0 \<longrightarrow> (\<exists>h'. tunnel_delete E (Some t) h = Inr h' \<and>
      open_fds h' = open_fds h - (pos (udp_fds t) \<union> pos (epoll_fds t)))) \<and>
    (num_tap_devs t = 1 \<longrightarrow> (\<exists>fs h'. tap_fds (devs t ! 0) = Live fs \<and> tunnel_delete E (Some t) h = Inr h' \<and>
      open_fds h' = open_fds h - (pos (udp_fds t) \<union> pos [fs ! 0] \<union> pos (epoll_fds t)))) \<and>
    (2 \<le> num_tap_devs t \<longrightarrow> tunnel_delete E (Some t) h = Inl Use_After_Free)"
  by (rule tunnel_delete_idle [OF assms])

definition started :: history where
  "started = [(Sys_thread_create, reply_ok\<lparr>r_out := 101\<rparr>), (Sys_thread_create, reply_ok\<lparr>r_out := 102\<rparr>)]"

theorem tunnel_deletion_outcomes_witness:
  "tunnel_delete example_surroundings (Some example_tunnel) started = Inl Use_After_Free"
proof -
  have "live_threads started = {101, 102}"
    by (auto simp: live_threads_def started_def reply_ok_def)
  moreover have "workers example_tunnel = [101, 102]" "num_queues example_tunnel = 2"
      "num_tap_devs example_tunnel = 2"
    by (simp_all add: example_tunnel_def)
  moreover have "t_wf example_tunnel" using example_wf by simp
  ultimately show ?thesis
    using tunnel_deletion_outcomes [of example_tunnel example_surroundings started]
    by (simp add: example_surroundings_def)
qed

end
