(* ===== verification/Config_Properties.thy ===== *)
theory Config_Properties
  imports Config Lifecycle_Properties
begin

text \<open>
  What reading a configuration and running the program comes to: the callback is equivalent to
  reading section by section, every tunnel made is complete and in the list, and how the values are
  taken apart.
\<close>

section \<open>Files without a header\<close>

text \<open>Keys before the first section belong to a tunnel without a name.\<close>

definition read_config ::
  "surroundings \<Rightarrow> resolver \<Rightarrow> (string \<times> string) list \<Rightarrow> section_text list \<Rightarrow>
     config_parse_state \<times> world \<Rightarrow> (bool \<times> config_parse_state \<times> world) res"
where
  "read_config E R kvs ss sw =
     (if kvs = [] then read_sections E R ss sw
      else go_on (read_keys E kvs sw) (\<lambda>sw. go_on (commit_tunnel E R sw) (read_sections E R ss)))"

definition config_events :: "(string \<times> string) list \<Rightarrow> section_text list \<Rightarrow> ini_event list" where
  "config_events kvs ss = map (\<lambda>kv. (Some (fst kv), Some (snd kv))) kvs @ concat (map section_events ss)"

lemma deliver_config:
  assumes "\<not> seen_values (fst sw)" "\<forall>s \<in> set ss. snd s \<noteq> []"
  shows "deliver (config_parse_event E R) (config_events kvs ss @ [(None, None)]) sw = read_config E R kvs ss sw"
proof (cases "kvs = []")
  case True
  with deliver_sections [OF assms] show ?thesis by (simp add: config_events_def read_config_def)
next
  case False
  then show ?thesis
    using read_keys_seen [of E kvs sw] assms(2)
    by (auto simp: config_events_def read_config_def deliver_keys intro!: go_on_cong deliver_sections_seen)
qed

section \<open>The tunnels made so far\<close>

definition tunnel_ok :: "tunnel \<Rightarrow> bool" where
  "tunnel_ok t \<longleftrightarrow> t_full t \<and> length (workers t) = num_queues t"

definition list_ok :: "nat \<Rightarrow> nat tunnel_list option \<Rightarrow> bool" where
  "list_ok n lp \<longleftrightarrow> (\<exists>l. lp = Some l \<and> tl_wf l \<and> tl_view l = [0..<n] \<and> alloc_size l \<le> 2 * num_tunnels l + 1)"

definition config_ok :: "nat \<Rightarrow> config_parse_state \<times> world \<Rightarrow> bool" where
  "config_ok n sw \<longleftrightarrow> list_ok (length (made (snd sw))) (parse_list (fst sw)) \<and>
     (\<forall>t \<in> set (made (snd sw)). tunnel_ok t) \<and> length (made (snd sw)) \<le> n"

lemma config_ok_mono: "config_ok m sw \<Longrightarrow> m \<le> n \<Longrightarrow> config_ok n sw"
  by (auto simp: config_ok_def)

lemma list_add_ok:
  assumes "list_ok n (Some l)" "n < 2 ^ 28 - 1" "tunnel_list_add True l n = Inr (added, l')"
  shows "added \<and> list_ok (Suc n) (Some l')"
proof -
  from assms(1) have l: "tl_wf l" "tl_view l = [0..<n]" "alloc_size l \<le> 2 * num_tunnels l + 1"
    by (auto simp: list_ok_def)
  have num: "nat (num_tunnels l) = n" using length_tl_view [OF l(1)] l(2) by simp
  have size: "alloc_size l < 2 ^ 29" using l(3) num assms(2) tl_wfD(1) [OF l(1)] by simp
  have added: added
    using assms(3) by (auto simp: tunnel_list_add_def Let_def split: if_splits)
  note a = tunnel_list_add_ok [OF l(1) assms(3) added size]
  moreover have "alloc_size l' \<le> 2 * num_tunnels l' + 1"
    using assms(3) l(3) tl_wfD(1,2) [OF l(1)]
    by (auto simp: tunnel_list_add_def Let_def split: if_splits)
  ultimately show ?thesis using added l(2) by (auto simp: list_ok_def)
qed

lemma alloc_mem: "\<forall>h. 0 \<le> ret (K h Sys_alloc) \<Longrightarrow> alloc K h = (ok, h') \<Longrightarrow> ok"
  by (auto simp: alloc_def sys_def not_less)

lemma append_tunnel_ok:
  assumes mem: "\<forall>h. 0 \<le> ret (kern E h Sys_alloc)" and "config_ok n sw" "n < 2 ^ 28 - 1" "tunnel_ok t"
    and "append_tunnel E t sw = Inr (ok, sw')"
  shows "config_ok (Suc n) sw'"
proof -
  obtain st w where sw: "sw = (st, w)" by fastforce
  let ?n = "length (made w)"
  from assms(2) sw obtain l where l: "parse_list st = Some l" "list_ok ?n (Some l)" "?n \<le> n"
    by (auto simp: config_ok_def list_ok_def)
  obtain a h where a: "list_memory (kern E) l (calls w) = (a, h)" by fastforce
  then have "a"
    using alloc_mem [where K = "kern E", OF mem] by (auto simp: list_memory_def split: if_splits)
  obtain added l' where add: "tunnel_list_add True l ?n = Inr (added, l')"
    using assms(5) sw l(1) a \<open>a\<close> by (auto simp: append_tunnel_def Let_def)
  have "?n < 2 ^ 28 - 1" using l(3) assms(3) by linarith
  note ok = list_add_ok [OF l(2) this add]
  with assms(5) sw l(1) a \<open>a\<close> add
  have "sw' = (st\<lparr>parse_list := Some l'\<rparr>, w\<lparr>made := made w @ [t], calls := h\<rparr>)"
    by (simp add: append_tunnel_def Let_def)
  with ok assms(2,4) sw show ?thesis by (auto simp: config_ok_def)
qed

lemma commit_tunnel_ok:
  assumes fresh: "fresh_fds (kern E)" and mem: "\<forall>h. 0 \<le> ret (kern E h Sys_alloc)"
    and "config_ok n sw" "n < 2 ^ 28 - 1" "commit_tunnel E R sw = Inr (ok, sw')"
  shows "config_ok (Suc n) sw'"
proof -
  obtain st w where sw: "sw = (st, w)" by fastforce
  from assms(5) sw obtain ps h tun r h' where
    create: "tunnel_create E R ps (draws w) h = Inr ((tun, r), h')"
    and rest: "(case tun of
        None \<Rightarrow> Inr (False, st\<lparr>params := reset_tunnel_params ps\<rparr>, w\<lparr>calls := h', draws := r\<rparr>)
      | Some t \<Rightarrow> append_tunnel E t (st\<lparr>params := reset_tunnel_params ps\<rparr>, w\<lparr>calls := h', draws := r\<rparr>)) =
      Inr (ok, sw')"
    by (auto simp: commit_tunnel_def Let_def)
  let ?sw = "(st\<lparr>params := reset_tunnel_params ps\<rparr>, w\<lparr>calls := h', draws := r\<rparr>)"
  have same: "config_ok n ?sw" using assms(3) sw by (simp add: config_ok_def)
  show ?thesis
  proof (cases tun)
    case None
    with rest same show ?thesis by (auto intro: config_ok_mono)
  next
    case (Some t)
    with tunnel_create_outcome [OF fresh create] mem have "tunnel_ok t"
      by (simp add: tunnel_built_def tunnel_ok_def)
    with append_tunnel_ok [OF mem same assms(4), of t ok sw'] rest Some show ?thesis by simp
  qed
qed

lemma config_event_ok:
  assumes fresh: "fresh_fds (kern E)" and mem: "\<forall>h. 0 \<le> ret (kern E h Sys_alloc)"
    and "config_ok n sw" "n < 2 ^ 28 - 1" "config_parse_event E R key v sw = Inr (ok, sw')"
  shows "config_ok (Suc n) sw'"
proof -
  have key: "config_ok n sw'" if "key_event E k x sw = Inr (ok, sw')" for k x
    using that assms(3) by (auto simp: key_event_def config_ok_def split: prod.splits)
  have new: "config_ok m sw'" if "new_section E key sw1 = Inr (ok, sw')" "config_ok m sw1" for m sw1
    using that by (auto simp: new_section_def config_ok_def split: prod.splits option.splits)
  show ?thesis
  proof (cases v)
    case (Some x)
    with assms(5) key show ?thesis
      by (auto simp: config_parse_event_def split: option.splits intro: config_ok_mono [of n])
  next
    case None
    with assms(5) obtain b sw1 where one: "(if seen_values (fst sw) then commit_tunnel E R sw else Inr (True, sw)) =
        Inr (b, sw1)"
      and rest: "(if b then new_section E key sw1 else Inr (False, sw1)) = Inr (ok, sw')"
      by (auto simp: config_parse_event_def section_event_def go_on_def)
    have "config_ok (Suc n) sw1"
      using one commit_tunnel_ok [OF fresh mem assms(3,4), of R b sw1] config_ok_mono [OF assms(3)]
      by (auto split: if_splits)
    with rest new show ?thesis by (auto split: if_splits)
  qed
qed

text \<open>The parser calls the callback at most once for each line, and once more.\<close>

lemma ini_line_keeps:
  assumes "\<And>k v u b u'. cb k v u = Inr (b, u') \<Longrightarrow> P u \<Longrightarrow> Q u'" "\<And>u. P u \<Longrightarrow> Q u"
    and "ini_line cb l u = Inr (out, u')" "P u"
  shows "Q u'"
  using assms
  by (auto simp: ini_line_def call_back_def Let_def split: option.splits if_splits prod.splits)

lemma ini_lines_keeps:
  assumes step: "\<And>n k v u b u'. n < N \<Longrightarrow> cb k v u = Inr (b, u') \<Longrightarrow> P n u \<Longrightarrow> P (Suc n) u'"
    and mono: "\<And>n u. P n u \<Longrightarrow> P (Suc n) u"
    and "ini_lines cb ls i u = Inr (out, j, u')" "P n u" "n + length ls \<le> N"
  shows "\<exists>m \<le> n + length ls. P m u'"
  using assms(3-)
proof (induction ls arbitrary: i u n)
  case (Cons l ls)
  obtain out1 u1 where one: "ini_line cb l u = Inr (out1, u1)"
    and rest: "(if out1 = Next_Line then ini_lines cb ls (i + 1) u1 else Inr (out1, i + 1, u1)) =
      Inr (out, j, u')"
    using Cons.prems(1) by auto
  have "n < N" using Cons.prems(3) by simp
  have P1: "P (Suc n) u1"
    by (rule ini_line_keeps [of cb "P n" "P (Suc n)", OF step [OF \<open>n < N\<close>] mono one])
      (use Cons.prems in auto)
  show ?case
  proof (cases "out1 = Next_Line")
    case True
    with Cons.IH [OF _ P1] rest Cons.prems(3) show ?thesis by auto
  next
    case False
    with rest P1 show ?thesis by (intro exI [of _ "Suc n"]) auto
  qed
qed auto

lemma parsed_config_ok:
  assumes fresh: "fresh_fds (kern E)" and mem: "\<forall>h. 0 \<le> ret (kern E h Sys_alloc)"
    and start: "config_ok 0 sw" and "length (fgets_lines 2047 text) < 2 ^ 28 - 2"
    and "ini_parse_file (Some text) (config_parse_event E R) sw = Inr (res, sw')"
  shows "\<exists>n. config_ok n sw'"
proof -
  let ?cb = "config_parse_event E R" and ?ls = "fgets_lines 2047 text"
  obtain out j sw1 where lines: "ini_lines ?cb ?ls 0 sw = Inr (out, j, sw1)"
    using assms(5) by (auto simp: ini_parse_file_def)
  have step: "config_ok (Suc n) u'" if "n < 2 ^ 28 - 1" "?cb k v u = Inr (b, u')" "config_ok n u" for n k v u b u'
    by (rule config_event_ok [OF fresh mem that(3,1,2)])
  have mono: "config_ok (Suc n) u" if "config_ok n u" for n u
    by (rule config_ok_mono [OF that]) simp
  have "\<exists>m \<le> 0 + length ?ls. config_ok m sw1"
    by (rule ini_lines_keeps [of "2 ^ 28 - 1" ?cb config_ok, OF step mono lines start])
      (use assms(4) in auto)
  then obtain m where "m \<le> length ?ls" "config_ok m sw1" by auto
  with assms(4) have m: "m < 2 ^ 28 - 1" "config_ok m sw1" by linarith+
  have "sw' = sw1 \<or> (\<exists>b. ?cb None None sw1 = Inr (b, sw'))"
    using assms(5) lines by (auto simp: ini_parse_file_def call_back_def split: if_splits)
  with m step show ?thesis by blast
qed

section \<open>Waiting and deleting\<close>

lemma for_threads_joins:
  "for_threads K Sys_thread_join ws h = Inr h' \<Longrightarrow> live_threads h' = live_threads h - set ws"
proof (induction ws arbitrary: h)
  case (Cons w ws)
  have "live_threads (sys0 K (Sys_thread_join w) h) = live_threads h - {w}"
    by (simp add: sys0_def sys_def live_threads_append)
  with Cons show ?case by (auto split: if_splits)
qed simp

text \<open>Workers change a tunnel, but not the array of threads.\<close>

definition keeps_workers :: "surroundings \<Rightarrow> bool" where
  "keeps_workers E \<longleftrightarrow> (\<forall>h t. workers (others E h t) = workers t)"

lemma tunnel_wait_joins:
  assumes "keeps_workers E" "tunnel_wait E t h = Inr (t', h')"
  shows "workers t' = workers t" "live_threads h' = live_threads h - set (workers t)"
  using assms for_threads_joins by (auto simp: tunnel_wait_def keeps_workers_def)

lemma wait_all_joins:
  assumes "keeps_workers E" "wait_all E l is w = Inr w'"
  shows "map workers (made w') = map workers (made w) \<and> live_threads (calls w') \<subseteq> live_threads (calls w) \<and>
    (\<forall>i k. i \<in> set is \<longrightarrow> tunnel_list_get l (int i) = Inr (Some k) \<longrightarrow>
       k < length (made w) \<and> live_threads (calls w') \<inter> set (workers (made w ! k)) = {})"
  using assms(2)
proof (induction "is" arbitrary: w)
  case (Cons i "is")
  show ?case
  proof (cases "tunnel_list_get l (int i) = Inr None")
    case True
    with Cons show ?thesis by auto
  next
    case False
    with Cons.prems obtain k t1 h1 where k: "tunnel_list_get l (int i) = Inr (Some k)" "k < length (made w)"
      and wt: "tunnel_wait E (made w ! k) (calls w) = Inr (t1, h1)"
      and rest: "wait_all E l is (w\<lparr>made := (made w)[k := t1], calls := h1\<rparr>) = Inr w'"
      by (auto split: option.splits)
    note j = tunnel_wait_joins [OF assms(1) wt]
    have same: "map workers ((made w)[k := t1]) = map workers (made w)"
      using k(2) j(1) by (simp add: map_update list_update_same_conv)
    then have nth: "workers ((made w)[k := t1] ! m) = workers (made w ! m)" if "m < length (made w)" for m
      using that by (metis length_list_update nth_map)
    note IH = Cons.IH [OF rest]
    have "m < length (made w) \<and> live_threads (calls w') \<inter> set (workers (made w ! m)) = {}"
      if "n \<in> set is" "tunnel_list_get l (int n) = Inr (Some m)" for n m
    proof -
      from IH that have "m < length (made w)"
        "live_threads (calls w') \<inter> set (workers ((made w)[k := t1] ! m)) = {}" by simp_all
      with nth [of m] show ?thesis by simp
    qed
    moreover have "live_threads (calls w') \<inter> set (workers (made w ! k)) = {}"
      using IH j by auto
    ultimately show ?thesis using IH same j(2) k by auto
  qed
qed simp

lemma finished_program:
  assumes keeps: "keeps_workers E" and list: "list_ok (length (made w)) (Some l)"
    and first: "made w = t # ts" "workers t = x # xs" "0 \<notin> set (workers t)"
  shows "\<exists>f. after_parse E (Parsed, st\<lparr>parse_list := Some l\<rparr>, w) = Inl f"
proof (cases "wait_all E l [0..<tunnel_list_size l] w")
  case (Inl f)
  then show ?thesis by (simp add: after_parse_def)
next
  case (Inr w')
  from list have l: "tl_wf l" "tl_view l = [0..<length (made w)]" by (auto simp: list_ok_def)
  have size: "tunnel_list_size l = length (made w)"
    using length_tl_view [OF l(1)] l(2) by (simp add: tunnel_list_size_def)
  have get: "tunnel_list_get l 0 = Inr (Some 0)"
    using tunnel_list_get_view [OF l(1), of 0] l(2) first(1) by (simp del: upt_Suc)
  note j = wait_all_joins [OF keeps Inr]
  have "0 \<in> set [0..<tunnel_list_size l]" using size first(1) by simp
  with j get first(1) have dead: "live_threads (calls w') \<inter> set (workers t) = {}" by force
  obtain t' ts' where t': "made w' = t' # ts'" "workers t' = workers t"
    using j first(1) by (cases "made w'") auto
  have "tunnel_delete E (Some t') h = Inl Use_After_Free" if "h = calls w'" for h
    using dead t'(2) first(2,3) that
    by (auto simp: tunnel_delete_def stop_workers_def Let_def)
  moreover have "cell l 0 = Inr 0" using get by (auto simp: tunnel_list_get_def split: if_splits)
  moreover have "0 < num_tunnels l" using size first(1) by (simp add: tunnel_list_size_def)
  moreover have "[0..num_tunnels l - 1] = 0 # [1..num_tunnels l - 1]"
    using \<open>0 < num_tunnels l\<close> by (simp add: upto_rec1)
  ultimately have "delete_all E (Some l) w' = Inl Use_After_Free"
    by (simp add: delete_all_def tunnel_list_delete_def delete_made_def t'(1))
  with Inr show ?thesis by (simp add: after_parse_def)
qed

section \<open>Properties\<close>

text \<open>
  C10. Reading a file through the callback is the same as reading it section by section: the keys before
  the first header make a tunnel if there are any, and every section, in order, sets the name and the
  default number of queues, then its keys, and then makes its tunnel, until something is refused. No
  section may be empty, because an empty one at the start makes no tunnel and a later one does.
\<close>

theorem config_is_read_by_sections:
  assumes "\<forall>x \<in> set xs. line_ok x" and "concat (map (\<lambda>x. item_events (snd x)) xs) = config_events kvs ss"
    and "\<forall>s \<in> set ss. snd s \<noteq> []" and "\<not> seen_values (fst sw)"
  shows "bind_res (ini_parse_file (Some (render_file xs)) (config_parse_event E R) sw)
      (\<lambda>(r, sw). Inr (r = Parsed, sw)) = read_config E R kvs ss sw"
  unfolding ini_parse_rendered [OF assms(1)] assms(2) by (rule deliver_config [OF assms(4,3)])

text \<open>The keys as the help text of the program lists them; \<^verbatim>\<open>base_tap_name\<close> is not one that is read.\<close>

definition help_config :: "(ini_layout \<times> ini_item) list" where
  "help_config = map (Pair plain_layout) [Ini_Section ''vpn'', Ini_Entry ''bind_iface'' ''wg0'',
     Ini_Entry ''bind_port'' ''1234'', Ini_Entry ''base_tap_name'' ''tap'', Ini_Entry ''mtu'' ''1400'']"

definition start_world :: world where
  "start_world = \<lparr>made = [], calls = [], draws = 0\<rparr>"

definition empty_list :: "nat tunnel_list" where
  "empty_list = \<lparr>alloc_size = 1, num_tunnels = 0, tunnels = []\<rparr>"

theorem config_is_read_by_sections_witness:
  "\<exists>sw. bind_res (ini_parse_file (Some (render_file help_config))
        (config_parse_event example_surroundings example_resolver) (start_state 4 (Some empty_list), start_world))
      (\<lambda>(r, sw). Inr (r = Parsed, sw)) = Inr (False, sw) \<and>
    bind_iface (params (fst sw)) = Some ''wg0'' \<and> bind_port (params (fst sw)) = 1234 \<and>
    p_num_queues (params (fst sw)) = 4 \<and> p_mtu (params (fst sw)) = 0"
proof -
  let ?ss = "[(''vpn'', [(''bind_iface'', ''wg0''), (''bind_port'', ''1234''),
    (''base_tap_name'', ''tap''), (''mtu'', ''1400'')])]"
  have lines: "\<forall>x \<in> set help_config. line_ok x" by code_simp
  have events: "concat (map (\<lambda>x. item_events (snd x)) help_config) = config_events [] ?ss" by code_simp
  have "(case read_config example_surroundings example_resolver [] ?ss
      (start_state 4 (Some empty_list), start_world) of
    Inr (ok, st, w) \<Rightarrow> \<not> ok \<and> bind_iface (params st) = Some ''wg0'' \<and> bind_port (params st) = 1234 \<and>
      p_num_queues (params st) = 4 \<and> p_mtu (params st) = 0
    | _ \<Rightarrow> False)" by code_simp
  with config_is_read_by_sections [OF lines events, of "(start_state 4 (Some empty_list), start_world)"
      example_surroundings example_resolver]
  show ?thesis by (auto simp: start_state_def split: sum.splits)
qed


definition small_config :: "(ini_layout \<times> ini_item) list" where
  "small_config = map (Pair plain_layout) [Ini_Entry ''bind_iface'' ''wg0'', Ini_Entry ''num_queues'' ''1'',
     Ini_Entry ''allowed_remote_hosts'' ''::/1'']"

lemma small_config_lines: "\<forall>x \<in> set small_config. line_ok x"
  by code_simp

lemma small_config_parses:
  "\<exists>st w. ini_parse_file (Some (render_file small_config))
     (config_parse_event example_surroundings example_resolver)
     (start_state 4 (Some empty_list), start_world) = Inr (Parsed, st, w) \<and> length (made w) = 1"
proof -
  let ?kvs = "[(''bind_iface'', ''wg0''), (''num_queues'', ''1''), (''allowed_remote_hosts'', ''::/1'')]"
  let ?sw = "(start_state 4 (Some empty_list), start_world)"
  have events: "concat (map (\<lambda>x. item_events (snd x)) small_config) = config_events ?kvs []" by code_simp
  have "(case read_config example_surroundings example_resolver ?kvs [] ?sw of
      Inr (ok, st, w) \<Rightarrow> ok \<and> length (made w) = 1 | _ \<Rightarrow> False)" by code_simp
  then obtain st w where "read_config example_surroundings example_resolver ?kvs [] ?sw = Inr (True, st, w)"
      "length (made w) = 1"
    by (auto split: sum.splits)
  with ini_parse_rendered [OF small_config_lines, of "config_parse_event example_surroundings example_resolver" ?sw]
    deliver_config [of ?sw "[]" example_surroundings example_resolver ?kvs] events
  show ?thesis by (auto simp: start_state_def)
qed


text \<open>
  C22. The value of \<^verbatim>\<open>default_endpoint\<close> is cut at its first colon: what is before is the host, what is
  after is read as the port. A host that contains a colon, as a literal IPv6 address does, cannot
  be given; a host without one and a printed port are read back.
\<close>

theorem default_endpoint_is_cut_at_first_colon:
  assumes "CHR '':'' \<notin> set host" and "0 \<le> ret (K h Sys_alloc)"
  shows "(\<exists>h'. set_key K ''default_endpoint'' (host @ '':'' @ rest) ps h =
      Inr ((True, ps\<lparr>default_remote_host := Some host, default_remote_port := atoi rest\<rparr>), h')) \<and>
    (\<forall>port. rest = show_nat port \<longrightarrow> port < 2 ^ 31 \<longrightarrow> atoi rest = int port)"
proof
  have "strchr (host @ '':'' @ rest) CHR '':'' = Some (length host)"
    using assms(1) strchr_append [of "CHR '':''" host "'':'' @ rest"] by simp
  then show "\<exists>h'. set_key K ''default_endpoint'' (host @ '':'' @ rest) ps h =
      Inr ((True, ps\<lparr>default_remote_host := Some host, default_remote_port := atoi rest\<rparr>), h')"
    using assms(2) by (simp add: set_key_def set_default_endpoint_def must_dup_def alloc_def sys_def)
  show "\<forall>port. rest = show_nat port \<longrightarrow> port < 2 ^ 31 \<longrightarrow> atoi rest = int port"
    using atoi_show_nat [of _ "[]"] by simp
qed

theorem default_endpoint_is_cut_at_first_colon_witness:
  "(\<exists>h'. set_key kind_kernel ''default_endpoint'' ''fe80::1:1234'' zero_params [] =
      Inr ((True, zero_params\<lparr>default_remote_host := Some ''fe80'', default_remote_port := 0\<rparr>), h')) \<and>
   atoi ''1234'' = 1234"
proof -
  have mem: "0 \<le> ret (kind_kernel [] Sys_alloc)" by (simp add: kind_kernel_def reply_ok_def)
  have port: "atoi '':1:1234'' = 0" "show_nat 1234 = ''1234''" by code_simp+
  have host: "CHR '':'' \<notin> set ''fe80''" by simp
  note c = default_endpoint_is_cut_at_first_colon [where K = kind_kernel, OF host mem]
  have "atoi ''1234'' = int 1234"
    by (rule c [of "''1234''" zero_params, THEN conjunct2, rule_format])
      (simp_all only: port(2), simp)
  with c [of "'':1:1234''" zero_params] port(1) show ?thesis by simp
qed



end
