(* ===== verification/Net_Properties.thy ===== *)
theory Net_Properties
  imports Net
begin

text \<open>
  The properties of \<^verbatim>\<open>src/src/net.c\<close>, with concrete runs under a kernel that answers every call
  with success.
\<close>

section \<open>A run\<close>

text \<open>A kernel whose \<^verbatim>\<open>/proc/net/dev\<close> lists the devices of \<open>ls\<close>.\<close>

definition listing_kernel :: "string list \<Rightarrow> kernel" where
  "listing_kernel ls h c =
     (if opens_fd c then reply_ok\<lparr>ret := opened h + 1\<rparr>
      else reply_ok\<lparr>r_contents := concat (map (\<lambda>l. l @ [CHR 0x0A]) ls)\<rparr>)"

lemma fresh_listing_kernel: "fresh_fds (listing_kernel ls)"
  by (rule fresh_fdsI) (simp add: listing_kernel_def)

definition example_devs :: "string list" where
  "example_devs = [dev_line 4 ''lo'' ''  12 3'', dev_line 2 ''tap7'' '' 0 0'', dev_line 0 ''wg0'' '' 5'']"

definition example_tap :: "((bool \<times> int list \<times> string) \<times> history) res" where
  "example_tap = net_create_tap_mq_fds (listing_kernel example_devs) None 2 1400 (Some ''br0'') [] []"

lemma example_tap_run:
  "\<exists>h. example_tap = Inr ((True, [3, 4], ''tap8''), h)"
proof -
  have "(case example_tap of Inr ((ok, fds, name), h) \<Rightarrow> ok \<and> fds = [3, 4] \<and> name = ''tap8'' | _ \<Rightarrow> False)"
    by code_simp
  then show ?thesis by (auto split: sum.splits prod.splits)
qed

section \<open>Properties\<close>

text \<open>
  C19. Creating a TAP device accounts for its descriptors: on success there is one new open
  descriptor for every queue, each attached to the device of the name returned; on every failure,
  after whichever call, exactly the descriptors open before are open.
\<close>

theorem tap_creation_accounts_for_descriptors:
  assumes "fresh_fds K"
    and "net_create_tap_mq_fds K base queues mtu bridge resolved h = Inr ((ok, fds, name), h')"
  shows "if ok then length fds = queues \<and> distinct fds \<and> set fds \<inter> open_fds h = {} \<and>
      (\<forall>fd \<in> set fds. done_ok (Sys_ioctl fd (TUNSETIFF name)) h') \<and>
      open_fds h' = open_fds h \<union> set fds
    else open_fds h' = open_fds h"
  using net_create_tap_outcome [OF assms] by auto

theorem tap_creation_accounts_for_descriptors_witness:
  "\<exists>h. example_tap = Inr ((True, [3, 4], ''tap8''), h) \<and> open_fds h = {3, 4} \<and>
     done_ok (Sys_ioctl 4 (TUNSETIFF ''tap8'')) h"
proof -
  obtain h where run: "example_tap = Inr ((True, [3, 4], ''tap8''), h)"
    using example_tap_run by blast
  from tap_creation_accounts_for_descriptors
    [OF fresh_listing_kernel run [unfolded example_tap_def]] run
  show ?thesis by (auto simp: fds)
qed

text \<open>
  C36. A device that is created successfully is configured: the MTU is set if one is given, the
  device with the index found is in the bridge, and the flags are set up. All of it is asked for
  by the first 14 characters of the name, so for a device with a name of 15 characters another
  one is meant.
\<close>

theorem created_tap_is_configured:
  assumes "fresh_fds K"
    and "net_create_tap_mq_fds K base queues mtu bridge resolved h = Inr ((True, fds, name), h')"
  shows "\<exists>ctl. tap_configured (take 14 name) mtu bridge ctl h'"
  using net_create_tap_outcome(1) [OF assms] by simp

theorem created_tap_is_configured_witness:
  "\<exists>h ctl. example_tap = Inr ((True, [3, 4], ''tap8''), h) \<and>
     done_ok (Sys_ioctl ctl (SIOCSIFMTU ''tap8'' 1400)) h"
proof -
  obtain h where run: "example_tap = Inr ((True, [3, 4], ''tap8''), h)"
    using example_tap_run by blast
  from created_tap_is_configured [OF fresh_listing_kernel run [unfolded example_tap_def]] run
  show ?thesis by (auto simp: tap_configured_def)
qed

text \<open>
  C35. The name chosen for a new device is the name of no interface that \<^verbatim>\<open>/proc/net/dev\<close> lists, for
  a base name without spaces and lines that fit the buffer.
\<close>

theorem chosen_tap_name_is_free:
  assumes "net_create_tap_mq_fds K base queues mtu bridge resolved h = Inr ((True, fds, name), h')"
    and "dev = (case base of Some d \<Rightarrow> d | None \<Rightarrow> ''tap'')"
      "dev \<noteq> []" "CHR '' '' \<notin> set dev" "CHR 0x00 \<notin> set dev"
    and "0 \<le> ret (K h (Sys_fopen ''/proc/net/dev''))"
      "r_contents (K h (Sys_fopen ''/proc/net/dev'')) = concat (map (\<lambda>l. l @ [CHR 0x0A]) ls)"
    and "\<forall>l \<in> set ls. CHR 0x0A \<notin> set l \<and> length l < 255"
    and "dev_line k iface counters \<in> set ls"
  shows "iface \<noteq> name"
  by (rule chosen_name_is_new [OF assms(1-5) refl assms(6-9)])

theorem chosen_tap_name_is_free_witness:
  "\<exists>fds name h. example_tap = Inr ((True, fds, name), h) \<and> name \<noteq> ''tap7''"
proof -
  obtain fds name h where run: "example_tap = Inr ((True, fds, name), h)"
    using example_tap_run by blast
  have reply: "0 \<le> ret (listing_kernel example_devs [] (Sys_fopen ''/proc/net/dev''))"
      "r_contents (listing_kernel example_devs [] (Sys_fopen ''/proc/net/dev'')) =
         concat (map (\<lambda>l. l @ [CHR 0x0A]) example_devs)"
    by (simp_all add: listing_kernel_def reply_ok_def)
  have lines: "\<forall>l \<in> set example_devs. CHR 0x0A \<notin> set l \<and> length l < 255"
    and "dev_line 2 ''tap7'' '' 0 0'' \<in> set example_devs"
    by code_simp+
  from chosen_tap_name_is_free [OF run [unfolded example_tap_def] refl _ _ _ reply this] run
  show ?thesis by auto
qed

definition example_udp :: "((bool \<times> int list \<times> int) \<times> history) res" where
  "example_udp = net_create_udp_sock_fds kind_kernel (Some ''wg0'') 1234 2 [0, 0] 0 []"

text \<open>
  C37. Creating the UDP sockets: whatever the outcome, the descriptors left open are exactly the
  positive ones in the array, which \<^verbatim>\<open>tunnel_delete\<close> closes, and none was open before; on success
  every queue has one of its own, bound to one address and the port in network order.
\<close>

theorem udp_creation_accounts_for_descriptors:
  assumes "fresh_fds K" and "n \<le> length fds" and "\<forall>fd \<in> set fds. fd = 0"
    and "net_create_udp_sock_fds K (Some iface) port n fds if_mtu h = Inr ((ok, fds', mtu), h')"
  shows "length fds' = length fds \<and> open_fds h' = open_fds h \<union> {fd \<in> set fds'. 0 < fd} \<and>
    {fd \<in> set fds'. 0 < fd} \<inter> open_fds h = {} \<and>
    (ok \<longrightarrow> (\<forall>i < n. 0 < fds' ! i) \<and> distinct (take n fds') \<and>
       (\<exists>addr. \<forall>i < n. done_ok (Sys_bind (fds' ! i) addr (htons_int port)) h'))"
  using net_create_udp_outcome [OF assms] by blast

theorem udp_creation_accounts_for_descriptors_witness:
  "\<exists>h. example_udp = Inr ((True, [4, 5], 1500), h) \<and> open_fds h = {4, 5}"
proof -
  have "(case example_udp of Inr ((ok, fds, m), h) \<Rightarrow> ok \<and> fds = [4, 5] \<and> m = 1500 | _ \<Rightarrow> False)"
    by code_simp
  then obtain h where run: "example_udp = Inr ((True, [4, 5], 1500), h)"
    by (auto split: sum.splits prod.splits)
  have "open_fds h = open_fds [] \<union> {fd \<in> set [4, 5]. 0 < fd}"
    using udp_creation_accounts_for_descriptors
      [OF fresh_kind_kernel _ _ run [unfolded example_udp_def]] by simp
  with run show ?thesis by (auto simp: fds)
qed

end
