(* ===== verification/Switching.thy ===== *)
theory Switching
  imports Worker_Properties
begin

text \<open>
  Whole batches of events of a worker (\<^verbatim>\<open>worker_thread\<close> of \<^verbatim>\<open>src/src/tunnel.c\<close>) against a reference: a
  plain switch that sends the frames of a device to its endpoint and a datagram to the device of its
  sender. With known senders a worker does exactly what the switch does; with any senders, nothing
  goes elsewhere.
\<close>

section \<open>The switch\<close>

fun datagrams_of :: "udp_input list \<Rightarrow> datagram list" where
  "datagrams_of (Datagram d # is) = d # datagrams_of is"
| "datagrams_of (Recv_Error # is) = []"
| "datagrams_of [] = []"

definition sends :: "tunnel \<Rightarrow> nat \<Rightarrow> int \<Rightarrow> u8 list \<Rightarrow> call" where
  "sends t q v f = Sys_sendto (udp_fds t ! q) (take (buf_size t) f)
     (fst (dev_key (devs t ! nat v))) (snd (dev_key (devs t ! nat v)))"

definition deliveries :: "tunnel \<Rightarrow> nat \<Rightarrow> datagram \<Rightarrow> call list" where
  "deliveries t q d =
     (if from_family d \<noteq> AF_INET6 then []
      else case map_of (map dev_route (devs t)) (from_addr d, from_port d) of
        Some (Live fds) \<Rightarrow> [Sys_write (fds ! q) (take (buf_size t) (payload d))]
      | _ \<Rightarrow> [])"

definition switched :: "tunnel \<Rightarrow> nat \<Rightarrow> event \<Rightarrow> call list" where
  "switched t q ev =
     (if ev_is_tap (ev_data ev) then map (sends t q (ev_tap_id (ev_data ev))) (frames_of (ev_tap ev))
      else concat (map (deliveries t q) (datagrams_of (ev_udp ev))))"

text \<open>The events of TAP devices belong to devices that are there; all senders are known.\<close>

definition tap_event_ok :: "tunnel \<Rightarrow> event \<Rightarrow> bool" where
  "tap_event_ok t ev \<longleftrightarrow> ev_is_tap (ev_data ev) \<longrightarrow>
     0 \<le> ev_tap_id (ev_data ev) \<and> nat (ev_tap_id (ev_data ev)) < length (devs t)"

definition known :: "tunnel \<Rightarrow> datagram \<Rightarrow> bool" where
  "known t d \<longleftrightarrow> from_family d \<noteq> AF_INET6 \<or> (from_addr d, from_port d) \<in> set (map dev_key (devs t))"

definition event_known :: "tunnel \<Rightarrow> event \<Rightarrow> bool" where
  "event_known t ev \<longleftrightarrow> tap_event_ok t ev \<and>
     (\<not> ev_is_tap (ev_data ev) \<longrightarrow> list_all (known t) (datagrams_of (ev_udp ev)))"

section \<open>The switch of a tunnel that grows\<close>

lemma extends_route:
  assumes "extends t t'" "k \<in> set (map dev_key (devs t))"
  shows "map_of (map dev_route (devs t')) k = map_of (map dev_route (devs t)) k"
proof -
  obtain ks where "map dev_route (devs t') = map dev_route (devs t) @ ks"
    using assms(1) by (auto simp: extends_def)
  moreover have "map_of (map dev_route (devs t)) k \<noteq> None"
    using assms(2) by (auto simp: map_of_eq_None_iff image_image)
  ultimately show ?thesis by (auto simp: map_add_def split: option.split)
qed

lemma extends_sends:
  assumes "extends t t'" "nat v < length (devs t)"
  shows "sends t' q v f = sends t q v f"
proof -
  have "udp_fds t' = udp_fds t" using assms(1) by (simp add: extends_def)
  with extends_nth [OF assms] extends_buf_size [OF assms(1)] show ?thesis by (simp add: sends_def)
qed

lemma extends_deliveries:
  assumes "extends t t'" "known t d"
  shows "deliveries t' q d = deliveries t q d"
  unfolding deliveries_def extends_buf_size [OF assms(1)]
  using assms(2) extends_route [OF assms(1)] by (auto simp: known_def)

lemma extends_switched:
  assumes "extends t t'" "event_known t ev"
  shows "switched t' q ev = switched t q ev"
proof (cases "ev_is_tap (ev_data ev)")
  case True
  with extends_sends [OF assms(1)] assms(2) show ?thesis
    by (simp add: switched_def event_known_def tap_event_ok_def)
next
  case False
  have "map (deliveries t' q) (datagrams_of (ev_udp ev)) = map (deliveries t q) (datagrams_of (ev_udp ev))"
    using assms(2) False extends_deliveries [OF assms(1)] by (simp add: event_known_def list_all_iff)
  then show ?thesis by (simp only: switched_def False if_False)
qed

lemma extends_tap_ok: "extends t t' \<Longrightarrow> tap_event_ok t ev \<Longrightarrow> tap_event_ok t' ev"
  using extends_nth [of t t' "nat (ev_tap_id (ev_data ev))"] by (simp add: tap_event_ok_def)

lemma extends_known:
  assumes "extends t t'" "known t d"
  shows "known t' d"
proof -
  obtain ks where "map dev_route (devs t') = map dev_route (devs t) @ ks"
    using assms(1) by (auto simp: extends_def)
  from arg_cong [OF this, of "map fst"] have "map dev_key (devs t') = map dev_key (devs t) @ map fst ks"
    by (simp add: comp_def)
  with assms(2) show ?thesis by (auto simp: known_def simp del: set_map)
qed

lemma extends_event_known: "extends t t' \<Longrightarrow> event_known t ev \<Longrightarrow> event_known t' ev"
  by (auto simp: event_known_def extends_tap_ok list_all_iff intro: extends_known)

section \<open>Known senders\<close>

text \<open>A run that moves exactly the frames \<open>cs\<close> and changes no routing.\<close>

definition moves :: "worker \<Rightarrow> worker \<Rightarrow> call list \<Rightarrow> bool" where
  "moves s s' cs \<longleftrightarrow> (\<exists>es. traffic (w_history s') = traffic (w_history s) @ es \<and> map fst es = cs) \<and>
     t_full (w_tunnel s') \<and> routing (w_tunnel s') = routing (w_tunnel s) \<and> w_lock s' = w_lock s"

lemma moves_refl: "t_full (w_tunnel s) \<Longrightarrow> moves s s []"
  by (simp add: moves_def)

lemma moves_trans: "moves s s1 as \<Longrightarrow> moves s1 s2 bs \<Longrightarrow> moves s s2 (as @ bs)"
  by (auto simp: moves_def)

lemma movesD:
  assumes "moves s s' cs"
  shows "t_full (w_tunnel s')" "extends (w_tunnel s) (w_tunnel s')"
    "num_queues (w_tunnel s') = num_queues (w_tunnel s)"
  using assms by (auto simp: moves_def intro: routing_extends routingD)

lemma packet_known:
  assumes full: "t_full (w_tunnel s)" and q: "q < num_queues (w_tunnel s)" and kn: "known (w_tunnel s) d"
  shows "\<exists>s'. udp_packet E q d s = Inr s' \<and> moves s s' (deliveries (w_tunnel s) q d)"
proof (cases "from_family d = AF_INET6")
  case False
  with moves_refl [OF full] show ?thesis by (simp add: udp_packet_def deliveries_def Let_def)
next
  case fam: True
  let ?t = "w_tunnel s" and ?k = "(from_addr d, from_port d)"
  obtain m where m: "tun_map ?t = Live m" using full by (rule t_full_map)
  have wf: "t_wf ?t" using full by (simp add: t_full_def)
  have "?k \<in> set (map dev_key (devs ?t))" using kn fam by (simp add: known_def)
  then obtain i where i: "i < length (devs ?t)" "dev_key (devs ?t ! i) = ?k"
    by (auto simp: in_set_conv_nth)
  with full m have abs: "em_abs m ?k = Some (int i)" by (auto simp: t_full_def)
  obtain s' fs r where run: "udp_packet E q d s = Inr s'" "tap_fds (devs ?t ! i) = Live fs"
      "traffic (w_history s') = traffic (w_history s) @
        [(Sys_write (fs ! q) (take (buf_size ?t) (payload d)), r)]"
      "t_wf (w_tunnel s')" "routing (w_tunnel s') = routing ?t" "w_lock s' = w_lock s"
    using udp_known [OF wf m abs q fam, of E] by auto
  have keys: "map fst (map dev_route (devs ?t)) = map dev_key (devs ?t)" by (simp add: comp_def)
  have "distinct (map fst (map dev_route (devs ?t)))"
    unfolding keys by (rule full_distinct [OF full])
  moreover have "dev_route (devs ?t ! i) \<in> set (map dev_route (devs ?t))"
    using i(1) by (metis (no_types, lifting) length_map nth_map nth_mem)
  ultimately have "map_of (map dev_route (devs ?t)) ?k = Some (Live fs)"
    using i(2) run(2) by (intro map_of_is_SomeI) simp_all
  then have "deliveries ?t q d = [Sys_write (fs ! q) (take (buf_size ?t) (payload d))]"
    using fam by (simp add: deliveries_def)
  with run routing_full(1) [OF full run(4,5)] show ?thesis by (simp add: moves_def)
qed

lemma loop_known:
  assumes "t_full (w_tunnel s)" "q < num_queues (w_tunnel s)" "list_all (known (w_tunnel s)) (datagrams_of is)"
  shows "\<exists>s'. udp_loop E q is s = Inr s' \<and> moves s s' (concat (map (deliveries (w_tunnel s) q) (datagrams_of is)))"
  using assms
proof (induction "is" arbitrary: s rule: datagrams_of.induct)
  case (1 d "is")
  obtain s1 where s1: "udp_packet E q d s = Inr s1" "moves s s1 (deliveries (w_tunnel s) q d)"
    using packet_known [OF 1(2,3)] 1(4) by fastforce
  note r = movesD [OF s1(2)]
  have all: "list_all (known (w_tunnel s1)) (datagrams_of is)"
    using 1(4) extends_known [OF r(2)] by (simp add: list_all_iff)
  have same: "map (deliveries (w_tunnel s1) q) (datagrams_of is) = map (deliveries (w_tunnel s) q) (datagrams_of is)"
    using 1(4) extends_deliveries [OF r(2)] by (simp add: list_all_iff)
  obtain s2 where "udp_loop E q is s1 = Inr s2"
      "moves s1 s2 (concat (map (deliveries (w_tunnel s1) q) (datagrams_of is)))"
    using "1.IH" [of s1] r all 1(3) by auto
  with s1 moves_trans [OF s1(2)] show ?case by (auto simp: same)
qed (simp_all add: moves_refl)

lemma taps_run:
  assumes full: "t_full (w_tunnel s)" and q: "q < num_queues (w_tunnel s)"
    and v: "0 \<le> v" "nat v < length (devs (w_tunnel s))"
  shows "\<exists>s'. tap_loop E q v is s = Inr s' \<and> moves s s' (map (sends (w_tunnel s) q v) (frames_of is))"
proof -
  have wf: "t_wf (w_tunnel s)" "devs_wf (w_tunnel s)" using full by (simp_all add: t_full_def t_wf_def)
  have v': "nat v < num_tap_devs (w_tunnel s)" using v(2) devs_wfD(6) [OF wf(2)] by simp
  obtain ss where "stats (devs (w_tunnel s) ! nat v) = Live ss"
    using dev_queue_ok [OF wf(2) v(1) v' q] by metis
  from tap_loop_ok [OF wf(1) v(1) v' q this, of E "is"] routing_full(1) [OF full] show ?thesis
    unfolding moves_def sends_def dev_key_def fst_conv snd_conv by blast
qed

lemma event_run:
  assumes full: "t_full (w_tunnel s)" and q: "q < num_queues (w_tunnel s)"
    and loop: "(if ev_is_tap (ev_data ev) then tap_loop E q (ev_tap_id (ev_data ev)) (ev_tap ev) s
      else udp_loop E q (ev_udp ev) s) = Inr s1"
  obtains ok s2 where "worker_event E q ev s = Inr (ok, s2)" "w_tunnel s2 = w_tunnel s1"
    "w_lock s2 = w_lock s1" "traffic (w_history s2) = traffic (w_history s1)"
    "\<forall>h ep fd v. 0 \<le> ret (kern E h (Sys_epoll_mod ep fd v)) \<Longrightarrow> ok"
proof -
  let ?c = "Sys_epoll_mod (epoll_fds (w_tunnel s) ! q) (ev_fd (ev_data ev)) (ev_data ev)"
  let ?r = "kern E (w_history s1) ?c"
  have "length (epoll_fds (w_tunnel s)) = num_queues (w_tunnel s)"
    using full devs_wfD(4) by (auto simp: t_full_def t_wf_def)
  with q loop have "worker_event E q ev s = Inr (0 \<le> ret ?r, s1\<lparr>w_history := w_history s1 @ [(?c, ?r)]\<rparr>)"
    by (simp add: worker_event_def wsys_def sys_def Let_def not_less)
  then show thesis by (rule that) (simp_all add: traffic_append)
qed

lemma event_known_run:
  assumes full: "t_full (w_tunnel s)" and q: "q < num_queues (w_tunnel s)"
    and ev: "event_known (w_tunnel s) ev" and arm: "\<forall>h ep fd v. 0 \<le> ret (kern E h (Sys_epoll_mod ep fd v))"
  shows "\<exists>s'. worker_event E q ev s = Inr (True, s') \<and> moves s s' (switched (w_tunnel s) q ev)"
proof -
  let ?loop = "if ev_is_tap (ev_data ev) then tap_loop E q (ev_tap_id (ev_data ev)) (ev_tap ev) s
      else udp_loop E q (ev_udp ev) s"
  obtain s1 where s1: "?loop = Inr s1" "moves s s1 (switched (w_tunnel s) q ev)"
  proof (cases "ev_is_tap (ev_data ev)")
    case True
    with taps_run [OF full q, of "ev_tap_id (ev_data ev)" E "ev_tap ev"] ev that show thesis
      by (auto simp: event_known_def tap_event_ok_def switched_def)
  next
    case False
    with loop_known [OF full q, of "ev_udp ev" E] ev that show thesis
      by (auto simp: event_known_def switched_def)
  qed
  obtain ok s2 where "worker_event E q ev s = Inr (ok, s2)" "w_tunnel s2 = w_tunnel s1"
      "w_lock s2 = w_lock s1" "traffic (w_history s2) = traffic (w_history s1)" ok
    using event_run [OF full q s1(1)] arm by metis
  with s1(2) show ?thesis by (simp add: moves_def)
qed

lemma events_known_run:
  assumes "t_full (w_tunnel s)" "q < num_queues (w_tunnel s)" "list_all (event_known (w_tunnel s)) evs"
    and arm: "\<forall>h ep fd v. 0 \<le> ret (kern E h (Sys_epoll_mod ep fd v))"
  shows "\<exists>s'. worker_events E q evs s = Inr s' \<and> moves s s' (concat (map (switched (w_tunnel s) q) evs))"
  using assms(1-3)
proof (induction evs arbitrary: s)
  case Nil
  then show ?case by (simp add: moves_refl)
next
  case (Cons ev evs)
  obtain s1 where s1: "worker_event E q ev s = Inr (True, s1)" "moves s s1 (switched (w_tunnel s) q ev)"
    using event_known_run [OF Cons.prems(1,2) _ arm] Cons.prems(3) by fastforce
  note r = movesD [OF s1(2)]
  have all: "list_all (event_known (w_tunnel s1)) evs"
    using Cons.prems(3) extends_event_known [OF r(2)] by (simp add: list_all_iff)
  have same: "map (switched (w_tunnel s1) q) evs = map (switched (w_tunnel s) q) evs"
    using Cons.prems(3) extends_switched [OF r(2)] by (simp add: list_all_iff)
  obtain s2 where "worker_events E q evs s1 = Inr s2" "moves s1 s2 (concat (map (switched (w_tunnel s1) q) evs))"
    using Cons.IH [of s1] r all Cons.prems(2) by auto
  with s1 moves_trans [OF s1(2)] show ?case by (auto simp: same)
qed

text \<open>Between batches the lock is free, so there the tunnel may grow.\<close>

lemma batches_known_run:
  assumes "t_full (w_tunnel s)" "q < num_queues (w_tunnel s)"
    and "list_all (list_all (event_known (w_tunnel s))) batches"
    and oth: "others_ok E" and arm: "\<forall>h ep fd v. 0 \<le> ret (kern E h (Sys_epoll_mod ep fd v))"
  shows "\<exists>s' es. worker_thread E q batches s = Inr s' \<and>
    traffic (w_history s') = traffic (w_history s) @ es \<and>
    map fst es = concat (map (switched (w_tunnel s) q) (concat batches)) \<and>
    t_full (w_tunnel s') \<and> extends (w_tunnel s) (w_tunnel s')"
  using assms(1-3)
proof (induction batches arbitrary: s)
  case Nil
  then show ?case by simp
next
  case (Cons evs batches)
  let ?s = "unlock_lock E Read_Locked s"
  note o = others_okD [OF oth Cons.prems(1), of Read_Locked]
  have "q < num_queues (w_tunnel ?s)" "list_all (event_known (w_tunnel ?s)) evs"
    using Cons.prems o(2) extends_event_known [OF o(2)] by (auto simp: list_all_iff extends_def)
  from events_known_run [OF o(1) this arm] obtain s1 where
    s1: "worker_events E q evs ?s = Inr s1" "moves ?s s1 (concat (map (switched (w_tunnel ?s) q) evs))" by blast
  let ?s1 = "s1\<lparr>w_lock := Unlocked\<rparr>"
  have ext: "extends (w_tunnel s) (w_tunnel ?s1)"
    using extends_trans [OF o(2) movesD(2) [OF s1(2)]] by simp
  have same: "map (switched t q) evs' = map (switched (w_tunnel s) q) evs'"
    if "extends (w_tunnel s) t" "list_all (event_known (w_tunnel s)) evs'" for t evs'
    using that(2) extends_switched [OF that(1)] by (simp add: list_all_iff)
  have "t_full (w_tunnel ?s1)" using movesD(1) [OF s1(2)] by simp
  moreover have "q < num_queues (w_tunnel ?s1)" using Cons.prems(2) ext by (simp add: extends_def)
  moreover have "list_all (list_all (event_known (w_tunnel ?s1))) batches"
    using Cons.prems(3) extends_event_known [OF ext] by (auto simp: list_all_iff)
  ultimately obtain s' es where
    s': "worker_thread E q batches ?s1 = Inr s'" "traffic (w_history s') = traffic (w_history ?s1) @ es"
      "map fst es = concat (map (switched (w_tunnel ?s1) q) (concat batches))"
      "t_full (w_tunnel s')" "extends (w_tunnel ?s1) (w_tunnel s')"
    using Cons.IH by blast
  obtain es1 where es1: "traffic (w_history s1) = traffic (w_history s) @ es1"
      "map fst es1 = concat (map (switched (w_tunnel ?s) q) evs)"
    using s1(2) by (auto simp: moves_def unlock_lock_def)
  have kn: "list_all (event_known (w_tunnel s)) (concat batches)" "list_all (event_known (w_tunnel s)) evs"
    using Cons.prems(3) by (auto simp: list_all_iff)
  have "map fst (es1 @ es) = concat (map (switched (w_tunnel s) q) (concat (evs # batches)))"
    unfolding map_append es1(2) s'(3) same [OF ext kn(1)] same [OF o(2) kn(2)] by simp
  moreover have "worker_thread E q (evs # batches) s = Inr s'"
    using s1(1) s'(1) by (simp add: worker_batch_def)
  ultimately show ?case
    using s'(2,4) es1(1) extends_trans [OF ext s'(5)]
    by (intro exI [of _ s'] exI [of _ "es1 @ es"]) simp
qed

section \<open>Any senders\<close>

text \<open>A frame that an event accounts for.\<close>

definition event_call :: "tunnel \<Rightarrow> nat \<Rightarrow> event \<Rightarrow> call \<Rightarrow> bool" where
  "event_call t q ev c \<longleftrightarrow>
     (if ev_is_tap (ev_data ev) then \<exists>f \<in> set (frames_of (ev_tap ev)). c = sends t q (ev_tap_id (ev_data ev)) f
      else \<exists>d \<in> set (datagrams_of (ev_udp ev)). to_sender t q d c)"

text \<open>A run in which the tunnel may grow by \<open>k\<close> devices and all frames moved satisfy \<open>P\<close>.\<close>

definition serves :: "nat \<Rightarrow> (tunnel \<Rightarrow> call \<Rightarrow> bool) \<Rightarrow> worker \<Rightarrow> worker \<Rightarrow> bool" where
  "serves k P s s' \<longleftrightarrow> t_full (w_tunnel s') \<and> extends (w_tunnel s) (w_tunnel s') \<and>
     length (devs (w_tunnel s')) \<le> length (devs (w_tunnel s)) + k \<and>
     (\<exists>es. traffic (w_history s') = traffic (w_history s) @ es \<and> (\<forall>e \<in> set es. P (w_tunnel s') (fst e)))"

definition stable :: "(tunnel \<Rightarrow> call \<Rightarrow> bool) \<Rightarrow> bool" where
  "stable P \<longleftrightarrow> (\<forall>t t' c. extends t t' \<longrightarrow> P t c \<longrightarrow> P t' c)"

lemma servesD:
  assumes "serves k P s s'"
  shows "t_full (w_tunnel s')" "extends (w_tunnel s) (w_tunnel s')"
    "num_queues (w_tunnel s') = num_queues (w_tunnel s)"
    "length (devs (w_tunnel s')) \<le> length (devs (w_tunnel s)) + k"
  using assms by (auto simp: serves_def extends_def)

lemma serves_refl: "t_full (w_tunnel s) \<Longrightarrow> serves k P s s"
  by (simp add: serves_def)

lemma serves_mono: "serves k P s s' \<Longrightarrow> k \<le> k' \<Longrightarrow> (\<And>t c. P t c \<Longrightarrow> Q t c) \<Longrightarrow> serves k' Q s s'"
  unfolding serves_def by fastforce

lemma serves_trans:
  assumes one: "serves j P s s1" and two: "serves k P s1 s2" and P: "stable P"
  shows "serves (j + k) P s s2"
proof -
  obtain es fs where es: "traffic (w_history s1) = traffic (w_history s) @ es"
      "\<forall>e \<in> set es. P (w_tunnel s1) (fst e)"
    and fs: "traffic (w_history s2) = traffic (w_history s1) @ fs" "\<forall>e \<in> set fs. P (w_tunnel s2) (fst e)"
    using one two by (auto simp: serves_def)
  note D = servesD [OF one] servesD [OF two]
  have "\<forall>e \<in> set (es @ fs). P (w_tunnel s2) (fst e)"
    using es(2) fs(2) P D(6) by (auto simp: stable_def)
  with es(1) fs(1) D extends_trans [OF D(2,6)] show ?thesis
    by (auto simp: serves_def intro!: exI [of _ "es @ fs"])
qed

lemma stable_to_sender: "stable (\<lambda>t c. \<exists>d \<in> A. to_sender t q d c)"
  unfolding stable_def by (blast intro: to_sender_mono)

lemma packet_serves:
  assumes fresh: "fresh_fds (kern E)" and place: "in_place E" and oth: "others_ok E" "others_add E n"
    and full: "t_full (w_tunnel s)" and q: "q < num_queues (w_tunnel s)"
    and room: "length (devs (w_tunnel s)) + (2 * n + 1) < 2 ^ 30"
    and res: "udp_packet E q d s = Inr s'"
  shows "serves (2 * n + 1) (\<lambda>t c. to_sender t q d c) s s'"
proof -
  have "t_full (others E (w_history s) (w_tunnel s))" using oth(1) full by (simp add: others_ok_def)
  then have "num_tap_devs (others E (w_history s) (w_tunnel s)) = length (devs (others E (w_history s) (w_tunnel s)))"
    using devs_wfD(6) by (auto simp: t_full_def t_wf_def)
  moreover have "length (devs (others E (w_history s) (w_tunnel s))) \<le> length (devs (w_tunnel s)) + n"
    using oth(2) full by (simp add: others_add_def)
  ultimately have "num_tap_devs (others E (w_history s) (w_tunnel s)) + 1 < 2 ^ 30" using room by simp
  from udp_packet_outcome [OF fresh place oth(1) full q this res] oth(2) show ?thesis
    by (fastforce simp: serves_def)
qed

lemma loop_serves:
  assumes env: "fresh_fds (kern E)" "in_place E" "others_ok E" "others_add E n"
    and "t_full (w_tunnel s)" "q < num_queues (w_tunnel s)"
    and "length (devs (w_tunnel s)) + (2 * n + 1) * length (datagrams_of is) < 2 ^ 30"
    and "udp_loop E q is s = Inr s'"
  shows "serves ((2 * n + 1) * length (datagrams_of is))
    (\<lambda>t c. \<exists>d \<in> set (datagrams_of is). to_sender t q d c) s s'"
  using assms(5-)
proof (induction "is" arbitrary: s rule: datagrams_of.induct)
  case (1 d "is")
  let ?P = "\<lambda>t c. \<exists>d' \<in> set (datagrams_of (Datagram d # is)). to_sender t q d' c"
  let ?n = "2 * n + 1"
  from 1(5) obtain s1 where s1: "udp_packet E q d s = Inr s1" "udp_loop E q is s1 = Inr s'" by auto
  have "length (devs (w_tunnel s)) + ?n < 2 ^ 30" using 1(4) by simp
  note one = packet_serves [OF env 1(2,3) this s1(1)]
  note D = servesD [OF one]
  have "length (devs (w_tunnel s1)) + ?n * length (datagrams_of is) < 2 ^ 30" using 1(4) D(4) by simp
  from "1.IH" [OF D(1) _ this s1(2)] 1(3) D(3)
  have "serves (?n * length (datagrams_of is)) (\<lambda>t c. \<exists>d \<in> set (datagrams_of is). to_sender t q d c) s1 s'" by simp
  then have two: "serves (?n * length (datagrams_of is)) ?P s1 s'" by (rule serves_mono) auto
  have "serves ?n ?P s s1" using one by (rule serves_mono) auto
  from serves_trans [OF this two stable_to_sender] show ?case by (simp add: algebra_simps)
qed (simp_all add: serves_refl)

lemma moves_serves:
  assumes "moves s s' cs" "\<And>c. c \<in> set cs \<Longrightarrow> P (w_tunnel s) c" "stable P"
  shows "serves k P s s'"
proof -
  obtain es where es: "traffic (w_history s') = traffic (w_history s) @ es" "map fst es = cs"
    using assms(1) by (auto simp: moves_def)
  have "P (w_tunnel s') (fst e)" if "e \<in> set es" for e
  proof -
    from that es(2) have "fst e \<in> set cs" by auto
    from assms(2) [OF this] assms(3) movesD(2) [OF assms(1)] show ?thesis unfolding stable_def by blast
  qed
  with es(1) movesD [OF assms(1)] routingD(7) [of "w_tunnel s'" "w_tunnel s"] assms(1) show ?thesis
    by (auto simp: serves_def moves_def)
qed

text \<open>The frames of an event go the same way when the tunnel has grown.\<close>

lemma event_call_mono:
  assumes "event_call t q ev c" "extends t t'" "tap_event_ok t ev"
  shows "event_call t' q ev c"
  using assms extends_sends [OF assms(2)]
  by (auto simp: event_call_def tap_event_ok_def intro: to_sender_mono split: if_splits)

definition batch_call :: "tunnel \<Rightarrow> nat \<Rightarrow> event list \<Rightarrow> tunnel \<Rightarrow> call \<Rightarrow> bool" where
  "batch_call t0 q evs t c \<longleftrightarrow> extends t0 t \<and> (\<exists>ev \<in> set evs. tap_event_ok t0 ev \<and> event_call t q ev c)"

lemma stable_batch_call: "stable (batch_call t0 q evs)"
  unfolding stable_def batch_call_def
  by (blast intro: extends_trans extends_tap_ok event_call_mono)

definition datagram_count :: "event list \<Rightarrow> nat" where
  "datagram_count evs = sum_list (map (\<lambda>ev. length (datagrams_of (ev_udp ev))) evs)"

lemma event_serves:
  assumes env: "fresh_fds (kern E)" "in_place E" "others_ok E" "others_add E n"
    and full: "t_full (w_tunnel s)" and q: "q < num_queues (w_tunnel s)" and ok: "tap_event_ok (w_tunnel s) ev"
    and room: "length (devs (w_tunnel s)) + (2 * n + 1) * length (datagrams_of (ev_udp ev)) < 2 ^ 30"
    and res: "worker_event E q ev s = Inr (b, s')"
  shows "serves ((2 * n + 1) * length (datagrams_of (ev_udp ev))) (batch_call (w_tunnel s) q [ev]) s s'"
proof -
  let ?k = "(2 * n + 1) * length (datagrams_of (ev_udp ev))" and ?P = "batch_call (w_tunnel s) q [ev]"
  let ?loop = "if ev_is_tap (ev_data ev) then tap_loop E q (ev_tap_id (ev_data ev)) (ev_tap ev) s
      else udp_loop E q (ev_udp ev) s"
  obtain s1 where s1: "?loop = Inr s1"
    using res by (cases ?loop) (auto simp: worker_event_def)
  have "serves ?k ?P s s1"
  proof (cases "ev_is_tap (ev_data ev)")
    case True
    with s1 taps_run [OF full q, of "ev_tap_id (ev_data ev)" E "ev_tap ev"] ok
    have "moves s s1 (map (sends (w_tunnel s) q (ev_tap_id (ev_data ev))) (frames_of (ev_tap ev)))"
      by (auto simp: tap_event_ok_def)
    then show ?thesis
      by (rule moves_serves [OF _ _ stable_batch_call]) (use True ok in \<open>auto simp: batch_call_def event_call_def\<close>)
  next
    case False
    with s1 have "udp_loop E q (ev_udp ev) s = Inr s1" by simp
    note L = loop_serves [OF env full q room this]
    have "serves ?k (\<lambda>t c. extends (w_tunnel s) t \<and> (\<exists>d \<in> set (datagrams_of (ev_udp ev)). to_sender t q d c)) s s1"
      using L by (simp add: serves_def)
    then show ?thesis
      by (rule serves_mono) (use False ok in \<open>auto simp: batch_call_def event_call_def\<close>)
  qed
  moreover obtain b' s2 where "worker_event E q ev s = Inr (b', s2)" "w_tunnel s2 = w_tunnel s1"
      "traffic (w_history s2) = traffic (w_history s1)"
    using event_run [OF full q s1] by metis
  ultimately show ?thesis using res by (simp add: serves_def)
qed

lemma events_serve:
  assumes env: "fresh_fds (kern E)" "in_place E" "others_ok E" "others_add E n"
    and "t_full (w_tunnel s)" "q < num_queues (w_tunnel s)"
    and "extends t0 (w_tunnel s)" "list_all (tap_event_ok t0) evs" "set evs \<subseteq> set all"
    and "length (devs (w_tunnel s)) + (2 * n + 1) * datagram_count evs < 2 ^ 30"
    and "worker_events E q evs s = Inr s'"
  shows "serves ((2 * n + 1) * datagram_count evs) (batch_call t0 q all) s s'"
  using assms(5-)
proof (induction evs arbitrary: s)
  case Nil
  then show ?case by (simp add: serves_refl)
next
  case (Cons ev evs)
  let ?n = "2 * n + 1" and ?P = "batch_call t0 q all"
  let ?k = "length (datagrams_of (ev_udp ev))"
  have count: "datagram_count (ev # evs) = ?k + datagram_count evs" by (simp add: datagram_count_def)
  obtain b s1 where s1: "worker_event E q ev s = Inr (b, s1)" "(if b then worker_events E q evs s1 else Inr s1) = Inr s'"
    using Cons.prems(7) by auto
  have ok: "tap_event_ok (w_tunnel s) ev" using Cons.prems(3,4) extends_tap_ok by auto
  have room: "length (devs (w_tunnel s)) + ?n * ?k < 2 ^ 30"
    using Cons.prems(6) by (simp add: count algebra_simps)
  have one: "serves (?n * ?k) ?P s s1"
    using event_serves [OF env Cons.prems(1,2) ok room s1(1)]
    by (rule serves_mono) (use Cons.prems(3-5) extends_trans [OF Cons.prems(3)] in \<open>auto simp: batch_call_def\<close>)
  note D = servesD [OF one]
  have "serves (?n * datagram_count evs) ?P s1 s'"
  proof (cases b)
    case True
    have "length (devs (w_tunnel s1)) + ?n * datagram_count evs < 2 ^ 30"
      using Cons.prems(6) D(4) by (simp add: count algebra_simps)
    with Cons.IH [of s1] Cons.prems D extends_trans [OF Cons.prems(3) D(2)] s1(2) True show ?thesis by simp
  next
    case False
    with s1(2) D(1) show ?thesis by (simp add: serves_refl)
  qed
  from serves_trans [OF one this stable_batch_call] show ?case by (simp add: count distrib_left)
qed

lemma batch_serves:
  assumes env: "fresh_fds (kern E)" "in_place E" "others_ok E" "others_add E n"
    and full: "t_full (w_tunnel s)" and q: "q < num_queues (w_tunnel s)"
    and ok: "list_all (tap_event_ok (w_tunnel s)) evs"
    and room: "length (devs (w_tunnel s)) + (n + (2 * n + 1) * datagram_count evs) < 2 ^ 30"
    and res: "worker_batch E q evs s = Inr s'"
  shows "serves (n + (2 * n + 1) * datagram_count evs) (batch_call (w_tunnel s) q evs) s s' \<and> w_lock s' = Unlocked"
proof -
  let ?s = "unlock_lock E Read_Locked s" and ?P = "batch_call (w_tunnel s) q evs"
  note o = others_okD [OF env(3) full, of Read_Locked]
  have len: "length (devs (w_tunnel ?s)) \<le> length (devs (w_tunnel s)) + n"
    using env(4) full by (simp add: others_add_def unlock_lock_def)
  have first: "serves n ?P s ?s" using o len by (simp add: serves_def unlock_lock_def)
  obtain s1 where s1: "worker_events E q evs ?s = Inr s1" "s' = s1\<lparr>w_lock := Unlocked\<rparr>"
    using res by (auto simp: worker_batch_def)
  have "q < num_queues (w_tunnel ?s)" using q o(2) by (simp add: extends_def)
  from events_serve [OF env o(1) this o(2) ok subset_refl _ s1(1)] len room
  have "serves ((2 * n + 1) * datagram_count evs) ?P ?s s1" by simp
  from serves_trans [OF first this stable_batch_call] s1(2) show ?thesis by (simp add: serves_def)
qed

section \<open>Properties\<close>

text \<open>
  C1. A worker is a switch: over any number of batches of events in which all senders are known, it
  faults nowhere and moves exactly the frames that the plain switch moves, in the same order, each
  frame of a device to its endpoint and each datagram to the device of its sender, however other
  threads extend the tunnel between the batches.
\<close>

theorem known_batches_are_switched:
  assumes "t_full (w_tunnel s)" "q < num_queues (w_tunnel s)"
    and "list_all (list_all (event_known (w_tunnel s))) batches"
    and "others_ok E" and "\<forall>h ep fd v. 0 \<le> ret (kern E h (Sys_epoll_mod ep fd v))"
  shows "\<exists>s' es. worker_thread E q batches s = Inr s' \<and>
    traffic (w_history s') = traffic (w_history s) @ es \<and>
    map fst es = concat (map (switched (w_tunnel s) q) (concat batches)) \<and>
    t_full (w_tunnel s') \<and> extends (w_tunnel s) (w_tunnel s')"
  by (rule batches_known_run [OF assms])

definition two_way_batches :: "event list list" where
  "two_way_batches =
     [[\<lparr>ev_data = tunnel_epoll_event True 1 14, ev_tap = [Frame [1], Frame [2, 3]], ev_udp = []\<rparr>],
      [\<lparr>ev_data = tunnel_epoll_event False 0 6, ev_tap = [],
        ev_udp = [Datagram (example_datagram 2), Datagram (example_datagram 1)]\<rparr>]]"

lemma two_way_events:
  "ev_is_tap (tunnel_epoll_event True 1 14)" "ev_tap_id (tunnel_epoll_event True 1 14) = 1"
  "\<not> ev_is_tap (tunnel_epoll_event False 0 6)"
  using event_decode [of 1 14 True] event_decode [of 0 6 False] by simp_all

theorem known_batches_are_switched_witness:
  "\<exists>s' es. worker_thread example_surroundings 1 two_way_batches example_worker = Inr s' \<and>
     traffic (w_history s') = es \<and>
     map fst es = [Sys_sendto 6 [1] (v4_mapped 2) 0xD204, Sys_sendto 6 [2, 3] (v4_mapped 2) 0xD204,
       Sys_write 14 [9, 9], Sys_write 12 [9, 9]]"
proof -
  have known: "list_all (list_all (event_known (w_tunnel example_worker))) two_way_batches"
    by (simp add: two_way_batches_def event_known_def tap_event_ok_def two_way_events known_def
        example_datagram_def example_devs example_dev_def dev_key_def)
  have sw: "concat (map (switched (w_tunnel example_worker) 1) (concat two_way_batches)) =
      [Sys_sendto 6 [1] (v4_mapped 2) 0xD204, Sys_sendto 6 [2, 3] (v4_mapped 2) 0xD204,
       Sys_write 14 [9, 9], Sys_write 12 [9, 9]]"
    by (simp add: two_way_batches_def switched_def two_way_events sends_def deliveries_def example_datagram_def
        example_devs example_dev_def dev_key_def v4_mapped_inj)
  have start: "t_full (w_tunnel example_worker)" "1 < num_queues (w_tunnel example_worker)"
      "\<forall>h ep fd v. 0 \<le> ret (kern example_surroundings h (Sys_epoll_mod ep fd v))"
      "traffic (w_history example_worker) = []"
    using example_full by (simp_all add: kind_other traffic_def)
  note run = known_batches_are_switched [OF start(1,2) known example_others_ok start(3), unfolded sw start(4) append_Nil]
  then show ?thesis by (elim exE conjE) (intro exI conjI, assumption+)
qed



end
