(* ===== verification/Locking.thy ===== *)
theory Locking
  imports Switching Tunnel_Stats
begin

text \<open>
  The threads of a tunnel side by side: the read-write lock of \<^verbatim>\<open>src/src/tunnel.c\<close> as a step relation
  over the tunnel that all workers share. A worker that holds the lock moves frames and counts them;
  one that holds it for writing may also add an endpoint. Every step runs the model of the code that
  a worker runs while it has the lock. The thread \<open>i\<close> has the queue \<open>i\<close>.
\<close>

section \<open>States and steps\<close>

record system =
  s_tunnel :: tunnel
  s_calls :: history
  s_draws :: nat
  s_locks :: "nat \<Rightarrow> lock"

definition as_worker :: "system \<Rightarrow> nat \<Rightarrow> worker" where
  "as_worker s i = \<lparr>w_tunnel = s_tunnel s, w_history = s_calls s, w_rand = s_draws s, w_lock = s_locks s i\<rparr>"

definition put_worker :: "worker \<Rightarrow> system \<Rightarrow> system" where
  "put_worker w s = s\<lparr>s_tunnel := w_tunnel w, s_calls := w_history w, s_draws := w_rand w\<rparr>"

definition set_lock :: "nat \<Rightarrow> lock \<Rightarrow> system \<Rightarrow> system" where
  "set_lock i l s = s\<lparr>s_locks := (s_locks s)(i := l)\<rparr>"

text \<open>When \<^verbatim>\<open>pthread_rwlock_rdlock\<close> and \<^verbatim>\<open>pthread_rwlock_wrlock\<close> return.\<close>

definition may_read :: "(nat \<Rightarrow> lock) \<Rightarrow> bool" where
  "may_read L \<longleftrightarrow> (\<forall>j. L j \<noteq> Write_Locked)"

definition may_write :: "(nat \<Rightarrow> lock) \<Rightarrow> bool" where
  "may_write L \<longleftrightarrow> (\<forall>j. L j = Unlocked)"

inductive step :: "surroundings \<Rightarrow> nat \<Rightarrow> system \<Rightarrow> system \<Rightarrow> bool" for E where
  read_lock: "s_locks s i = Unlocked \<Longrightarrow> may_read (s_locks s) \<Longrightarrow> step E i s (set_lock i Read_Locked s)"
| write_lock: "s_locks s i = Unlocked \<Longrightarrow> may_write (s_locks s) \<Longrightarrow> step E i s (set_lock i Write_Locked s)"
| release: "s_locks s i \<noteq> Unlocked \<Longrightarrow> step E i s (set_lock i Unlocked s)"
| tap_frames: "s_locks s i \<noteq> Unlocked \<Longrightarrow> i < num_queues (s_tunnel s) \<Longrightarrow>
    0 \<le> v \<Longrightarrow> nat v < num_tap_devs (s_tunnel s) \<Longrightarrow>
    tap_loop E i v fs (as_worker s i) = Inr w \<Longrightarrow> step E i s (put_worker w s)"
| known_sender: "s_locks s i \<noteq> Unlocked \<Longrightarrow> i < num_queues (s_tunnel s) \<Longrightarrow>
    tun_map (s_tunnel s) = Live m \<Longrightarrow> 0 \<le> endpoint_map_lookup m addr p \<Longrightarrow>
    write_frame E i (endpoint_map_lookup m addr p) buf (as_worker s i) = Inr w \<Longrightarrow>
    step E i s (put_worker w s)"
| new_sender: "s_locks s i = Write_Locked \<Longrightarrow>
    tun_map (s_tunnel s) = Live m \<Longrightarrow> endpoint_map_lookup m addr p < 0 \<Longrightarrow>
    num_tap_devs (s_tunnel s) + 1 < 2 ^ 30 \<Longrightarrow>
    new_endpoint E addr p (as_worker s i) = Inr (tap, w) \<Longrightarrow> step E i s (put_worker w s)"
| statistics: "s_locks s i \<noteq> Unlocked \<Longrightarrow>
    tunnel_print_stats (kern E) (printed E) (s_tunnel s) (s_calls s) = Inr (ls, h) \<Longrightarrow>
    step E i s (s\<lparr>s_calls := h\<rparr>)"

text \<open>Any number of steps of any threads.\<close>

definition steps :: "surroundings \<Rightarrow> system \<Rightarrow> system \<Rightarrow> bool" where
  "steps E = (\<lambda>s s'. \<exists>i. step E i s s')\<^sup>*\<^sup>*"

inductive_cases step_cases: "step E i s s'"

section \<open>Mutual exclusion\<close>

definition exclusive :: "(nat \<Rightarrow> lock) \<Rightarrow> bool" where
  "exclusive L \<longleftrightarrow> (\<forall>i j. L i = Write_Locked \<longrightarrow> j \<noteq> i \<longrightarrow> L j = Unlocked)"

lemma put_worker_locks [simp]: "s_locks (put_worker w s) = s_locks s"
  by (simp add: put_worker_def)

lemma set_lock_simps [simp]:
  "s_locks (set_lock i l s) = (s_locks s)(i := l)" "s_tunnel (set_lock i l s) = s_tunnel s"
  by (simp_all add: set_lock_def)

lemma as_worker_simps [simp]:
  "w_tunnel (as_worker s i) = s_tunnel s" "w_history (as_worker s i) = s_calls s"
  by (simp_all add: as_worker_def)

lemma step_exclusive: "step E i s s' \<Longrightarrow> exclusive (s_locks s) \<Longrightarrow> exclusive (s_locks s')"
  by (induction rule: step.induct)
    (auto simp: exclusive_def may_read_def may_write_def split: if_splits)

section \<open>The tunnel under all steps\<close>

lemma step_keeps:
  assumes "step E i s s'" and fresh: "fresh_fds (kern E)" and place: "in_place E"
    and full: "t_full (s_tunnel s)"
  shows "t_full (s_tunnel s') \<and> extends (s_tunnel s) (s_tunnel s')"
  using assms(1)
proof (cases rule: step.cases)
  case (tap_frames v fs w)
  have wf: "t_wf (s_tunnel s)" using full by (simp add: t_full_def)
  obtain ss where "stats (devs (s_tunnel s) ! nat v) = Live ss"
    using dev_queue_ok [of "s_tunnel s" v i] wf tap_frames by (auto simp: t_wf_def)
  with tap_loop_ok [of "as_worker s i" v i ss E fs] wf tap_frames
  have "t_wf (w_tunnel w) \<and> routing (w_tunnel w) = routing (s_tunnel s)" by auto
  with routing_full [OF full] tap_frames show ?thesis by (simp add: put_worker_def)
next
  case (known_sender m addr p buf w)
  let ?v = "endpoint_map_lookup m addr p"
  have wf: "t_wf (s_tunnel s)" using full by (simp add: t_full_def)
  then obtain m' where m': "devs_wf (s_tunnel s)" "tun_map (s_tunnel s) = Live m'" "em_wf m'"
    "routes (em_abs m') (map dev_key (devs (s_tunnel s)))" by (rule t_wfE)
  with known_sender have mm: "m' = m" by simp
  have v: "nat ?v < num_tap_devs (s_tunnel s)"
    using em.lookup_routes [OF m'(3,4), of "(addr, p)"] known_sender mm devs_wfD(6) [OF m'(1)] by simp
  obtain fd ss where d: "tap_fds (devs (s_tunnel s) ! nat ?v) = Live fd"
      "stats (devs (s_tunnel s) ! nat ?v) = Live ss" "length ss = num_queues (s_tunnel s)"
    using dev_queue_ok [OF m'(1) _ v, of i] known_sender by metis
  obtain w' now where "write_frame E i ?v buf (as_worker s i) = Inr w'"
      "w_tunnel w' = set_stats (nat ?v) (ss[i := count_rx (kern E (s_calls s) (Sys_write (fd ! i) buf)) now (ss ! i)])
        (s_tunnel s)"
    by (rule write_frame_ok [of "as_worker s i" ?v i fd ss "Sys_write (fd ! i) buf" buf
          "kern E (s_calls s) (Sys_write (fd ! i) buf)" E])
      (use m'(1) v d known_sender in auto)
  with known_sender have w: "w_tunnel w = set_stats (nat ?v)
      (ss[i := count_rx (kern E (s_calls s) (Sys_write (fd ! i) buf)) now (ss ! i)]) (s_tunnel s)" by simp
  from set_stats_wf [OF wf v] d(3) routing_full [OF full] w known_sender show ?thesis
    by (simp add: put_worker_def)
next
  case (new_sender m addr p tap w)
  have "em_wf m" "routes (em_abs m) (map dev_key (devs (s_tunnel s)))"
    using full new_sender by (auto simp: t_full_def t_wf_def)
  then have "em_abs m (addr, p) = None"
    using em.lookup_neg_iff [of m "devs_keys" "(addr, p)" for devs_keys] new_sender by fastforce
  with new_endpoint_outcome [OF fresh place _ _ _ _ new_sender(6)] full new_sender show ?thesis
    by (simp add: put_worker_def)
qed (use full in simp_all)

lemma steps_keep:
  assumes "steps E s s'" and "fresh_fds (kern E)" "in_place E"
    and "t_full (s_tunnel s)" "exclusive (s_locks s)"
  shows "t_full (s_tunnel s') \<and> extends (s_tunnel s) (s_tunnel s') \<and> exclusive (s_locks s')"
  using assms(1) unfolding steps_def
proof (induction rule: rtranclp_induct)
  case base
  show ?case using assms by simp
next
  case (step s1 s2)
  then obtain i where i: "step E i s1 s2" by blast
  from step have "t_full (s_tunnel s1)" "extends (s_tunnel s) (s_tunnel s1)" "exclusive (s_locks s1)" by blast+
  with step_keeps [OF i assms(2,3)] step_exclusive [OF i] extends_trans show ?case by blast
qed

text \<open>
  What a worker assumes of the other threads while it has no lock (\<open>others_ok\<close>) holds when they take
  any steps from a state in which the lock is exclusive.
\<close>

lemma steps_are_others_ok:
  assumes "fresh_fds (kern E)" "in_place E"
    and "\<And>h t. \<exists>s s'. steps E s s' \<and> exclusive (s_locks s) \<and> s_tunnel s = t \<and> s_tunnel s' = others E h t"
  shows "others_ok E"
  unfolding others_ok_def using assms(3) steps_keep [OF _ assms(1,2)] by metis

text \<open>While one thread holds the lock for writing, no other takes a step.\<close>

lemma writer_excludes:
  assumes "exclusive (s_locks s)" "s_locks s i = Write_Locked" "j \<noteq> i"
  shows "\<not> step E j s s'"
proof
  assume "step E j s s'"
  moreover have "s_locks s j = Unlocked" using assms by (simp add: exclusive_def)
  moreover have "\<not> may_read (s_locks s)" "\<not> may_write (s_locks s)"
    using assms(2) lock.distinct(3) unfolding may_read_def may_write_def by metis+
  ultimately show False by (auto elim: step_cases)
qed

section \<open>Properties\<close>


definition example_system :: system where
  "example_system = \<lparr>s_tunnel = example_tunnel, s_calls = [], s_draws = 2, s_locks = (\<lambda>i. Unlocked)\<rparr>"

lemma example_steps:
  "\<exists>s'. steps example_surroundings example_system s' \<and> s_locks s' 0 = Read_Locked \<and> s_locks s' 1 = Read_Locked"
proof -
  let ?s1 = "set_lock 0 Read_Locked example_system" and ?E = example_surroundings
  have one: "step ?E 0 example_system ?s1"
    by (rule read_lock) (simp_all add: example_system_def may_read_def)
  have two: "step ?E 1 ?s1 (set_lock 1 Read_Locked ?s1)"
    by (rule read_lock) (simp_all add: example_system_def may_read_def)
  from one two have "steps ?E example_system (set_lock 1 Read_Locked ?s1)"
    unfolding steps_def by (intro converse_rtranclp_into_rtranclp [OF _ r_into_rtranclp]) blast+
  then show ?thesis by (intro exI [of _ "set_lock 1 Read_Locked ?s1"]) simp
qed



definition serving_system :: system where
  "serving_system = set_lock 1 Write_Locked example_system"


end
