(* ===== verification/Spec2Isabelle.thy ===== *)
theory Spec2Isabelle
  imports Config_Properties Net_Properties Locking
begin

text \<open>
  Verification of \<^verbatim>\<open>udp-eth-tunnel\<close>, a program that tunnels Ethernet frames over UDP. One process
  runs several tunnels, each described by a section of a configuration file. A tunnel has a UDP
  socket and an epoll descriptor per queue, a worker thread per queue, and a TAP device (with all
  its queues) per remote endpoint. A frame that the kernel puts on a TAP device is sent to the
  endpoint of that device; a datagram that arrives is written to the device of its sender, which is
  made on the spot when the sender is new and allowed. A cuckoo hash table maps endpoints to
  devices; a read-write lock guards it and the array of devices.

  \<^bold>\<open>The theories and the code they model.\<close> Each definition has the name of its C function, or the name of
  the part of the function that it translates (loop bodies and stages of the long functions). Each
  theory that models code opens with the correspondence of its state.

    \<^item> \<open>Prelude\<close>: the integer types of \<^verbatim>\<open>src/src/util.h\<close> as words, the \<open>fault\<close>s that stand for
      executions C gives no meaning to, aborts and loops without end, the result type \<open>res\<close> and its
      \<open>bind_res\<close>, pointers (\<open>Null\<close>, \<open>Live\<close>, \<open>Dangling\<close>), bytes and bits of words.
    \<^item> \<open>C_String\<close>: the string functions of the C library that the program calls, on lists of
      characters, with their round trips.
    \<^item> \<open>Interfaces\<close>: the contracts between components as locales. \<open>id_table\<close> is what the tunnel needs
      of the endpoint map and is interpreted on it in \<open>Endpoint_Map\<close> (qualifier \<open>em\<close>);
      \<open>append_list\<close> is what the program needs of the list of tunnels, interpreted in \<open>Tunnel_List\<close>
      (qualifier \<open>tl\<close>).
    \<^item> \<open>Ip_Addr\<close>: \<^verbatim>\<open>src/src/ip_addr.h\<close> and \<^verbatim>\<open>src/src/ip_addr.c\<close>. The address union is its 128-bit
      member as a little-endian machine loads it. Masks, matching, parsing of a list of CIDR
      entries and printing.
    \<^item> \<open>Endpoint_Map\<close>, \<open>Endpoint_Properties\<close>: \<^verbatim>\<open>src/src/endpoint_map.c\<close>. The table as the array it
      is; \<open>em_wf\<close> is its invariant and \<open>em_abs\<close> the finite map it stands for.
    \<^item> \<open>Ini\<close>: \<^verbatim>\<open>src/src/ini.c\<close>, as a function of the contents of the file and of the callback.
    \<^item> \<open>Kernel\<close>: system calls, their replies, the history of all calls. A kernel is a function from the
      history and a call to a reply. \<open>open_fds\<close> and \<open>live_threads\<close> read off a history which
      descriptors are open and which threads were started and not joined.
    \<^item> \<open>Net\<close>, \<open>Net_Properties\<close>: \<^verbatim>\<open>src/src/net.c\<close>: the queues of a TAP device, the UDP sockets, host names.
    \<^item> \<open>Tunnel\<close>: the data of \<^verbatim>\<open>src/src/tunnel.c\<close>, the event codes, and \<^verbatim>\<open>tunnel_alloc_new_tap\<close>. \<open>t_wf\<close>
      is the invariant of a tunnel: complete devices, and ids in the map that lead to the device of
      their endpoint.
    \<^item> \<open>Worker\<close>, \<open>Worker_Properties\<close>: \<^verbatim>\<open>worker_thread\<close> with both packet loops, the exchange of the read
      lock for the write lock and back, and the forgotten pointer of the grown map. \<open>t_full\<close> adds
      to \<open>t_wf\<close> that every device is in the map.
    \<^item> \<open>Switching\<close>: whole batches of events of a worker against a plain switch (\<open>switched\<close>) as reference.
    \<^item> \<open>Locking\<close>: all workers of a tunnel side by side, as a step relation over the shared tunnel
      (\<open>system\<close>) whose guards are those of the read-write lock.
    \<^item> \<open>Lifecycle\<close>, \<open>Lifecycle_Properties\<close>: \<^verbatim>\<open>tunnel_create\<close> in its stages with the clean-up after each
      of them, \<^verbatim>\<open>tunnel_wait\<close> and \<^verbatim>\<open>tunnel_delete\<close>.
    \<^item> \<open>Tunnel_Stats\<close>: the statistics report, the text for a span of time, \<^verbatim>\<open>get_mac_addr\<close>.
    \<^item> \<open>Tunnel_List\<close>: the growing list of tunnels at the end of \<^verbatim>\<open>src/src/tunnel.c\<close>.
    \<^item> \<open>Config\<close>, \<open>Config_Properties\<close>: \<^verbatim>\<open>src/src/main.c\<close>: the callback that makes tunnels of the
      parsed file, the signal handlers and \<^verbatim>\<open>main\<close>.
\<close>

text \<open>
  \<^bold>\<open>How effects are modelled.\<close> State is passed explicitly. Code that may leave the defined behaviour of
  C returns \<open>fault + 'a\<close>; every access to an array, a heap block or an uninitialised cell that the
  source does not check is such a branch. A failed system call or allocation is a negative reply,
  so every error path of the source is a branch. A loop that may not end is modelled with all the
  freedom it has: the rehash loop of the endpoint map returns none when no later pair of nonces
  fits, which the worker turns into the fault \<open>Never_Returns\<close>.

  \<^bold>\<open>Parameters.\<close> The kernel with the clock, the values of \<^verbatim>\<open>rand()\<close> (a stream), the answers of the
  allocator for the endpoint map (record \<open>alloc_env\<close>), \<^verbatim>\<open>inet_pton\<close>, \<^verbatim>\<open>inet_ntop\<close>, \<^verbatim>\<open>getaddrinfo\<close> (in the
  replies of the kernel), and in \<open>Worker\<close> what other threads do to the tunnel while the lock is given
  up. What a descriptor has pending is the input of a packet loop: a list of frames or of
  datagrams; the read that finds nothing ends the loop.

  \<^bold>\<open>Hypotheses.\<close>
    \<^item> \<open>fresh_fds\<close>: a call that opens a descriptor returns one that is not open, and never \<open>0\<close> (the
      standard streams stay open; the code itself takes only positive ones for open).
    \<^item> \<open>in_place\<close>: the allocator of the endpoint map has memory, extends the block where it is, and the
      bytes it appends do not read as present entries. The code relies on all three; the
      properties about growth and about a moved map say what happens without.
    \<^item> \<open>others_ok\<close>: other threads keep the tunnel in full correspondence and only extend it. It holds
      when they take any steps of \<open>Locking\<close> (\<open>steps_are_others_ok\<close>). \<open>others_add\<close> bounds the devices
      they add each time the lock is given up, so that a batch stays within the bound on ids.
    \<^item> \<open>tap_event_ok\<close>: epoll reports events of devices that are there (the events of a device whose
      registration failed halfway are not; \<open>new_tap_device_outcomes\<close> says which are left behind).
    \<^item> For the statistics, that the clock stands still during one report.
    \<^item> Memory for the configuration (\<open>0 \<le> ret (kern E h Sys_alloc)\<close>) where a property is about tunnels
      that are made.

  \<^bold>\<open>Bounds.\<close> Device ids are 31-bit signed fields in the table and in the event code, so a tunnel has
  fewer than \<open>2 ^ 30\<close> devices; file descriptors are ints. A file with fewer than \<open>2 ^ 28\<close> lines keeps
  the size of the list of tunnels an int. Up to 256 entries, so in a table of up to 128 that grows
  once, IPv4 peers with one port share both hash slots. No definition uses fuel.

  \<^bold>\<open>What is shown.\<close>
    \<^item> Endpoint map: insertion and lookup refine a finite map; insertion returns exactly when some
      later pair of nonces places every entry, and never for the third IPv4 peer with one port;
      removal, stale entries after it, and what growth takes in.
    \<^item> Addresses: exactly which addresses an allow list admits, which bits a mask selects, every
      outcome of parsing an entry, bounds of the array that is filled, printing.
    \<^item> Configuration: a rendered file is parsed back into its events; the event-driven callback is
      equivalent to reading section by section; whatever the file holds, the tunnels made are in
      the list and complete; how a default endpoint is cut.
    \<^item> Network: descriptors on success and failure, free device names, the configured name.
    \<^item> Workers: with known senders a worker is equivalent to a plain switch over any number of batches;
      with any senders nothing goes elsewhere; transfers are counted, and what is denied has no
      effect; the executions that abort, use freed memory or hang.
    \<^item> Threads: under every interleaving the lock is exclusive, map and devices correspond and no
      endpoint has two devices; a hanging insertion stops all workers.
    \<^item> Life of a tunnel: what is open, registered and running after a creation, that a failed one
      closes its descriptors, and what deletion does, alone and after waiting.
    \<^item> Statistics: the report has every device with the sums of its counters; the text for a span of
      time is its exact decomposition.

  \<^bold>\<open>Not modelled.\<close> The usage text (a fixed text; its exit status is part of \<open>main_program\<close>), log messages
  other than those of the statistics report, code under \<^verbatim>\<open>DEBUG_ENABLED\<close> apart from \<^verbatim>\<open>get_mac_addr\<close>, and
  the macros of \<^verbatim>\<open>src/src/util.h\<close>, whose effects are written out where they are used (their clean-up of
  descriptors, the release of the lock, the exit when memory is out). The installation of signal
  handlers and the signal mask have no effect on the state modelled; the handlers are definitions.
  Steps of \<open>Locking\<close> are whole stretches of code under the lock: workers that hold it for reading
  together touch the counters of their own queue only, so their memory accesses do not meet.
  Header files without code, build files and the systemd unit hold no logic.
\<close>

end
